(* ===== verification/Prelude.thy ===== *)
theory Prelude
  imports Main "HOL-Library.Word" "HOL-Library.Char_ord" "HOL-Library.List_Lexorder"
begin

text \<open>
  Shared vocabulary of the development: the machine integers and byte strings of the C++
  sources, the fact collections the component theories add to, and generic lemmas on lists,
  sums and words that more than one component uses.

  A C++ \<open>char\<close> is a HOL \<open>char\<close> (both have 256 values), so a \<open>std::string\<close>, a
  \<open>std::string_view\<close> or a byte range is a list of characters. \<open>size_t\<close> values that
  measure objects in memory are natural numbers; where the code converts, wraps or compares
  them with other integer types the word types below are used instead.
\<close>

type_synonym bytes = string
type_synonym u8 = "8 word"
type_synonym u16 = "16 word"
type_synonym u32 = "32 word"
type_synonym u64 = "64 word"

named_theorems inv_intro "operations that keep an invariant"
named_theorems frame_simp "fields an operation leaves unchanged"
named_theorems content_simp "effect of an operation on the abstract content of a component"

section \<open>Byte order and letter case\<close>

text \<open>
  \<open>tolower\<close> in the C locale, the comparison \<open>strncasecmp\<close> makes (both operands have the
  length of the first argument at every call site, so only equality of whole strings is
  needed), and the two white space characters the HTTP code skips.
\<close>

definition to_lower :: "char \<Rightarrow> char" where
  "to_lower c = (if CHR ''A'' \<le> c \<and> c \<le> CHR ''Z'' then char_of (of_char c + (32::nat)) else c)"

definition equals_ignore_case :: "bytes \<Rightarrow> bytes \<Rightarrow> bool" where
  "equals_ignore_case a b \<longleftrightarrow> map to_lower a = map to_lower b"

definition is_blank :: "char \<Rightarrow> bool" where
  "is_blank c \<longleftrightarrow> c = CHR '' '' \<or> c = CHR 0x09"

definition crlf :: bytes where
  "crlf = [CHR 0x0D, CHR 0x0A]"

lemma equals_ignore_case_refl [simp]: "equals_ignore_case a a"
  by (simp add: equals_ignore_case_def)

lemma equals_ignore_case_length: "equals_ignore_case a b \<Longrightarrow> length a = length b"
  unfolding equals_ignore_case_def by (rule map_eq_imp_length_eq)

section \<open>Decimal numerals\<close>

fun digits_of :: "nat \<Rightarrow> nat \<Rightarrow> bytes" where
  "digits_of 0 n = []"
| "digits_of (Suc k) n =
     (if n < 10 then [char_of (48 + n)] else digits_of k (n div 10) @ [char_of (48 + n mod 10)])"

text \<open>\<open>std::to_string\<close> of a non-negative number; \<open>n + 1\<close> digits are always enough.\<close>

definition to_string :: "nat \<Rightarrow> bytes" where
  "to_string n = digits_of (Suc n) n"

lemma length_digits: "n < 10 ^ m \<Longrightarrow> 0 < m \<Longrightarrow> length (digits_of k n) \<le> m"
proof (induction k n arbitrary: m rule: digits_of.induct)
  case (2 k n)
  show ?case
  proof (cases "n < 10")
    case False
    obtain m' where m: "m = Suc m'" using 2(3) by (cases m) simp_all
    have "m' \<noteq> 0" using 2(2) False m by (cases m') simp_all
    with 2(2) m have "n div 10 < 10 ^ m'" by (simp add: div_less_iff_less_mult mult.commute)
    with 2(1) False m \<open>m' \<noteq> 0\<close> show ?thesis by simp
  qed (use 2(3) in simp)
qed simp

lemma length_to_string: "n < 10 ^ m \<Longrightarrow> 0 < m \<Longrightarrow> length (to_string n) \<le> m"
  unfolding to_string_def by (rule length_digits)

section \<open>Substring search\<close>

text \<open>
  \<open>std::string_view::find(needle, pos)\<close>: the least position from \<open>pos\<close> on where the
  needle stands, or \<open>npos\<close> (here \<open>None\<close>).
\<close>

fun find_from :: "bytes \<Rightarrow> bytes \<Rightarrow> nat \<Rightarrow> nat option" where
  "find_from pat [] k = (if pat = [] then Some k else None)"
| "find_from pat (c # cs) k =
     (if take (length pat) (c # cs) = pat then Some k else find_from pat cs (Suc k))"

definition sv_find :: "bytes \<Rightarrow> bytes \<Rightarrow> nat \<Rightarrow> nat option" where
  "sv_find s pat pos = (if length s < pos then None else find_from pat (drop pos s) pos)"

lemma find_from_SomeD:
  "find_from pat s k = Some j \<Longrightarrow>
     k \<le> j \<and> j - k + length pat \<le> length s \<and> take (length pat) (drop (j - k) s) = pat"
proof (induction pat s k rule: find_from.induct)
  case (1 pat k)
  then show ?case by (auto split: if_splits)
next
  case (2 pat c cs k)
  show ?case
  proof (cases "take (length pat) (c # cs) = pat")
    case True
    then have "length pat \<le> length (c # cs)"
      by (metis length_take min.cobounded1)
    with True 2 show ?thesis by simp
  next
    case False
    with 2(2) have "find_from pat cs (Suc k) = Some j" by simp
    with 2(1) False have IH: "Suc k \<le> j \<and> j - Suc k + length pat \<le> length cs \<and>
        take (length pat) (drop (j - Suc k) cs) = pat"
      by blast
    then obtain d where "j = Suc k + d" by (metis le_iff_add)
    with IH show ?thesis by simp
  qed
qed

lemma find_from_None:
  "find_from pat s k = None \<longleftrightarrow> (\<forall>pre post. s \<noteq> pre @ pat @ post)"
proof (induction pat s k rule: find_from.induct)
  case (1 pat k)
  then show ?case by auto
next
  case (2 pat c cs k)
  show ?case
  proof (cases "take (length pat) (c # cs) = pat")
    case True
    then have "c # cs = [] @ pat @ drop (length pat) (c # cs)"
      by (metis append_Nil append_take_drop_id)
    moreover from True have "find_from pat (c # cs) k \<noteq> None" by simp
    ultimately show ?thesis by blast
  next
    case False
    have "(\<exists>pre post. c # cs = pre @ pat @ post) \<longleftrightarrow> (\<exists>pre post. cs = pre @ pat @ post)"
    proof
      assume "\<exists>pre post. c # cs = pre @ pat @ post"
      then obtain pre post where e: "c # cs = pre @ pat @ post" by blast
      with False have "pre \<noteq> []" by auto
      then obtain p ps where "pre = p # ps" by (cases pre) auto
      with e have "cs = ps @ pat @ post" by simp
      then show "\<exists>pre post. cs = pre @ pat @ post" by blast
    next
      assume "\<exists>pre post. cs = pre @ pat @ post"
      then obtain pre post where "cs = pre @ pat @ post" by blast
      then have "c # cs = (c # pre) @ pat @ post" by simp
      then show "\<exists>pre post. c # cs = pre @ pat @ post" by blast
    qed
    with 2 False show ?thesis by auto
  qed
qed

section \<open>Lists\<close>

lemma take_append_drop_mid: "n \<le> m \<Longrightarrow> take n xs @ take (m - n) (drop n xs) = take m xs"
  by (metis le_add_diff_inverse take_add)

lemma distinct_remdups_adj_sorted: "sorted xs \<Longrightarrow> distinct (remdups_adj xs)"
  by (induction xs rule: remdups_adj.induct) (auto dest: order_antisym)

lemma blocks_split:
  "xs = takeWhile P xs @ dropWhile P xs \<and> (\<forall>x \<in> set (takeWhile P xs). P x)"
  by (auto dest: set_takeWhileD)

lemma dropWhile_all_append: "\<forall>x \<in> set xs. P x \<Longrightarrow> dropWhile P (xs @ ys) = dropWhile P ys"
  by (induction xs) auto

lemma dropWhile_stop: "xs = [] \<or> \<not> P (hd xs) \<Longrightarrow> dropWhile P xs = xs"
  by (cases xs) auto

lemma set_remove1_insert: "p \<in> set xs \<Longrightarrow> insert p (set (remove1 p xs)) = set xs"
  by (induction xs) auto

lemma sum_list_map_add:
  "sum_list (map (\<lambda>x. f x + g x) xs) = sum_list (map f xs) + (sum_list (map g xs) :: int)"
  by (induction xs) auto

lemma sum_list_update_int:
  "k < length xs \<Longrightarrow> sum_list (xs[k := v]) = sum_list xs + v - (xs ! k :: int)"
  by (induction xs arbitrary: k) (auto split: nat.split)

lemma sum_list_nonneg_zero:
  "(\<And>x. x \<in> set xs \<Longrightarrow> 0 \<le> (x::int)) \<Longrightarrow> sum_list xs = 0 \<Longrightarrow> x \<in> set xs \<Longrightarrow> x = 0"
  by (metis member_le_sum_list order_antisym)

section \<open>Words\<close>

lemma unat_of_nat_small64: "n < 2 ^ 64 \<Longrightarrow> unat (of_nat n :: u64) = n"
  by (simp add: unat_of_nat take_bit_nat_eq_self)

lemma unat_of_nat_small32: "n < 2 ^ 32 \<Longrightarrow> unat (of_nat n :: u32) = n"
  by (simp add: unat_of_nat take_bit_nat_eq_self)

lemma unat_lt_2p32: "unat (x :: u32) < 2 ^ 32"
  using unsigned_less [of x] by simp

lemma unat_ucast_32_64 [simp]: "unat (ucast (x :: u32) :: u64) = unat x"
  using unat_lt_2p32 [of x] by (simp add: unsigned_ucast_eq take_bit_nat_eq_self)

lemma unat_ucast_64_32: "unat (x :: u64) < 2 ^ 32 \<Longrightarrow> unat (ucast x :: u32) = unat x"
  by (simp add: unsigned_ucast_eq take_bit_nat_eq_self)

lemma unat_mult_64: "unat x * unat y < 2 ^ 64 \<Longrightarrow> unat (x * y :: u64) = unat x * unat y"
  by (simp add: unat_word_ariths)

lemma unat_add_64: "unat x + unat y < 2 ^ 64 \<Longrightarrow> unat (x + y :: u64) = unat x + unat y"
  by (simp add: unat_word_ariths)

lemma unat_add_32: "unat x + unat y < 2 ^ 32 \<Longrightarrow> unat (x + y :: u32) = unat x + unat y"
  by (simp add: unat_word_ariths)

lemma mult_lt_2p64: "a < 2 ^ 32 \<Longrightarrow> b < 2 ^ 32 \<Longrightarrow> a * b < (2 ^ 64 :: nat)"
  using mult_strict_mono [of a "2 ^ 32" b "2 ^ 32 :: nat"] by simp

end
