(* ===== verification/Byte_Buffer.thy ===== *)
theory Byte_Buffer
  imports Prelude
begin

text \<open>
  The application buffer of \<^verbatim>\<open>utils/Buffer.h\<close> and \<^verbatim>\<open>utils/Buffer.cc\<close>: one vector of
  bytes with a read and a write index, eight bytes kept free in front.

  \<open>readable\<close> is the abstract content, the bytes between the two indices; \<open>buf_inv\<close> is the
  class invariant. The locale \<open>byte_queue\<close> is the interface the connection, HTTP and codec
  theories rely on: bytes are appended at the back and consumed at the front. Its
  interpretation \<open>buf\<close> discharges the laws for this model.

  Every operation of the class is here, \<open>readFd\<close> with its 64-bit comparison of the
  \<open>readv\<close> result included. Reads outside the vector and a copy out of the 64 KiB stack
  buffer beyond its end are undefined behaviour in C++ and the value \<open>None\<close> here.
\<close>

section \<open>State and operations\<close>

record buffer =
  storage :: bytes
  readerIndex :: nat
  writerIndex :: nat

text \<open>The size of a buffer is that of its content, so that loops which consume it are measured by it.\<close>

instantiation buffer_ext :: (type) size
begin

definition size_buffer_ext :: "'a buffer_ext \<Rightarrow> nat" where
  "size_buffer_ext b = writerIndex b - readerIndex b"

instance ..

end

definition kCheapPrepend :: nat where
  "kCheapPrepend = 8"

definition kInitiaSize :: nat where
  "kInitiaSize = 1024"

text \<open>The constructor takes an initial size and does not use it.\<close>

definition buffer_new :: "nat \<Rightarrow> buffer" where
  "buffer_new initialSize =
     \<lparr>storage = replicate (kCheapPrepend + kInitiaSize) (CHR 0x00),
      readerIndex = kCheapPrepend, writerIndex = kCheapPrepend\<rparr>"

definition readableBytes :: "buffer \<Rightarrow> nat" where
  "readableBytes b = writerIndex b - readerIndex b"

definition writeableBytes :: "buffer \<Rightarrow> nat" where
  "writeableBytes b = length (storage b) - writerIndex b"

definition prependableBytes :: "buffer \<Rightarrow> nat" where
  "prependableBytes b = readerIndex b"

text \<open>The \<open>n\<close> bytes from \<open>peek()\<close> on; \<open>None\<close> when they leave the vector.\<close>

definition peek_bytes :: "nat \<Rightarrow> buffer \<Rightarrow> bytes option" where
  "peek_bytes n b =
     (if readerIndex b + n \<le> length (storage b)
      then Some (take n (drop (readerIndex b) (storage b))) else None)"

definition retrieveAll :: "buffer \<Rightarrow> buffer" where
  "retrieveAll b = b\<lparr>readerIndex := kCheapPrepend, writerIndex := kCheapPrepend\<rparr>"

definition retrieve :: "nat \<Rightarrow> buffer \<Rightarrow> buffer" where
  "retrieve len b =
     (if len < readableBytes b then b\<lparr>readerIndex := readerIndex b + len\<rparr>
      else retrieveAll b)"

definition retrieveAsString :: "nat \<Rightarrow> buffer \<Rightarrow> (bytes \<times> buffer) option" where
  "retrieveAsString len b =
     (case peek_bytes len b of None \<Rightarrow> None | Some s \<Rightarrow> Some (s, retrieve len b))"

definition retrieveAllAsString :: "buffer \<Rightarrow> (bytes \<times> buffer) option" where
  "retrieveAllAsString b = retrieveAsString (readableBytes b) b"

definition vec_resize :: "nat \<Rightarrow> bytes \<Rightarrow> bytes" where
  "vec_resize n xs = take n xs @ replicate (n - length xs) (CHR 0x00)"

definition makeSpace :: "nat \<Rightarrow> buffer \<Rightarrow> buffer" where
  "makeSpace len b =
     (if writeableBytes b + prependableBytes b < len + kCheapPrepend
      then b\<lparr>storage := vec_resize (writerIndex b + len) (storage b)\<rparr>
      else
        let readable = readableBytes b;
            moved = take readable (drop (readerIndex b) (storage b))
        in b\<lparr>storage := take kCheapPrepend (storage b) @ moved
                 @ drop (kCheapPrepend + readable) (storage b),
             readerIndex := kCheapPrepend,
             writerIndex := kCheapPrepend + readable\<rparr>)"

definition ensureWriteableBytes :: "nat \<Rightarrow> buffer \<Rightarrow> buffer" where
  "ensureWriteableBytes len b = (if writeableBytes b < len then makeSpace len b else b)"

text \<open>\<open>std::copy\<close> of a byte range to position \<open>p\<close> of the vector.\<close>

definition copy_at :: "nat \<Rightarrow> bytes \<Rightarrow> bytes \<Rightarrow> bytes" where
  "copy_at p xs v = take p v @ xs @ drop (p + length xs) v"

definition append_data :: "bytes \<Rightarrow> buffer \<Rightarrow> buffer" where
  "append_data data b =
     (let b1 = ensureWriteableBytes (length data) b
      in b1\<lparr>storage := copy_at (writerIndex b1) data (storage b1),
            writerIndex := writerIndex b1 + length data\<rparr>)"

subsection \<open>Reading from a descriptor\<close>

text \<open>
  The system call \<open>readv\<close> fills the free tail of the vector first and the stack buffer
  \<open>extrabuf\<close> next. It either returns the bytes it read or fails with an \<open>errno\<close>;
  \<open>readv_max\<close> is the room the two vectors give it.
\<close>

datatype readv_result = ReadvOk bytes | ReadvErr int

definition extrabuf_size :: nat where
  "extrabuf_size = 65536"

definition readv_max :: "buffer \<Rightarrow> nat" where
  "readv_max b =
     (let writable = writeableBytes b
      in writable + (if writable < extrabuf_size then extrabuf_size else 0))"

definition readv_bytes :: "readv_result \<Rightarrow> bytes" where
  "readv_bytes r = (case r of ReadvOk d \<Rightarrow> d | ReadvErr e \<Rightarrow> [])"

text \<open>The return value, stored in a \<open>const size_t\<close>: the failure value -1 becomes
  \<open>2^64 - 1\<close>.\<close>

definition readv_count :: "readv_result \<Rightarrow> u64" where
  "readv_count r = (case r of ReadvOk d \<Rightarrow> of_nat (length d) | ReadvErr e \<Rightarrow> - 1)"

definition readv_errno :: "readv_result \<Rightarrow> int" where
  "readv_errno r = (case r of ReadvOk d \<Rightarrow> 0 | ReadvErr e \<Rightarrow> e)"

text \<open>
  The result is the returned count, the value stored in \<open>*saveError\<close> if any, and the
  buffer. The comparison \<open>n < 0\<close> is the unsigned one of the code.
\<close>

definition readFd :: "readv_result \<Rightarrow> buffer \<Rightarrow> (u64 \<times> int option \<times> buffer) option" where
  "readFd r b =
     (let writable = writeableBytes b;
          d = readv_bytes r;
          n = readv_count r;
          extrabuf = drop writable d
                       @ replicate (extrabuf_size - length (drop writable d)) (CHR 0x00);
          b1 = b\<lparr>storage := copy_at (writerIndex b) (take writable d) (storage b)\<rparr>
      in if n < 0 then Some (n, Some (readv_errno r), b1)
         else if n \<le> of_nat writable
         then Some (n, None, b1\<lparr>writerIndex := writerIndex b1 + unat n\<rparr>)
         else
           let b2 = b1\<lparr>writerIndex := length (storage b1)\<rparr>;
               len = unat (n - of_nat writable)
           in if extrabuf_size < len then None
              else Some (n, None, append_data (take len extrabuf) b2))"

section \<open>Invariant and abstract content\<close>

definition buf_inv :: "buffer \<Rightarrow> bool" where
  "buf_inv b \<longleftrightarrow> kCheapPrepend \<le> readerIndex b \<and> readerIndex b \<le> writerIndex b
     \<and> writerIndex b \<le> length (storage b)"

definition readable :: "buffer \<Rightarrow> bytes" where
  "readable b = take (readableBytes b) (drop (readerIndex b) (storage b))"

lemmas buf_defs = buf_inv_def readable_def readableBytes_def writeableBytes_def
  prependableBytes_def

lemma size_buffer: "size (b :: buffer) = readableBytes b"
  by (simp add: size_buffer_ext_def readableBytes_def)

lemma size_retrieve_le: "size (retrieve n b) \<le> size b"
  by (auto simp: retrieve_def retrieveAll_def size_buffer_ext_def)

lemma size_retrieve: "0 < n \<Longrightarrow> 0 < size b \<Longrightarrow> size (retrieve n b) < size b"
  by (auto simp: retrieve_def retrieveAll_def size_buffer_ext_def readableBytes_def)

lemma length_readable [simp]: "buf_inv b \<Longrightarrow> length (readable b) = readableBytes b"
  by (auto simp: buf_defs)

lemma peek_readable:
  "buf_inv b \<Longrightarrow> n \<le> readableBytes b \<Longrightarrow> peek_bytes n b = Some (take n (readable b))"
  by (auto simp: peek_bytes_def buf_defs min_absorb1)

lemma buf_inv_new [inv_intro]: "buf_inv (buffer_new n)"
  by (simp add: buffer_new_def buf_inv_def kCheapPrepend_def)

lemma readable_new [content_simp]: "readable (buffer_new n) = []"
  by (simp add: buffer_new_def readable_def readableBytes_def)

lemma buf_inv_retrieveAll [inv_intro]: "buf_inv b \<Longrightarrow> buf_inv (retrieveAll b)"
  by (simp add: buf_inv_def retrieveAll_def)

lemma readable_retrieveAll [content_simp]: "readable (retrieveAll b) = []"
  by (simp add: readable_def readableBytes_def retrieveAll_def)

lemma buf_inv_retrieve [inv_intro]: "buf_inv b \<Longrightarrow> buf_inv (retrieve n b)"
  by (auto simp: retrieve_def buf_inv_retrieveAll) (auto simp: buf_inv_def readableBytes_def)

lemma readable_retrieve [content_simp]:
  assumes "buf_inv b"
  shows "readable (retrieve n b) = drop n (readable b)"
proof (cases "n < readableBytes b")
  case True
  then have "readable (retrieve n b)
      = take (readableBytes b - n) (drop n (drop (readerIndex b) (storage b)))"
    by (simp add: retrieve_def readable_def readableBytes_def add.commute)
  then show ?thesis by (simp add: readable_def drop_take)
next
  case False
  with assms have "length (readable b) \<le> n" by simp
  with False show ?thesis by (simp add: retrieve_def readable_retrieveAll)
qed

section \<open>Growing\<close>

lemma makeSpace_props:
  assumes "buf_inv b" and "writeableBytes b < len"
  shows "buf_inv (makeSpace len b) \<and> readable (makeSpace len b) = readable b
     \<and> len \<le> writeableBytes (makeSpace len b)"
proof (cases "writeableBytes b + prependableBytes b < len + kCheapPrepend")
  case True
  then have e: "makeSpace len b = b\<lparr>storage := vec_resize (writerIndex b + len) (storage b)\<rparr>"
    by (simp add: makeSpace_def)
  show ?thesis
    using assms unfolding e by (auto simp: buf_defs vec_resize_def)
next
  case False
  then have e: "makeSpace len b =
      b\<lparr>storage := take kCheapPrepend (storage b) @ readable b
                     @ drop (kCheapPrepend + readableBytes b) (storage b),
        readerIndex := kCheapPrepend, writerIndex := kCheapPrepend + readableBytes b\<rparr>"
    by (simp add: makeSpace_def readable_def Let_def)
  from assms False show ?thesis
    unfolding e by (auto simp: buf_defs)
qed

lemma ensureWriteableBytes_props:
  assumes "buf_inv b"
  shows "buf_inv (ensureWriteableBytes len b)"
    and "readable (ensureWriteableBytes len b) = readable b"
    and "len \<le> writeableBytes (ensureWriteableBytes len b)"
  using assms makeSpace_props [of b len] by (simp_all add: ensureWriteableBytes_def)

lemma copy_at_length [simp]:
  "p + length xs \<le> length v \<Longrightarrow> length (copy_at p xs v) = length v"
  by (simp add: copy_at_def)

lemma write_at_end:
  assumes "buf_inv b" and "length xs \<le> writeableBytes b"
    and "b' = b\<lparr>storage := copy_at (writerIndex b) xs (storage b),
                writerIndex := writerIndex b + length xs\<rparr>"
  shows "buf_inv b'" and "readable b' = readable b @ xs"
proof -
  have fit: "readerIndex b \<le> writerIndex b" "writerIndex b + length xs \<le> length (storage b)"
    using assms(1,2) by (auto simp: buf_defs)
  then show "buf_inv b'"
    using assms by (auto simp: buf_inv_def)
  have "drop (readerIndex b) (copy_at (writerIndex b) xs (storage b)) =
      readable b @ xs @ drop (writerIndex b + length xs) (storage b)"
    using fit by (simp add: copy_at_def readable_def readableBytes_def drop_take)
  moreover have "length (readable b) = writerIndex b - readerIndex b"
    using assms(1) by (simp add: readableBytes_def)
  ultimately show "readable b' = readable b @ xs"
    using fit(1) unfolding assms(3) readable_def [of "_\<lparr>storage := _, writerIndex := _\<rparr>"]
    by (simp add: readableBytes_def)
qed

lemma append_data_props:
  assumes "buf_inv b"
  shows "buf_inv (append_data xs b)" and "readable (append_data xs b) = readable b @ xs"
  using write_at_end [of "ensureWriteableBytes (length xs) b" xs, OF _ _ refl]
    ensureWriteableBytes_props [OF assms, of "length xs"]
  by (simp_all add: append_data_def Let_def)

lemmas buf_inv_append [inv_intro] = append_data_props(1)
lemmas readable_append [content_simp] = append_data_props(2)

section \<open>The byte queue interface\<close>

text \<open>
  What the users of a buffer rely on: a well-formed queue stays well-formed, \<open>put\<close> adds
  at the back and \<open>skip\<close> drops from the front.
\<close>

locale byte_queue =
  fixes content :: "'q \<Rightarrow> bytes"
    and wf :: "'q \<Rightarrow> bool"
    and put :: "bytes \<Rightarrow> 'q \<Rightarrow> 'q"
    and skip :: "nat \<Rightarrow> 'q \<Rightarrow> 'q"
  assumes wf_put: "wf q \<Longrightarrow> wf (put xs q)"
    and wf_skip: "wf q \<Longrightarrow> wf (skip n q)"
    and content_put: "wf q \<Longrightarrow> content (put xs q) = content q @ xs"
    and content_skip: "wf q \<Longrightarrow> content (skip n q) = drop n (content q)"
begin

lemma fold_put: "wf q \<Longrightarrow> wf (fold put cs q) \<and> content (fold put cs q) = content q @ concat cs"
  by (induction cs arbitrary: q) (auto simp: wf_put content_put)

lemma skip_all: "wf q \<Longrightarrow> content (skip (length (content q)) q) = []"
  by (simp add: content_skip)

lemma skip_put:
  "wf q \<Longrightarrow> n \<le> length (content q) \<Longrightarrow>
     content (skip n (put xs q)) = content (put xs (skip n q))"
  by (simp add: content_skip content_put wf_put wf_skip)

text \<open>Moving the first \<open>n\<close> bytes of one queue to the back of another keeps the stream.\<close>

lemma transfer_stream:
  "wf p \<Longrightarrow> wf q \<Longrightarrow>
     content (put (take n (content q)) p) @ content (skip n q) = content p @ content q"
  by (simp add: content_put content_skip)

end

interpretation buf: byte_queue readable buf_inv append_data retrieve
  by unfold_locales (auto intro: inv_intro simp: content_simp)

section \<open>A buffer implements a queue of bytes\<close>

datatype buf_op = Append bytes | Retrieve nat | RetrieveAll

fun buf_step :: "buf_op \<Rightarrow> buffer \<Rightarrow> buffer" where
  "buf_step (Append xs) b = append_data xs b"
| "buf_step (Retrieve n) b = retrieve n b"
| "buf_step RetrieveAll b = retrieveAll b"

fun queue_step :: "buf_op \<Rightarrow> bytes \<Rightarrow> bytes" where
  "queue_step (Append xs) q = q @ xs"
| "queue_step (Retrieve n) q = drop n q"
| "queue_step RetrieveAll q = []"

lemma buf_step_refines:
  "buf_inv b \<Longrightarrow> buf_inv (buf_step p b) \<and> readable (buf_step p b) = queue_step p (readable b)"
  by (cases p) (auto intro: inv_intro simp: content_simp)

lemma buf_run_refines:
  "buf_inv b \<Longrightarrow>
     buf_inv (fold buf_step ps b) \<and> readable (fold buf_step ps b) = fold queue_step ps (readable b)"
  by (induction ps arbitrary: b) (simp_all add: buf_step_refines)

text \<open>
  C31. Every sequence of appends, partial and full retrieves on a freshly constructed
  buffer keeps the index invariant (eight prepend bytes, read index not past the write
  index, write index within the vector) and leaves exactly the bytes a mathematical byte
  queue would hold: growing the vector and moving the content to the front are invisible.
\<close>

theorem buffer_refines_queue:
  "buf_inv (fold buf_step ps (buffer_new n))
     \<and> readable (fold buf_step ps (buffer_new n)) = fold queue_step ps []"
  using buf_run_refines [OF buf_inv_new] by (simp add: readable_new)

lemma retrieveAsString_ok:
  "buf_inv b \<Longrightarrow> n \<le> readableBytes b \<Longrightarrow>
     \<exists>b'. retrieveAsString n b = Some (take n (readable b), b') \<and> buf_inv b'
        \<and> readable b' = drop n (readable b)"
  by (simp add: retrieveAsString_def peek_readable inv_intro content_simp)

lemma storage_retained:
  assumes "buf_inv b" and "kCheapPrepend + readableBytes b + length xs \<le> length (storage b)"
  shows "length (storage (append_data xs b)) = length (storage b)"
proof -
  let ?b1 = "ensureWriteableBytes (length xs) b"
  have "length (storage ?b1) = length (storage b)"
    using assms by (auto simp: ensureWriteableBytes_def makeSpace_def buf_defs Let_def)
  moreover have "length (storage (append_data xs b)) = length (storage ?b1)"
    using ensureWriteableBytes_props [OF assms(1), of "length xs"]
    by (auto simp: append_data_def Let_def buf_defs)
  ultimately show ?thesis by simp
qed

section \<open>Reading from the descriptor\<close>

text \<open>
  When \<open>readv\<close> succeeds, the bytes it read are appended to the readable content in
  order, whether they fit in the free tail or spill into the stack buffer, and the
  returned count is their number. (The hypotheses: the vector is smaller than 2^63 bytes,
  as every C++ object is, and the kernel returns at most as many bytes as it was given
  room for.)
\<close>

theorem readFd_appends:
  assumes "buf_inv b" and "length (storage b) < 2 ^ 63" and "length d \<le> readv_max b"
  shows "\<exists>b'. readFd (ReadvOk d) b = Some (of_nat (length d), None, b') \<and> buf_inv b'
    \<and> readable b' = readable b @ d"
proof -
  let ?w = "writeableBytes b"
  have w: "?w < 2 ^ 63" using assms(2) by (simp add: writeableBytes_def)
  have d: "length d < 2 ^ 64"
    using assms(3) w by (simp add: readv_max_def Let_def extrabuf_size_def split: if_splits)
  have wn: "unat (of_nat ?w :: u64) = ?w" and dn: "unat (of_nat (length d) :: u64) = length d"
    using w d by (simp_all add: unat_of_nat_small64)
  have le: "(of_nat (length d) :: u64) \<le> of_nat ?w \<longleftrightarrow> length d \<le> ?w"
    by (simp add: word_le_nat_alt wn dn)
  show ?thesis
  proof (cases "length d \<le> ?w")
    case True
    let ?b' = "b\<lparr>storage := copy_at (writerIndex b) d (storage b),
                  writerIndex := writerIndex b + length d\<rparr>"
    have "readFd (ReadvOk d) b = Some (of_nat (length d), None, ?b')"
      using True by (simp add: readFd_def readv_bytes_def readv_count_def le dn Let_def)
    with write_at_end [OF assms(1) True refl] show ?thesis by blast
  next
    case False
    let ?b2 = "b\<lparr>storage := copy_at (writerIndex b) (take ?w d) (storage b),
                  writerIndex := writerIndex b + length (take ?w d)\<rparr>"
    have full: "length (take ?w d) = ?w" using False by simp
    have b2: "buf_inv ?b2" "readable ?b2 = readable b @ take ?w d"
      using write_at_end [OF assms(1) _ refl, of "take ?w d"] full by simp_all
    have end_: "length (copy_at (writerIndex b) (take ?w d) (storage b)) = writerIndex b + ?w"
      using assms(1) full by (auto simp: buf_defs)
    have len: "unat (of_nat (length d) - of_nat ?w :: u64) = length d - ?w"
      using False by (simp add: unat_sub word_le_nat_alt wn dn)
    have "length d - ?w \<le> extrabuf_size"
      using assms(3) by (simp add: readv_max_def Let_def split: if_splits)
    then have "readFd (ReadvOk d) b = Some (of_nat (length d), None, append_data (drop ?w d) ?b2)"
      using False end_ full
      by (simp add: readFd_def readv_bytes_def readv_count_def le dn len Let_def)
    then show ?thesis using b2 by (auto intro: inv_intro simp: content_simp)
  qed
qed

theorem readFd_appends_witness:
  "\<exists>b'. readFd (ReadvOk ''GET'') (buffer_new 0) = Some (of_nat (length ''GET''), None, b')
    \<and> buf_inv b' \<and> readable b' = readable (buffer_new 0) @ ''GET''"
proof -
  have "length (storage (buffer_new 0)) < 2 ^ 63"
    by (simp add: buffer_new_def kCheapPrepend_def kInitiaSize_def)
  moreover have "length ''GET'' \<le> readv_max (buffer_new 0)"
    by (simp add: readv_max_def Let_def extrabuf_size_def)
  ultimately show ?thesis by (intro readFd_appends buf_inv_new)
qed

text \<open>
  When \<open>readv\<close> fails, the failure branch of \<open>readFd\<close> is not taken: the result is
  stored in a \<open>size_t\<close>, so it is never negative, no \<open>errno\<close> is reported, and the code
  goes on to copy 2^64 - 1 - writable bytes out of a stack buffer of 64 KiB. This holds
  for every buffer and every error number.
\<close>

theorem readFd_failure_undefined:
  assumes "length (storage b) < 2 ^ 63"
  shows "readFd (ReadvErr e) b = None"
proof -
  let ?w = "writeableBytes b"
  have w: "?w < 2 ^ 63" using assms by (simp add: writeableBytes_def)
  then have wn: "unat (of_nat ?w :: u64) = ?w" by (simp add: unat_of_nat_small64)
  have m: "unat (- 1 :: u64) = 2 ^ 64 - 1" by (simp add: unsigned_minus_1_eq_mask mask_eq_exp_minus_1)
  have gt: "\<not> (- 1 :: u64) \<le> of_nat ?w"
    using w by (simp add: word_le_nat_alt wn m)
  have le: "(of_nat ?w :: u64) \<le> - 1" by simp
  have "unat (- 1 - of_nat ?w :: u64) = 2 ^ 64 - 1 - ?w"
    using unat_sub [OF le] by (simp only: wn m)
  then have "extrabuf_size < unat (- 1 - of_nat ?w :: u64)"
    using w by (simp add: extrabuf_size_def)
  with gt show ?thesis
    by (simp add: readFd_def readv_bytes_def readv_count_def Let_def del: word_order.extremum)
qed

theorem readFd_failure_undefined_witness: "readFd (ReadvErr 11) (buffer_new 0) = None"
  by (rule readFd_failure_undefined) (simp add: buffer_new_def kCheapPrepend_def kInitiaSize_def)

end
