(* ===== verification/Token_Bucket.thy ===== *)
theory Token_Bucket
  imports Prelude
begin

text \<open>
  The rate limiter of \<^verbatim>\<open>Proxy/src/L7/Middleware/TokenBucket.cc\<close>, on the 32 and 64
  bit integers of the code. This theory holds the sequential reading: one caller, whose
  compare-and-swap always succeeds. \<open>Token_Bucket_Threads\<close> holds the interleavings.

  \<open>settle\<close> is the loop body's computation of the tokens produced since the last
  settlement; the lemma \<open>settle_nat\<close> says that none of its 64-bit products and
  conversions overflows, so that it can be read on natural numbers.
\<close>

section \<open>State and operations\<close>

record tb_state =
  timestamp_ms :: u32
  tokens :: u32

record tb_config =
  capacity :: u32
  refill_rate :: u32

record token_bucket =
  bucket_config :: tb_config
  bucket_state :: tb_state

definition token_bucket_new :: "u32 \<Rightarrow> u32 \<Rightarrow> token_bucket" where
  "token_bucket_new cap rate =
     \<lparr>bucket_config = \<lparr>capacity = cap, refill_rate = rate\<rparr>,
      bucket_state = \<lparr>timestamp_ms = 0, tokens = cap\<rparr>\<rparr>"

definition produced :: "tb_config \<Rightarrow> u32 \<Rightarrow> tb_state \<Rightarrow> u64" where
  "produced cfg now cur =
     ucast (now - timestamp_ms cur) * ucast (refill_rate cfg) div 1000"

definition settle :: "tb_config \<Rightarrow> u32 \<Rightarrow> tb_state \<Rightarrow> tb_state" where
  "settle cfg now cur =
     (let p = produced cfg now cur in
      if 0 < p then
        let total = ucast (tokens cur) + p in
        \<lparr>timestamp_ms = timestamp_ms cur + ucast (p * 1000 div ucast (refill_rate cfg)),
         tokens = (if ucast (capacity cfg) \<le> total then capacity cfg else ucast total)\<rparr>
      else cur)"

text \<open>One pass through the retry loop: \<open>None\<close> is the rejection, \<open>Some\<close> the state to
  publish.\<close>

definition acquire_once :: "tb_config \<Rightarrow> u32 \<Rightarrow> u32 \<Rightarrow> tb_state \<Rightarrow> tb_state option" where
  "acquire_once cfg need now cur =
     (let s = settle cfg now cur in
      if tokens s < need then None else Some (s\<lparr>tokens := tokens s - need\<rparr>))"

definition tryAcquire :: "u32 \<Rightarrow> u32 \<Rightarrow> token_bucket \<Rightarrow> bool \<times> token_bucket" where
  "tryAcquire need now tb =
     (if need = 0 then (True, tb)
      else if capacity (bucket_config tb) < need then (False, tb)
      else
        case acquire_once (bucket_config tb) need now (bucket_state tb) of
          None \<Rightarrow> (False, tb)
        | Some next \<Rightarrow> (True, tb\<lparr>bucket_state := next\<rparr>))"

definition availableTokens :: "u32 \<Rightarrow> token_bucket \<Rightarrow> u32" where
  "availableTokens now tb =
     (let cfg = bucket_config tb;
          total = ucast (tokens (bucket_state tb)) + produced cfg now (bucket_state tb)
      in if ucast (capacity cfg) \<le> total then capacity cfg else ucast total)"

definition update_settle :: "tb_config \<Rightarrow> u32 \<Rightarrow> u32 \<Rightarrow> tb_state \<Rightarrow> tb_state" where
  "update_settle old new_capacity now cur =
     (let total = ucast (tokens cur) + produced old now cur;
          total1 = (if ucast (capacity old) < total then ucast (capacity old) else total);
          total2 = (if ucast new_capacity < total1 then ucast new_capacity else total1)
      in \<lparr>timestamp_ms = now, tokens = ucast (total2 :: u64)\<rparr>)"

definition update_bucket :: "u32 \<Rightarrow> u32 \<Rightarrow> u32 \<Rightarrow> token_bucket \<Rightarrow> token_bucket" where
  "update_bucket new_capacity new_rate now tb =
     \<lparr>bucket_config = \<lparr>capacity = new_capacity, refill_rate = new_rate\<rparr>,
      bucket_state = update_settle (bucket_config tb) new_capacity now (bucket_state tb)\<rparr>"

definition tooManyRequestsResponse :: bytes where
  "tooManyRequestsResponse =
     ''HTTP/1.1 429 Too Many Requests'' @ crlf @
     ''Content-Type: application/json'' @ crlf @
     ''Content-Length: 29'' @ crlf @
     ''Connection: close'' @ crlf @ crlf @
     [CHR 0x7B, CHR 0x22] @ ''error'' @ [CHR 0x22] @ '':'' @ [CHR 0x22] @
     ''Too Many Requests'' @ [CHR 0x22, CHR 0x7D]"

section \<open>The arithmetic on natural numbers\<close>

definition elapsed :: "u32 \<Rightarrow> tb_state \<Rightarrow> nat" where
  "elapsed now cur = unat (now - timestamp_ms cur)"

definition prod_nat :: "tb_config \<Rightarrow> u32 \<Rightarrow> tb_state \<Rightarrow> nat" where
  "prod_nat cfg now cur = elapsed now cur * unat (refill_rate cfg) div 1000"

definition advance_nat :: "tb_config \<Rightarrow> u32 \<Rightarrow> tb_state \<Rightarrow> nat" where
  "advance_nat cfg now cur = prod_nat cfg now cur * 1000 div unat (refill_rate cfg)"

lemma elapsed_lt: "elapsed now cur < 2 ^ 32"
  using unat_lt_2p32 [of "now - timestamp_ms cur"] by (simp only: elapsed_def)

lemma elapsed_rate_lt: "elapsed now cur * unat (refill_rate cfg) < 2 ^ 64"
  by (rule mult_lt_2p64 [OF elapsed_lt unat_lt_2p32])

lemma unat_produced: "unat (produced cfg now cur) = prod_nat cfg now cur"
proof -
  have "unat (ucast (now - timestamp_ms cur) * ucast (refill_rate cfg) :: u64)
      = elapsed now cur * unat (refill_rate cfg)"
    by (subst unat_mult_64) (use elapsed_rate_lt in \<open>simp_all add: elapsed_def\<close>)
  then show ?thesis by (simp add: produced_def prod_nat_def unat_div)
qed

lemma prod_nat_1000: "prod_nat cfg now cur * 1000 \<le> elapsed now cur * unat (refill_rate cfg)"
  by (simp add: prod_nat_def)

lemma advance_le_elapsed: "advance_nat cfg now cur \<le> elapsed now cur"
  unfolding advance_nat_def
  by (metis prod_nat_1000 div_le_mono nonzero_mult_div_cancel_right div_by_0 zero_le)

lemma unat_advance:
  "unat (produced cfg now cur * 1000 div ucast (refill_rate cfg)) = advance_nat cfg now cur"
proof -
  have "unat (produced cfg now cur * 1000) = prod_nat cfg now cur * 1000"
    by (subst unat_mult_64)
      (use prod_nat_1000 [of cfg now cur] elapsed_rate_lt [of now cur cfg] in
        \<open>simp_all add: unat_produced\<close>)
  then show ?thesis by (simp add: advance_nat_def unat_div)
qed

lemma unat_total:
  "unat (ucast (tokens cur) + produced cfg now cur) = unat (tokens cur) + prod_nat cfg now cur"
proof -
  have "prod_nat cfg now cur * 1000 < 2 ^ 64"
    using prod_nat_1000 [of cfg now cur] elapsed_rate_lt [of now cur cfg] by linarith
  then have "unat (tokens cur) + prod_nat cfg now cur < 2 ^ 64"
    using unat_lt_2p32 [of "tokens cur"] by simp
  then show ?thesis by (subst unat_add_64) (simp_all add: unat_produced)
qed

lemma capped_total:
  fixes total :: u64
  shows "unat (if ucast (c :: u32) \<le> total then c else ucast total) = min (unat c) (unat total)"
proof -
  have "ucast c \<le> total \<longleftrightarrow> unat c \<le> unat total"
    by (simp add: word_le_nat_alt)
  moreover have "unat (ucast total :: u32) = unat total" if "unat total < unat c"
    using that unat_lt_2p32 [of c] by (simp add: unat_ucast_64_32)
  ultimately show ?thesis by auto
qed

text \<open>The settlement without words.\<close>

lemma settle_nat:
  shows "unat (tokens (settle cfg now cur)) =
      (if 0 < prod_nat cfg now cur
       then min (unat (capacity cfg)) (unat (tokens cur) + prod_nat cfg now cur)
       else unat (tokens cur))"
    and "timestamp_ms (settle cfg now cur) =
      timestamp_ms cur + of_nat (advance_nat cfg now cur)"
proof -
  have p0: "0 < produced cfg now cur \<longleftrightarrow> 0 < prod_nat cfg now cur"
    by (metis unat_produced unat_eq_zero word_gt_0 gr0I less_irrefl)
  show "unat (tokens (settle cfg now cur)) =
      (if 0 < prod_nat cfg now cur
       then min (unat (capacity cfg)) (unat (tokens cur) + prod_nat cfg now cur)
       else unat (tokens cur))"
    by (simp add: settle_def Let_def p0 capped_total unat_total)
  have "(ucast (produced cfg now cur * 1000 div ucast (refill_rate cfg)) :: u32)
      = of_nat (advance_nat cfg now cur)"
    by (metis unat_advance of_nat_unat)
  moreover have "prod_nat cfg now cur = 0 \<Longrightarrow> advance_nat cfg now cur = 0"
    by (simp add: advance_nat_def)
  ultimately show "timestamp_ms (settle cfg now cur) =
      timestamp_ms cur + of_nat (advance_nat cfg now cur)"
    by (simp add: settle_def Let_def p0)
qed

section \<open>What a call grants\<close>

definition tb_inv :: "token_bucket \<Rightarrow> bool" where
  "tb_inv tb \<longleftrightarrow> unat (tokens (bucket_state tb)) \<le> unat (capacity (bucket_config tb))"

lemma availableTokens_nat:
  "unat (availableTokens now tb) =
     min (unat (capacity (bucket_config tb)))
         (unat (tokens (bucket_state tb)) + prod_nat (bucket_config tb) now (bucket_state tb))"
  by (simp add: availableTokens_def Let_def capped_total unat_total)

lemma settle_available:
  "tb_inv tb \<Longrightarrow> tokens (settle (bucket_config tb) now (bucket_state tb)) = availableTokens now tb"
  by (simp add: word_unat_eq_iff settle_nat availableTokens_nat tb_inv_def)

text \<open>
  On a bucket whose tokens do not exceed its capacity, \<open>tryAcquire\<close> grants a request
  exactly when \<open>availableTokens\<close> covers it (a request for nothing is always granted), takes
  the tokens it grants and moves the time stamp on by the time those tokens took to produce;
  a rejected request changes nothing.
\<close>

theorem tryAcquire_exact:
  assumes "tb_inv tb"
  shows "tryAcquire need now tb =
    (if need = 0 then (True, tb)
     else if availableTokens now tb < need then (False, tb)
     else (True, tb\<lparr>bucket_state :=
       \<lparr>timestamp_ms = timestamp_ms (bucket_state tb)
           + of_nat (advance_nat (bucket_config tb) now (bucket_state tb)),
        tokens = availableTokens now tb - need\<rparr>\<rparr>))"
proof -
  let ?s = "settle (bucket_config tb) now (bucket_state tb)"
  have "?s\<lparr>tokens := availableTokens now tb - need\<rparr> =
      \<lparr>timestamp_ms = timestamp_ms (bucket_state tb)
           + of_nat (advance_nat (bucket_config tb) now (bucket_state tb)),
       tokens = availableTokens now tb - need\<rparr>"
    by (simp add: settle_nat(2))
  moreover have "availableTokens now tb \<le> capacity (bucket_config tb)"
    by (simp add: word_le_nat_alt availableTokens_nat)
  then have "capacity (bucket_config tb) < need \<Longrightarrow> availableTokens now tb < need"
    by (rule le_less_trans)
  ultimately show ?thesis
    by (simp add: tryAcquire_def acquire_once_def Let_def settle_available [OF assms])
qed

theorem tryAcquire_exact_witness:
  "tb_inv (token_bucket_new 10 1000) \<and>
   tryAcquire 4 500 (token_bucket_new 10 1000) =
     (True, \<lparr>bucket_config = \<lparr>capacity = 10, refill_rate = 1000\<rparr>,
             bucket_state = \<lparr>timestamp_ms = 500, tokens = 6\<rparr>\<rparr>)"
proof -
  have inv: "tb_inv (token_bucket_new 10 1000)"
    by (simp add: tb_inv_def token_bucket_new_def)
  have "availableTokens 500 (token_bucket_new 10 1000) = 10"
    by (simp add: word_unat_eq_iff availableTokens_nat token_bucket_new_def)
  moreover have "advance_nat \<lparr>capacity = 10, refill_rate = 1000\<rparr> 500
      \<lparr>timestamp_ms = 0, tokens = 10\<rparr> = 500"
    by (simp add: advance_nat_def prod_nat_def elapsed_def)
  ultimately show ?thesis
    using inv tryAcquire_exact [OF inv, of 4 500] by (simp add: token_bucket_new_def)
qed

section \<open>The capacity bound\<close>

datatype tb_op = Acquire u32 u32 | Update u32 u32 u32

fun tb_step :: "tb_op \<Rightarrow> token_bucket \<Rightarrow> token_bucket" where
  "tb_step (Acquire need now) tb = snd (tryAcquire need now tb)"
| "tb_step (Update cap rate now) tb = update_bucket cap rate now tb"

lemma tb_inv_new [inv_intro]: "tb_inv (token_bucket_new cap rate)"
  by (simp add: tb_inv_def token_bucket_new_def)

lemma tb_inv_tryAcquire [inv_intro]:
  assumes "tb_inv tb"
  shows "tb_inv (snd (tryAcquire need now tb))"
proof -
  have "unat (availableTokens now tb - need) \<le> unat (capacity (bucket_config tb))"
    if "\<not> availableTokens now tb < need"
    using that availableTokens_nat [of now tb] by (simp add: unat_sub word_le_nat_alt not_less)
  then show ?thesis
    using assms by (auto simp: tryAcquire_exact [OF assms] tb_inv_def)
qed

lemma update_settle_nat:
  "unat (tokens (update_settle old new_capacity now cur)) =
     min (unat new_capacity)
       (min (unat (capacity old)) (unat (tokens cur) + prod_nat old now cur))"
proof -
  have cap: "(if ucast (c :: u32) < x then ucast c else x) = min (ucast c) (x :: u64)" for c x
    by (auto simp: min_def)
  have unat_min: "unat (min x y) = min (unat x) (unat y)" for x y :: u64
    by (simp add: min_def word_le_nat_alt)
  let ?t = "min (ucast new_capacity)
      (min (ucast (capacity old)) (ucast (tokens cur) + produced old now cur)) :: u64"
  have t: "unat ?t = min (unat new_capacity)
      (min (unat (capacity old)) (unat (tokens cur) + prod_nat old now cur))"
    by (simp add: unat_min unat_total)
  then have "unat ?t < 2 ^ 32"
    using unat_lt_2p32 [of new_capacity] by linarith
  then show ?thesis
    using t by (simp add: update_settle_def Let_def cap unat_ucast_64_32 min.left_commute)
qed

lemma tb_inv_update [inv_intro]: "tb_inv (update_bucket cap rate now tb)"
  by (simp add: tb_inv_def update_bucket_def update_settle_nat)

text \<open>
  However a bucket is used (any requests, any changes of capacity and rate, at any
  times, the 32-bit clock wrapping included), the tokens it holds never exceed its current
  capacity.
\<close>

theorem tokens_within_capacity:
  "unat (tokens (bucket_state (fold tb_step ops (token_bucket_new cap rate))))
     \<le> unat (capacity (bucket_config (fold tb_step ops (token_bucket_new cap rate))))"
proof -
  have "tb_inv tb \<Longrightarrow> tb_inv (fold tb_step ops tb)" for tb
  proof (induction ops arbitrary: tb)
    case (Cons p ps)
    have "tb_inv (tb_step p tb)"
      using Cons.prems by (cases p) (auto intro: inv_intro)
    then show ?case by (simp add: Cons.IH)
  qed simp
  from this [OF tb_inv_new] show ?thesis by (simp add: tb_inv_def)
qed

section \<open>The rate limit\<close>

text \<open>
  A run of requests at absolute times in milliseconds; the code sees each time modulo
  2^32. The result is the number of granted requests, the tokens they took and the bucket.
\<close>

fun acquire_run :: "(nat \<times> u32) list \<Rightarrow> token_bucket \<Rightarrow> nat \<times> nat \<times> token_bucket" where
  "acquire_run [] tb = (0, 0, tb)"
| "acquire_run ((t, need) # rs) tb =
     (case tryAcquire need (of_nat t) tb of (ok, tb1) \<Rightarrow>
       case acquire_run rs tb1 of (n, amount, tb2) \<Rightarrow>
         (if ok then (Suc n, unat need + amount, tb2) else (n, amount, tb2)))"

definition granted_count :: "(nat \<times> u32) list \<Rightarrow> token_bucket \<Rightarrow> nat" where
  "granted_count rs tb = fst (acquire_run rs tb)"

definition granted_total :: "(nat \<times> u32) list \<Rightarrow> token_bucket \<Rightarrow> nat" where
  "granted_total rs tb = fst (snd (acquire_run rs tb))"

lemma granted_Nil [simp]: "granted_total [] tb = 0" "granted_count [] tb = 0"
  by (simp_all add: granted_total_def granted_count_def)

lemma granted_Cons:
  assumes "tryAcquire need (of_nat t) tb = (ok, tb')"
  shows "granted_total ((t, need) # rs) tb = (if ok then unat need else 0) + granted_total rs tb'"
    and "granted_count ((t, need) # rs) tb = (if ok then 1 else 0) + granted_count rs tb'"
  using assms by (simp_all add: granted_total_def granted_count_def split: prod.split)

text \<open>
  One settlement moves the time stamp by a whole number of milliseconds, rounded down, so
  it may give away up to one millisecond of production. Nothing is given away when the
  rate divides 1000 or is a multiple of it.
\<close>

definition slack :: "u32 \<Rightarrow> nat" where
  "slack rate = (if unat rate dvd 1000 \<or> 1000 dvd unat rate then 0 else unat rate)"

lemma production_paid:
  "1000 * prod_nat cfg now cur
     \<le> unat (refill_rate cfg) * advance_nat cfg now cur + slack (refill_rate cfg)"
proof -
  let ?r = "unat (refill_rate cfg)" and ?p = "prod_nat cfg now cur"
  have split: "?p * 1000 = ?r * advance_nat cfg now cur + ?p * 1000 mod ?r"
    by (simp add: advance_nat_def)
  have "?p * 1000 mod ?r \<le> slack (refill_rate cfg)"
  proof (cases "?r = 0")
    case True
    then show ?thesis by (simp add: prod_nat_def)
  next
    case False
    have "?p * 1000 mod ?r = 0" if "?r dvd 1000 \<or> 1000 dvd ?r"
      using that
    proof
      assume "?r dvd 1000"
      then show ?thesis by simp
    next
      assume "1000 dvd ?r"
      then obtain k where k: "?r = 1000 * k" by blast
      then have "?p = elapsed now cur * k" by (simp add: prod_nat_def)
      then show ?thesis by (simp add: k)
    qed
    moreover have "?p * 1000 mod ?r \<le> ?r" using False by (simp add: less_imp_le)
    ultimately show ?thesis by (auto simp: slack_def)
  qed
  with split show ?thesis by (simp add: mult.commute)
qed

text \<open>The time stamp as an absolute time, and what one call does to it.\<close>

lemma elapsed_abs:
  assumes "timestamp_ms cur = of_nat TS" and "TS \<le> T"
  shows "elapsed (of_nat T) cur \<le> T - TS"
proof -
  have "elapsed (of_nat T) cur = unat (of_nat (T - TS) :: u32)"
    using assms by (simp add: elapsed_def of_nat_diff)
  then show ?thesis by (simp add: unat_of_nat)
qed

lemma tryAcquire_cases:
  assumes "tryAcquire need now tb = (ok, tb')"
  obtains "tb' = tb" and "\<not> ok \<or> need = 0"
  | nx where "ok" and "acquire_once (bucket_config tb) need now (bucket_state tb) = Some nx"
    and "tb' = tb\<lparr>bucket_state := nx\<rparr>"
proof (cases "need = 0 \<or> capacity (bucket_config tb) < need")
  case True
  with assms have "tb' = tb" "\<not> ok \<or> need = 0"
    by (auto simp: tryAcquire_def split: if_splits)
  then show thesis by (rule that(1))
next
  case False
  show thesis
  proof (cases "acquire_once (bucket_config tb) need now (bucket_state tb)")
    case None
    with assms False have "tb' = tb" "\<not> ok" by (simp_all add: tryAcquire_def)
    then show thesis by (intro that(1) disjI1)
  next
    case (Some n)
    with assms False show thesis by (intro that(2) [OF _ Some]) (simp_all add: tryAcquire_def)
  qed
qed

lemma charge_bound:
  "a + b = c \<Longrightarrow> c \<le> t + p \<Longrightarrow> 1000 * p \<le> x + s \<Longrightarrow> 1000 * (a + b) \<le> 1000 * t + x + (s :: nat)"
  using mult_le_mono2 [of c "t + p" 1000] by simp

lemma acquire_once_potential:
  assumes ts: "timestamp_ms cur = of_nat TS" "TS \<le> T"
    and call: "acquire_once cfg need (of_nat T) cur = Some next"
  shows "\<exists>TS'. timestamp_ms next = of_nat TS' \<and> TS \<le> TS' \<and> TS' \<le> T \<and>
      1000 * (unat (tokens next) + unat need)
        \<le> 1000 * unat (tokens cur) + unat (refill_rate cfg) * (TS' - TS)
          + slack (refill_rate cfg)"
proof -
  let ?s = "settle cfg (of_nat T) cur" and ?adv = "advance_nat cfg (of_nat T) cur"
  from call have need: "need \<le> tokens ?s" and nxt: "next = ?s\<lparr>tokens := tokens ?s - need\<rparr>"
    by (auto simp: acquire_once_def Let_def not_less split: if_splits)
  have adv: "TS + ?adv \<le> T"
    using advance_le_elapsed [of cfg "of_nat T" cur] elapsed_abs [OF ts] ts(2) by linarith
  have "unat (tokens ?s - need) + unat need = unat (tokens ?s)"
    using need by (simp add: unat_sub word_le_nat_alt)
  moreover have "unat (tokens ?s) \<le> unat (tokens cur) + prod_nat cfg (of_nat T) cur"
    by (simp add: settle_nat)
  ultimately have "1000 * (unat (tokens ?s - need) + unat need)
      \<le> 1000 * unat (tokens cur) + unat (refill_rate cfg) * ?adv + slack (refill_rate cfg)"
    using production_paid by (rule charge_bound)
  with nxt adv show ?thesis
    by (intro exI [of _ "TS + ?adv"]) (simp add: settle_nat(2) ts(1))
qed

lemma tryAcquire_potential:
  assumes ts: "timestamp_ms (bucket_state tb) = of_nat TS" "TS \<le> T"
    and call: "tryAcquire need (of_nat T) tb = (ok, tb')"
  shows "bucket_config tb' = bucket_config tb \<and>
    (\<exists>TS'. timestamp_ms (bucket_state tb') = of_nat TS' \<and> TS \<le> TS' \<and> TS' \<le> T \<and>
      1000 * (unat (tokens (bucket_state tb')) + (if ok then unat need else 0))
        \<le> 1000 * unat (tokens (bucket_state tb))
          + unat (refill_rate (bucket_config tb)) * (TS' - TS)
          + (if ok then slack (refill_rate (bucket_config tb)) else 0))"
  using call
proof (cases rule: tryAcquire_cases)
  case 1
  then have "unat need = 0" if ok using that by simp
  with 1 ts show ?thesis by (intro conjI exI [of _ TS]) auto
next
  case (2 nx)
  from acquire_once_potential [OF ts 2(2)] show ?thesis
    by (simp add: 2(1,3))
qed

lemma acquire_run_bound:
  assumes "timestamp_ms (bucket_state tb) = of_nat TS" and "TS \<le> Tend"
    and "sorted (map fst rs)" and "\<And>r. r \<in> set rs \<Longrightarrow> TS \<le> fst r \<and> fst r \<le> Tend"
  shows "1000 * granted_total rs tb \<le> 1000 * unat (tokens (bucket_state tb))
    + unat (refill_rate (bucket_config tb)) * (Tend - TS)
    + slack (refill_rate (bucket_config tb)) * granted_count rs tb"
  using assms
proof (induction rs arbitrary: tb TS)
  case Nil
  then show ?case by (simp add: granted_total_def)
next
  case (Cons r rs)
  obtain T need where r: "r = (T, need)" by (cases r)
  obtain ok tb' where call: "tryAcquire need (of_nat T) tb = (ok, tb')"
    by (cases "tryAcquire need (of_nat T) tb")
  from Cons.prems(4) [of r] r have T: "TS \<le> T" "T \<le> Tend" by simp_all
  from tryAcquire_potential [OF Cons.prems(1) T(1) call] obtain TS' where
    cfg: "bucket_config tb' = bucket_config tb" and
    ts': "timestamp_ms (bucket_state tb') = of_nat TS'" "TS \<le> TS'" "TS' \<le> T" and
    pot: "1000 * (unat (tokens (bucket_state tb')) + (if ok then unat need else 0))
        \<le> 1000 * unat (tokens (bucket_state tb))
          + unat (refill_rate (bucket_config tb)) * (TS' - TS)
          + (if ok then slack (refill_rate (bucket_config tb)) else 0)"
    by blast
  have "1000 * granted_total rs tb' \<le> 1000 * unat (tokens (bucket_state tb'))
    + unat (refill_rate (bucket_config tb)) * (Tend - TS')
    + slack (refill_rate (bucket_config tb)) * granted_count rs tb'"
    using Cons.IH [of tb' TS'] Cons.prems T ts' r cfg by fastforce
  moreover note granted_Cons [OF call, of rs, folded r]
  moreover have "unat (refill_rate (bucket_config tb)) * (TS' - TS)
      + unat (refill_rate (bucket_config tb)) * (Tend - TS')
      = unat (refill_rate (bucket_config tb)) * (Tend - TS)"
    using ts' T by (simp flip: distrib_left)
  ultimately show ?case using pot by (auto simp: distrib_left)
qed

text \<open>
  C21. The rate limit, exactly: when the rate divides 1000 or is a multiple of 1000 (as the
  IM limiter's 5000 is), a fresh bucket grants in the first \<open>Tend\<close> milliseconds at most its
  capacity plus rate times time, whatever requests are made, however often, at whatever
  times.
\<close>

theorem rate_limit_exact:
  assumes "sorted (map fst rs)" and "\<And>r. r \<in> set rs \<Longrightarrow> fst r \<le> Tend"
    and "unat rate dvd 1000 \<or> 1000 dvd unat rate"
  shows "1000 * granted_total rs (token_bucket_new cap rate) \<le> 1000 * unat cap + unat rate * Tend"
  using acquire_run_bound [of "token_bucket_new cap rate" 0 Tend rs] assms
  by (simp add: token_bucket_new_def slack_def)

theorem rate_limit_exact_witness:
  "1000 * granted_total [(0, 9), (1, 9), (1, 9)] (token_bucket_new 10 5000)
     \<le> 1000 * unat (10 :: u32) + unat (5000 :: u32) * 1"
  by (rule rate_limit_exact) auto

text \<open>
  For any rate, each granted request can exceed the limit by at most one millisecond
  of production.
\<close>

theorem rate_limit_slack:
  assumes "sorted (map fst rs)" and "\<And>r. r \<in> set rs \<Longrightarrow> fst r \<le> Tend"
  shows "1000 * granted_total rs (token_bucket_new cap rate)
    \<le> 1000 * unat cap + unat rate * (Tend + granted_count rs (token_bucket_new cap rate))"
proof -
  let ?tb = "token_bucket_new cap rate"
  have "slack rate \<le> unat rate" by (simp add: slack_def)
  then have "slack rate * granted_count rs ?tb \<le> unat rate * granted_count rs ?tb"
    by (rule mult_le_mono1)
  moreover have "1000 * granted_total rs ?tb
      \<le> 1000 * unat cap + unat rate * Tend + slack rate * granted_count rs ?tb"
    using acquire_run_bound [of ?tb 0 Tend rs] assms by (simp add: token_bucket_new_def)
  ultimately have "1000 * granted_total rs ?tb
      \<le> 1000 * unat cap + unat rate * Tend + unat rate * granted_count rs ?tb"
    by linarith
  then show ?thesis by (simp add: distrib_left)
qed

theorem rate_limit_slack_witness:
  "1000 * granted_total [(0, 9), (1, 9)] (token_bucket_new 10 2048)
     \<le> 1000 * unat (10 :: u32)
        + unat (2048 :: u32) * (1 + granted_count [(0, 9), (1, 9)] (token_bucket_new 10 2048))"
  by (rule rate_limit_slack) auto

text \<open>
  The slack is real at the rate the gateway uses for its LLM limiter (capacity 8192,
  2048 tokens per second): one millisecond after the start, any number of requests for two
  tokens is granted, because each settlement produces two tokens and rounds the time it
  consumes down to zero.
\<close>

theorem llm_limiter_unbounded:
  "granted_total (replicate n (1, 2)) (token_bucket_new 8192 2048) = 2 * n"
proof -
  let ?tb = "\<lambda>k. \<lparr>bucket_config = \<lparr>capacity = 8192, refill_rate = 2048\<rparr>,
      bucket_state = \<lparr>timestamp_ms = 0, tokens = k\<rparr>\<rparr>"
  have p: "prod_nat \<lparr>capacity = 8192, refill_rate = 2048\<rparr> 1 \<lparr>timestamp_ms = 0, tokens = k\<rparr> = 2" for k
    by (simp add: prod_nat_def elapsed_def)
  have a: "advance_nat \<lparr>capacity = 8192, refill_rate = 2048\<rparr> 1 \<lparr>timestamp_ms = 0, tokens = k\<rparr> = 0" for k
    by (simp add: advance_nat_def p)
  have av: "availableTokens 1 (?tb k) = 8192" if "k = 8190 \<or> k = 8192" for k
    using that by (auto simp: word_unat_eq_iff availableTokens_nat p)
  have step: "tryAcquire 2 1 (?tb k) = (True, ?tb 8190)" if k: "k = 8190 \<or> k = 8192" for k
  proof -
    have "tb_inv (?tb k)" using k by (auto simp: tb_inv_def)
    from tryAcquire_exact [OF this, of 2 1] show ?thesis by (simp add: av [OF k] a)
  qed
  have "k = 8190 \<or> k = 8192 \<Longrightarrow> granted_total (replicate n (1, 2)) (?tb k) = 2 * n" for k
    by (induction n arbitrary: k) (simp_all add: granted_Cons [where t = 1, simplified, OF step])
  then show ?thesis by (simp add: token_bucket_new_def)
qed

end
