(* ===== verification/Token_Bucket_Threads.thy ===== *)
theory Token_Bucket_Threads
  imports Token_Bucket
begin

text \<open>
  The rate limiter under concurrency: any number of threads run \<open>tryAcquire\<close>, one at a
  time (the mutex) runs \<open>update\<close>, and each atomic access to the shared configuration or
  state is one step. The program counter of a thread names the point of the C++ loop it has
  reached and the local copies it holds there. Time is a global clock in milliseconds that
  ticks between steps and stays below 2^32 (49 days of up time); \<open>nowMs\<close> reads it. The
  weak compare-and-swap may fail even when the state is unchanged.

  The ghost fields \<open>sys_granted\<close> and \<open>sys_grants\<close> sum and count the granted requests.
\<close>

section \<open>Steps\<close>

datatype tb_pc =
    Idle
  | AcqLoad u32 tb_config
  | AcqLoop u32 tb_config tb_state
  | AcqCas u32 tb_config tb_state tb_state
  | UpdLoad tb_config tb_config
  | UpdLoop tb_config tb_config tb_state
  | UpdCas tb_config tb_config tb_state tb_state
  | UpdStore tb_config

record tb_sys =
  sys_config :: tb_config
  sys_state :: tb_state
  sys_time :: nat
  sys_threads :: "nat \<Rightarrow> tb_pc"
  sys_mutex :: "nat option"
  sys_granted :: nat
  sys_grants :: nat

definition tb_sys_init :: "u32 \<Rightarrow> u32 \<Rightarrow> tb_sys" where
  "tb_sys_init cap rate =
     \<lparr>sys_config = bucket_config (token_bucket_new cap rate),
      sys_state = bucket_state (token_bucket_new cap rate),
      sys_time = 0, sys_threads = (\<lambda>_. Idle), sys_mutex = None,
      sys_granted = 0, sys_grants = 0\<rparr>"

definition set_pc :: "nat \<Rightarrow> tb_pc \<Rightarrow> tb_sys \<Rightarrow> tb_sys" where
  "set_pc i pc s = s\<lparr>sys_threads := (sys_threads s)(i := pc)\<rparr>"

inductive tick_step :: "tb_sys \<Rightarrow> tb_sys \<Rightarrow> bool" where
  tick: "Suc (sys_time s) < 2 ^ 32 \<Longrightarrow> tick_step s (s\<lparr>sys_time := Suc (sys_time s)\<rparr>)"

inductive acquire_step :: "nat \<Rightarrow> tb_sys \<Rightarrow> tb_sys \<Rightarrow> bool" for i where
  acq_start: "sys_threads s i = Idle \<Longrightarrow> need \<noteq> 0 \<Longrightarrow> \<not> capacity (sys_config s) < need \<Longrightarrow>
     acquire_step i s (set_pc i (AcqLoad need (sys_config s)) s)"
| acq_load: "sys_threads s i = AcqLoad need cfg \<Longrightarrow>
     acquire_step i s (set_pc i (AcqLoop need cfg (sys_state s)) s)"
| acq_reject: "sys_threads s i = AcqLoop need cfg cur \<Longrightarrow>
     acquire_once cfg need (of_nat (sys_time s)) cur = None \<Longrightarrow>
     acquire_step i s (set_pc i Idle s)"
| acq_compute: "sys_threads s i = AcqLoop need cfg cur \<Longrightarrow>
     acquire_once cfg need (of_nat (sys_time s)) cur = Some nx \<Longrightarrow>
     acquire_step i s (set_pc i (AcqCas need cfg cur nx) s)"
| acq_cas_ok: "sys_threads s i = AcqCas need cfg cur nx \<Longrightarrow> sys_state s = cur \<Longrightarrow>
     acquire_step i s (set_pc i Idle
       (s\<lparr>sys_state := nx, sys_granted := sys_granted s + unat need,
          sys_grants := Suc (sys_grants s)\<rparr>))"
| acq_cas_fail: "sys_threads s i = AcqCas need cfg cur nx \<Longrightarrow>
     acquire_step i s (set_pc i (AcqLoop need cfg (sys_state s)) s)"

inductive update_step :: "nat \<Rightarrow> tb_sys \<Rightarrow> tb_sys \<Rightarrow> bool" for i where
  upd_lock: "sys_threads s i = Idle \<Longrightarrow> sys_mutex s = None \<Longrightarrow>
     update_step i s (set_pc i (UpdLoad new (sys_config s)) (s\<lparr>sys_mutex := Some i\<rparr>))"
| upd_load: "sys_threads s i = UpdLoad new old \<Longrightarrow>
     update_step i s (set_pc i (UpdLoop new old (sys_state s)) s)"
| upd_compute: "sys_threads s i = UpdLoop new old cur \<Longrightarrow>
     update_step i s (set_pc i (UpdCas new old cur
       (update_settle old (capacity new) (of_nat (sys_time s)) cur)) s)"
| upd_cas_ok: "sys_threads s i = UpdCas new old cur nx \<Longrightarrow> sys_state s = cur \<Longrightarrow>
     update_step i s (set_pc i (UpdStore new) (s\<lparr>sys_state := nx\<rparr>))"
| upd_cas_fail: "sys_threads s i = UpdCas new old cur nx \<Longrightarrow>
     update_step i s (set_pc i (UpdLoop new old (sys_state s)) s)"
| upd_store: "sys_threads s i = UpdStore new \<Longrightarrow>
     update_step i s (set_pc i Idle (s\<lparr>sys_config := new, sys_mutex := None\<rparr>))"

text \<open>Runs in which only requests are made, and runs with updates as well.\<close>

inductive request_run :: "tb_sys \<Rightarrow> tb_sys \<Rightarrow> bool" for s0 where
  rq_start: "request_run s0 s0"
| rq_tick: "request_run s0 s \<Longrightarrow> tick_step s t \<Longrightarrow> request_run s0 t"
| rq_acquire: "request_run s0 s \<Longrightarrow> acquire_step i s t \<Longrightarrow> request_run s0 t"

inductive full_run :: "tb_sys \<Rightarrow> tb_sys \<Rightarrow> bool" for s0 where
  fl_start: "full_run s0 s0"
| fl_tick: "full_run s0 s \<Longrightarrow> tick_step s t \<Longrightarrow> full_run s0 t"
| fl_acquire: "full_run s0 s \<Longrightarrow> acquire_step i s t \<Longrightarrow> full_run s0 t"
| fl_update: "full_run s0 s \<Longrightarrow> update_step i s t \<Longrightarrow> full_run s0 t"

lemma set_pc_simps [simp]:
  "sys_config (set_pc i pc s) = sys_config s" "sys_state (set_pc i pc s) = sys_state s"
  "sys_time (set_pc i pc s) = sys_time s" "sys_mutex (set_pc i pc s) = sys_mutex s"
  "sys_granted (set_pc i pc s) = sys_granted s" "sys_grants (set_pc i pc s) = sys_grants s"
  "sys_threads (set_pc i pc s) = (sys_threads s)(i := pc)"
  by (simp_all add: set_pc_def)

section \<open>The rate limit under any interleaving\<close>

text \<open>
  What each thread knows: its configuration snapshot is the shared one, the state it
  loaded is not younger than the clock, and a state it is about to publish was computed
  at some time between the two.
\<close>

fun pc_ok :: "tb_config \<Rightarrow> nat \<Rightarrow> tb_pc \<Rightarrow> bool" where
  "pc_ok c T (AcqLoad need cfg) = (cfg = c)"
| "pc_ok c T (AcqLoop need cfg cur) = (cfg = c \<and> unat (timestamp_ms cur) \<le> T)"
| "pc_ok c T (AcqCas need cfg cur nx) =
     (cfg = c \<and> (\<exists>t \<le> T. unat (timestamp_ms cur) \<le> t
        \<and> acquire_once cfg need (of_nat t) cur = Some nx))"
| "pc_ok c T _ = True"

definition request_inv :: "u32 \<Rightarrow> u32 \<Rightarrow> tb_sys \<Rightarrow> bool" where
  "request_inv cap rate s \<longleftrightarrow>
     sys_config s = \<lparr>capacity = cap, refill_rate = rate\<rparr> \<and>
     sys_time s < 2 ^ 32 \<and>
     unat (timestamp_ms (sys_state s)) \<le> sys_time s \<and>
     1000 * (sys_granted s + unat (tokens (sys_state s)))
       \<le> 1000 * unat cap + unat rate * unat (timestamp_ms (sys_state s))
         + slack rate * sys_grants s \<and>
     (\<forall>i. pc_ok (sys_config s) (sys_time s) (sys_threads s i))"

lemma pc_ok_later: "pc_ok c T pc \<Longrightarrow> T \<le> T' \<Longrightarrow> pc_ok c T' pc"
  by (induction c T pc rule: pc_ok.induct) (auto intro: order_trans)

lemma pc_ok_Suc: "pc_ok c T pc \<Longrightarrow> pc_ok c (Suc T) pc"
  by (erule pc_ok_later) simp

lemma request_inv_init: "request_inv cap rate (tb_sys_init cap rate)"
  by (simp add: request_inv_def tb_sys_init_def token_bucket_new_def)

lemma request_inv_tick: "tick_step s t \<Longrightarrow> request_inv cap rate s \<Longrightarrow> request_inv cap rate t"
  by (induction rule: tick_step.induct) (auto simp: request_inv_def intro: pc_ok_Suc)

text \<open>The publishing step: the potential argument of the sequential bucket.\<close>

lemma request_inv_cas:
  assumes inv: "request_inv cap rate s"
    and pc: "sys_threads s i = AcqCas need cfg (sys_state s) nx"
  shows "request_inv cap rate (set_pc i Idle
       (s\<lparr>sys_state := nx, sys_granted := sys_granted s + unat need,
          sys_grants := Suc (sys_grants s)\<rparr>))"
proof -
  let ?ts = "unat (timestamp_ms (sys_state s))"
  have cfg: "sys_config s = \<lparr>capacity = cap, refill_rate = rate\<rparr>" and T: "sys_time s < 2 ^ 32"
    and pot: "1000 * (sys_granted s + unat (tokens (sys_state s)))
        \<le> 1000 * unat cap + unat rate * ?ts + slack rate * sys_grants s"
    and ok: "\<And>j. pc_ok (sys_config s) (sys_time s) (sys_threads s j)"
    using inv by (auto simp: request_inv_def)
  from ok [of i] pc obtain t where t: "t \<le> sys_time s" "?ts \<le> t"
      and call: "acquire_once (sys_config s) need (of_nat t) (sys_state s) = Some nx"
    by auto
  have "timestamp_ms (sys_state s) = of_nat ?ts" by simp
  from acquire_once_potential [OF this t(2) call] obtain TS where
    TS: "timestamp_ms nx = of_nat TS" "?ts \<le> TS" "TS \<le> t" and
    step: "1000 * (unat (tokens nx) + unat need)
        \<le> 1000 * unat (tokens (sys_state s)) + unat rate * (TS - ?ts) + slack rate"
    by (auto simp: cfg)
  have "TS < 2 ^ 32" using TS(3) t(1) T by simp
  then have nx: "unat (timestamp_ms nx) = TS"
    by (simp only: TS(1) unat_of_nat_small32)
  have "unat rate * TS = unat rate * ?ts + unat rate * (TS - ?ts)"
    using TS(2) by (simp flip: distrib_left)
  then have "1000 * (sys_granted s + unat need + unat (tokens nx))
      \<le> 1000 * unat cap + unat rate * TS + slack rate * Suc (sys_grants s)"
    using pot step by simp
  then show ?thesis
    using inv TS(3) t(1) ok by (auto simp: request_inv_def nx)
qed

lemma request_inv_acquire:
  "acquire_step i s t \<Longrightarrow> request_inv cap rate s \<Longrightarrow> request_inv cap rate t"
proof (induction rule: acquire_step.induct)
  case (acq_cas_ok s need cfg cur nx)
  then show ?case using request_inv_cas [of cap rate s i need cfg nx] by simp
next
  case (acq_compute s need cfg cur nx)
  then have "pc_ok (sys_config s) (sys_time s) (AcqLoop need cfg cur)"
    by (metis request_inv_def)
  with acq_compute show ?case by (auto simp: request_inv_def)
next
  case (acq_load s need cfg)
  then have "pc_ok (sys_config s) (sys_time s) (AcqLoad need cfg)"
    by (metis request_inv_def)
  with acq_load show ?case by (auto simp: request_inv_def)
next
  case (acq_cas_fail s need cfg cur nx)
  then have "pc_ok (sys_config s) (sys_time s) (AcqCas need cfg cur nx)"
    by (metis request_inv_def)
  with acq_cas_fail show ?case by (auto simp: request_inv_def)
qed (auto simp: request_inv_def)

lemma request_run_inv:
  "request_run (tb_sys_init cap rate) s \<Longrightarrow> request_inv cap rate s"
  by (induction rule: request_run.induct)
    (auto intro: request_inv_init request_inv_tick request_inv_acquire)

text \<open>
  C14. Whatever the interleaving of any number of threads calling \<open>tryAcquire\<close> on a shared
  bucket, with compare-and-swap failures included, the tokens granted up to any moment are
  at most the capacity plus rate times elapsed time (plus, for rates that neither divide
  1000 nor are multiples of it, one millisecond of production per granted request). No
  token is granted twice.
\<close>

theorem threads_rate_limit:
  assumes "request_run (tb_sys_init cap rate) s"
  shows "1000 * sys_granted s
    \<le> 1000 * unat cap + unat rate * sys_time s + slack rate * sys_grants s"
proof -
  have inv: "request_inv cap rate s" using assms by (rule request_run_inv)
  then have "unat (timestamp_ms (sys_state s)) \<le> sys_time s"
    and pot: "1000 * (sys_granted s + unat (tokens (sys_state s)))
      \<le> 1000 * unat cap + unat rate * unat (timestamp_ms (sys_state s))
        + slack rate * sys_grants s"
    by (simp_all add: request_inv_def)
  from this(1) have "unat rate * unat (timestamp_ms (sys_state s)) \<le> unat rate * sys_time s"
    by (rule mult_le_mono2)
  then have "1000 * unat cap + unat rate * unat (timestamp_ms (sys_state s))
      + slack rate * sys_grants s
      \<le> 1000 * unat cap + unat rate * sys_time s + slack rate * sys_grants s"
    by (intro add_mono order_refl)
  with pot have "1000 * (sys_granted s + unat (tokens (sys_state s)))
      \<le> 1000 * unat cap + unat rate * sys_time s + slack rate * sys_grants s"
    by (rule order_trans)
  then show ?thesis by simp
qed

section \<open>Executable schedules\<close>

text \<open>
  A schedule names which thread moves next; \<open>exec_event\<close> performs the move, so concrete runs
  can be evaluated. A compare-and-swap succeeds here whenever it can.
\<close>

datatype tb_event = Tick | Request nat u32 | Reconfigure nat tb_config | Go nat

fun exec_event :: "tb_event \<Rightarrow> tb_sys \<Rightarrow> tb_sys" where
  "exec_event Tick s =
     (if Suc (sys_time s) < 2 ^ 32 then s\<lparr>sys_time := Suc (sys_time s)\<rparr> else s)"
| "exec_event (Request i need) s =
     (if sys_threads s i = Idle \<and> need \<noteq> 0 \<and> \<not> capacity (sys_config s) < need
      then set_pc i (AcqLoad need (sys_config s)) s else s)"
| "exec_event (Reconfigure i new) s =
     (if sys_threads s i = Idle \<and> sys_mutex s = None
      then set_pc i (UpdLoad new (sys_config s)) (s\<lparr>sys_mutex := Some i\<rparr>) else s)"
| "exec_event (Go i) s =
     (case sys_threads s i of
        Idle \<Rightarrow> s
      | AcqLoad need cfg \<Rightarrow> set_pc i (AcqLoop need cfg (sys_state s)) s
      | AcqLoop need cfg cur \<Rightarrow>
          (case acquire_once cfg need (of_nat (sys_time s)) cur of
             None \<Rightarrow> set_pc i Idle s
           | Some nx \<Rightarrow> set_pc i (AcqCas need cfg cur nx) s)
      | AcqCas need cfg cur nx \<Rightarrow>
          (if sys_state s = cur
           then set_pc i Idle (s\<lparr>sys_state := nx, sys_granted := sys_granted s + unat need,
                                 sys_grants := Suc (sys_grants s)\<rparr>)
           else set_pc i (AcqLoop need cfg (sys_state s)) s)
      | UpdLoad new old \<Rightarrow> set_pc i (UpdLoop new old (sys_state s)) s
      | UpdLoop new old cur \<Rightarrow>
          set_pc i (UpdCas new old cur
            (update_settle old (capacity new) (of_nat (sys_time s)) cur)) s
      | UpdCas new old cur nx \<Rightarrow>
          (if sys_state s = cur then set_pc i (UpdStore new) (s\<lparr>sys_state := nx\<rparr>)
           else set_pc i (UpdLoop new old (sys_state s)) s)
      | UpdStore new \<Rightarrow> set_pc i Idle (s\<lparr>sys_config := new, sys_mutex := None\<rparr>))"

lemma exec_event_step:
  "exec_event e s = s \<or> tick_step s (exec_event e s)
     \<or> (\<exists>i. acquire_step i s (exec_event e s)) \<or> (\<exists>i. update_step i s (exec_event e s))"
proof (cases e)
  case Tick
  then show ?thesis by (auto intro: tick)
next
  case (Request i need)
  then show ?thesis by (auto intro: acq_start)
next
  case (Reconfigure i new)
  then show ?thesis by (auto intro: upd_lock)
next
  case (Go i)
  then show ?thesis
    by (cases "sys_threads s i")
      (auto intro: acquire_step.intros update_step.intros split: option.split)
qed

lemma exec_full_run: "full_run s0 s \<Longrightarrow> full_run s0 (fold exec_event es s)"
proof (induction es arbitrary: s)
  case (Cons e es)
  have "full_run s0 (exec_event e s)"
    using exec_event_step [of e s] Cons.prems by (metis fl_tick fl_acquire fl_update)
  then show ?case by (simp add: Cons.IH)
qed simp

text \<open>Schedules without updates stay within the request runs.\<close>

fun is_updating :: "tb_pc \<Rightarrow> bool" where
  "is_updating (UpdLoad new old) = True"
| "is_updating (UpdLoop new old cur) = True"
| "is_updating (UpdCas new old cur nx) = True"
| "is_updating (UpdStore new) = True"
| "is_updating _ = False"

lemma exec_request_run:
  assumes "request_run (tb_sys_init cap rate) s" and "\<forall>i. \<not> is_updating (sys_threads s i)"
    and "\<forall>i new. Reconfigure i new \<notin> set es"
  shows "request_run (tb_sys_init cap rate) (fold exec_event es s)"
  using assms
proof (induction es arbitrary: s)
  case (Cons e es)
  have e: "e \<noteq> Reconfigure i new" for i new using Cons.prems(3) by auto
  have upd: "\<not> is_updating (sys_threads s i)" for i using Cons.prems(2) by simp
  have "(exec_event e s = s \<or> tick_step s (exec_event e s)
       \<or> (\<exists>i. acquire_step i s (exec_event e s)))
     \<and> (\<forall>i. \<not> is_updating (sys_threads (exec_event e s) i))"
  proof (cases e)
    case (Go i)
    then show ?thesis
      using upd upd [of i]
      by (cases "sys_threads s i") (auto intro: acquire_step.intros split: option.split)
  qed (use e upd in \<open>auto intro: tick acq_start\<close>)
  moreover from this have "request_run (tb_sys_init cap rate) (exec_event e s)"
    using Cons.prems(1) by (metis rq_tick rq_acquire)
  ultimately show ?case using Cons.prems(3) by (simp add: Cons.IH)
qed simp

lemma request_run_schedule:
  "\<forall>i new. Reconfigure i new \<notin> set es \<Longrightarrow>
     request_run (tb_sys_init cap rate) (fold exec_event es (tb_sys_init cap rate))"
  by (rule exec_request_run) (auto intro: rq_start simp: tb_sys_init_def)

lemmas sys_eval = tb_sys_init_def token_bucket_new_def set_pc_def acquire_once_def settle_def
  produced_def update_settle_def Let_def

text \<open>
  Two threads race for the last token of a bucket: both load the state and compute a
  successor, the first publishes it, the second fails, reloads and is rejected.
\<close>

definition race_schedule :: "tb_event list" where
  "race_schedule = [Request 0 1, Request 1 1, Go 0, Go 1, Go 0, Go 1, Go 0, Go 1, Go 1]"

lemma race_for_last_token:
  "sys_granted (fold exec_event race_schedule (tb_sys_init 1 1)) = 1"
  "sys_threads (fold exec_event race_schedule (tb_sys_init 1 1)) 1 = Idle"
  by (simp_all add: race_schedule_def sys_eval)

theorem threads_rate_limit_witness:
  "\<exists>s. request_run (tb_sys_init 1 1) s \<and> sys_granted s = 1 \<and>
     1000 * sys_granted s
       \<le> 1000 * unat (1 :: u32) + unat (1 :: u32) * sys_time s + slack 1 * sys_grants s"
proof -
  let ?s = "fold exec_event race_schedule (tb_sys_init 1 1)"
  have "request_run (tb_sys_init 1 1) ?s"
    by (rule request_run_schedule) (simp add: race_schedule_def)
  with race_for_last_token(1) threads_rate_limit [OF this] show ?thesis by blast
qed

section \<open>An update during a request\<close>

definition overtaken_schedule :: "tb_event list" where
  "overtaken_schedule =
     [Request 0 1, Go 0, Go 0, Reconfigure 1 \<lparr>capacity = 10, refill_rate = 5\<rparr>,
      Go 1, Go 1, Go 1, Go 1, Tick, Go 0, Go 0, Go 0]"

text \<open>
  A request that had taken its configuration snapshot when \<open>update\<close> lowered the
  capacity publishes a state computed with the old capacity, so the bucket can end up with
  more tokens than its configuration allows, with no call in progress: here a request for
  one token against the gateway's LLM limiter, overtaken by a reduction to capacity 10,
  leaves 11 tokens.
\<close>

theorem update_race_exceeds_capacity:
  "\<exists>s. full_run (tb_sys_init 8192 2048) s \<and> sys_threads s 0 = Idle \<and> sys_mutex s = None
     \<and> capacity (sys_config s) = 10 \<and> tokens (sys_state s) = 11"
proof -
  let ?s = "fold exec_event overtaken_schedule (tb_sys_init 8192 2048)"
  have "full_run (tb_sys_init 8192 2048) ?s"
    by (rule exec_full_run [OF fl_start])
  moreover have "sys_threads ?s 0 = Idle \<and> sys_mutex ?s = None
     \<and> capacity (sys_config ?s) = 10 \<and> tokens (sys_state ?s) = 11"
    by (simp add: overtaken_schedule_def sys_eval)
  ultimately show ?thesis by blast
qed

end
