(* ===== verification/Cow_Cell.thy ===== *)
theory Cow_Cell
  imports Prelude
begin

text \<open>
  The copy-on-write cell the sources build three times out of a \<open>std::shared_ptr\<close> and a
  mutex (the node list and the hash ring of \<^verbatim>\<open>Proxy/src/Common/Selector.cc\<close>, the key set
  of \<^verbatim>\<open>Proxy/src/L7/Middleware/ApiKeyAuth.cc\<close>). A reader copies the pointer under the
  lock and reads without it; a writer, under the lock, first replaces the object by a copy
  when the use count says that somebody else holds it, and then changes it in place.

  The heap is explicit: addresses, the current pointer, and the multiset of pointers the
  readers hold. An object whose last reference goes away is freed. The locale
  \<open>snapshot_store\<close> states what the users rely on; \<open>cow\<close> interprets it.
\<close>

section \<open>The cell\<close>

record 'a cow =
  heap :: "nat \<Rightarrow> 'a option"
  cur_ptr :: nat
  refs :: "nat list"
  fresh_ptr :: nat

definition cow_new :: "'a \<Rightarrow> 'a cow" where
  "cow_new v = \<lparr>heap = [0 \<mapsto> v], cur_ptr = 0, refs = [], fresh_ptr = 1\<rparr>"

definition cow_value :: "'a cow \<Rightarrow> 'a" where
  "cow_value c = the (heap c (cur_ptr c))"

definition use_count :: "'a cow \<Rightarrow> nat" where
  "use_count c = Suc (count_list (refs c) (cur_ptr c))"

text \<open>A reader copies the shared pointer, and drops it at the end of its scope.\<close>

definition cow_snapshot :: "'a cow \<Rightarrow> nat \<times> 'a cow" where
  "cow_snapshot c = (cur_ptr c, c\<lparr>refs := cur_ptr c # refs c\<rparr>)"

definition cow_release :: "nat \<Rightarrow> 'a cow \<Rightarrow> 'a cow" where
  "cow_release p c =
     (let rs = remove1 p (refs c) in
      if p = cur_ptr c \<or> p \<in> set rs then c\<lparr>refs := rs\<rparr>
      else c\<lparr>refs := rs, heap := (heap c)(p := None)\<rparr>)"

text \<open>\<open>reset(new T(v))\<close>: the old object survives only while a reader holds it.\<close>

definition cow_replace :: "'a \<Rightarrow> 'a cow \<Rightarrow> 'a cow" where
  "cow_replace v c =
     (let h = (if cur_ptr c \<in> set (refs c) then heap c else (heap c)(cur_ptr c := None)) in
      c\<lparr>heap := h(fresh_ptr c \<mapsto> v), cur_ptr := fresh_ptr c, fresh_ptr := Suc (fresh_ptr c)\<rparr>)"

text \<open>The writers: copy if shared, then modify in place.\<close>

definition cow_unshare :: "'a cow \<Rightarrow> 'a cow" where
  "cow_unshare c = (if 1 < use_count c then cow_replace (cow_value c) c else c)"

definition cow_modify :: "('a \<Rightarrow> 'a) \<Rightarrow> 'a cow \<Rightarrow> 'a cow" where
  "cow_modify f c =
     (let c1 = cow_unshare c in c1\<lparr>heap := (heap c1)(cur_ptr c1 \<mapsto> f (cow_value c1))\<rparr>)"

definition cow_deref :: "'a cow \<Rightarrow> nat \<Rightarrow> 'a option" where
  "cow_deref c p = heap c p"

definition cow_holds :: "'a cow \<Rightarrow> nat \<Rightarrow> bool" where
  "cow_holds c p \<longleftrightarrow> p \<in> set (refs c)"

section \<open>Invariant: no dangling pointer, no leak\<close>

definition cow_inv :: "'a cow \<Rightarrow> bool" where
  "cow_inv c \<longleftrightarrow> dom (heap c) = insert (cur_ptr c) (set (refs c))
     \<and> (\<forall>p \<in> dom (heap c). p < fresh_ptr c)"

lemmas cow_defs = cow_inv_def cow_value_def cow_deref_def cow_holds_def

lemma cow_inv_new [inv_intro]: "cow_inv (cow_new v)"
  by (auto simp: cow_inv_def cow_new_def split: if_splits)

lemma cow_value_new [content_simp]: "cow_value (cow_new v) = v"
  by (simp add: cow_value_def cow_new_def)

lemma cow_inv_snapshot [inv_intro]: "cow_inv c \<Longrightarrow> cow_inv (snd (cow_snapshot c))"
  by (auto simp: cow_inv_def cow_snapshot_def)

lemma cow_inv_release [inv_intro]:
  assumes "cow_inv c" and "p \<in> set (refs c)"
  shows "cow_inv (cow_release p c)"
proof -
  have e: "set (refs c) = insert p (set (remove1 p (refs c)))"
    by (simp add: set_remove1_insert assms(2))
  show ?thesis
  proof (cases "p = cur_ptr c \<or> p \<in> set (remove1 p (refs c))")
    case True
    then have "insert (cur_ptr c) (set (refs c)) = insert (cur_ptr c) (set (remove1 p (refs c)))"
      unfolding e by blast
    with True assms(1) show ?thesis by (simp add: cow_inv_def cow_release_def Let_def)
  next
    case False
    then have "insert (cur_ptr c) (set (refs c)) - {p}
        = insert (cur_ptr c) (set (remove1 p (refs c)))"
      unfolding e by blast
    with False assms(1) set_remove1_subset [of p "refs c"] show ?thesis
      by (simp add: cow_inv_def cow_release_def Let_def subset_iff)
  qed
qed

lemma cow_fresh: "cow_inv c \<Longrightarrow> heap c (fresh_ptr c) = None"
  by (metis cow_inv_def domI less_irrefl option.exhaust)

lemma cow_inv_replace [inv_intro]: "cow_inv c \<Longrightarrow> cow_inv (cow_replace v c)"
  by (auto simp: cow_inv_def cow_replace_def Let_def less_Suc_eq)

lemma cow_value_replace [content_simp]: "cow_value (cow_replace v c) = v"
  by (simp add: cow_value_def cow_replace_def Let_def)

lemma cow_inv_unshare: "cow_inv c \<Longrightarrow> cow_inv (cow_unshare c)"
  by (simp add: cow_unshare_def cow_inv_replace)

lemma cow_value_unshare: "cow_value (cow_unshare c) = cow_value c"
  by (simp add: cow_unshare_def cow_value_replace)

lemma cow_refs [frame_simp]:
  "refs (cow_replace v c) = refs c" "refs (cow_unshare c) = refs c" "refs (cow_modify f c) = refs c"
  by (simp_all add: cow_replace_def cow_unshare_def cow_modify_def Let_def)

text \<open>After \<open>cow_unshare\<close> nobody else points at the current object.\<close>

lemma unshare_exclusive:
  assumes "cow_inv c"
  shows "cur_ptr (cow_unshare c) \<notin> set (refs c)"
proof (cases "1 < use_count c")
  case True
  have "\<forall>p \<in> set (refs c). p < fresh_ptr c"
    using assms by (auto simp: cow_inv_def)
  with True show ?thesis
    by (auto simp: cow_unshare_def cow_replace_def Let_def)
next
  case False
  then have "count_list (refs c) (cur_ptr c) = 0" by (simp add: use_count_def)
  with False show ?thesis by (simp add: cow_unshare_def count_list_0_iff)
qed

lemma cow_inv_modify [inv_intro]: "cow_inv c \<Longrightarrow> cow_inv (cow_modify f c)"
  using cow_inv_unshare [of c] by (auto simp: cow_modify_def Let_def cow_inv_def)

lemma cow_value_modify [content_simp]: "cow_value (cow_modify f c) = f (cow_value c)"
  by (simp add: cow_modify_def Let_def cow_value_def [of "_\<lparr>heap := _\<rparr>"] cow_value_unshare)

text \<open>What a reader holds does not change under a writer.\<close>

lemma replace_preserves:
  "cow_inv c \<Longrightarrow> p \<in> set (refs c) \<Longrightarrow> heap (cow_replace v c) p = heap c p"
  using cow_fresh [of c] by (auto simp: cow_replace_def Let_def cow_inv_def)

lemma modify_preserves:
  assumes "cow_inv c" and "p \<in> set (refs c)"
  shows "heap (cow_modify f c) p = heap c p"
proof -
  have "heap (cow_unshare c) p = heap c p"
    using assms by (simp add: cow_unshare_def replace_preserves)
  moreover have "p \<noteq> cur_ptr (cow_unshare c)"
    using unshare_exclusive [OF assms(1)] assms(2) by auto
  ultimately show ?thesis by (simp add: cow_modify_def Let_def)
qed

section \<open>The interface\<close>

locale snapshot_store =
  fixes wf :: "'s \<Rightarrow> bool"
    and val :: "'s \<Rightarrow> 'a"
    and deref :: "'s \<Rightarrow> nat \<Rightarrow> 'a option"
    and holds :: "'s \<Rightarrow> nat \<Rightarrow> bool"
    and snapshot :: "'s \<Rightarrow> nat \<times> 's"
    and modify :: "('a \<Rightarrow> 'a) \<Rightarrow> 's \<Rightarrow> 's"
    and replace :: "'a \<Rightarrow> 's \<Rightarrow> 's"
  assumes wf_snapshot: "wf s \<Longrightarrow> wf (snd (snapshot s))"
    and snapshot_val: "wf s \<Longrightarrow> deref (snd (snapshot s)) (fst (snapshot s)) = Some (val s)"
    and snapshot_holds: "wf s \<Longrightarrow> holds (snd (snapshot s)) (fst (snapshot s))"
    and snapshot_keeps: "wf s \<Longrightarrow> holds s p \<Longrightarrow>
      holds (snd (snapshot s)) p \<and> deref (snd (snapshot s)) p = deref s p"
    and snapshot_same: "wf s \<Longrightarrow> val (snd (snapshot s)) = val s"
    and wf_modify: "wf s \<Longrightarrow> wf (modify f s)"
    and val_modify: "wf s \<Longrightarrow> val (modify f s) = f (val s)"
    and modify_keeps: "wf s \<Longrightarrow> holds s p \<Longrightarrow>
      holds (modify f s) p \<and> deref (modify f s) p = deref s p"
    and wf_replace: "wf s \<Longrightarrow> wf (replace v s)"
    and val_replace: "wf s \<Longrightarrow> val (replace v s) = v"
    and replace_keeps: "wf s \<Longrightarrow> holds s p \<Longrightarrow>
      holds (replace v s) p \<and> deref (replace v s) p = deref s p"
begin

text \<open>Any sequence of writes after a snapshot leaves the reader's object as it was.\<close>

lemma writes_keep:
  "wf s \<Longrightarrow> holds s p \<Longrightarrow>
     wf (fold modify fs s) \<and> holds (fold modify fs s) p \<and> deref (fold modify fs s) p = deref s p"
  by (induction fs arbitrary: s) (simp_all add: wf_modify modify_keeps)

lemma snapshot_isolation:
  assumes "wf s"
  shows "deref (fold modify fs (snd (snapshot s))) (fst (snapshot s)) = Some (val s)"
  using writes_keep [OF wf_snapshot [OF assms] snapshot_holds [OF assms]] snapshot_val [OF assms]
  by simp

lemma writes_compose: "wf s \<Longrightarrow> val (fold modify fs s) = fold (\<lambda>f. f) fs (val s)"
  by (induction fs arbitrary: s) (simp_all add: wf_modify val_modify)

end

interpretation cow: snapshot_store cow_inv cow_value cow_deref cow_holds
  cow_snapshot cow_modify cow_replace
proof unfold_locales
  fix s :: "'a cow"
  assume "cow_inv s"
  then have "cur_ptr s \<in> dom (heap s)" by (simp add: cow_inv_def)
  then show "cow_deref (snd (cow_snapshot s)) (fst (cow_snapshot s)) = Some (cow_value s)"
    by (auto simp: cow_deref_def cow_value_def cow_snapshot_def)
qed (simp_all add: inv_intro content_simp frame_simp cow_holds_def cow_deref_def
       modify_preserves replace_preserves,
     simp_all add: cow_snapshot_def cow_value_def)

end
