(* ===== verification/Api_Key_Auth.thy ===== *)
theory Api_Key_Auth
  imports Cow_Cell
begin

text \<open>
  The API key check of \<^verbatim>\<open>Proxy/src/L7/Middleware/ApiKeyAuth.cc\<close>: a sorted vector of keys
  behind a copy-on-write cell, and the extraction of the bearer token from an
  \<open>Authorization\<close> header.

  Strings compare bytewise, as \<open>std::string\<close> does: \<open>List_Lexorder\<close> over \<open>Char_ord\<close>.
  \<open>std::sort\<close>, \<open>std::unique\<close> and \<open>std::remove_if\<close> are \<open>sort\<close>, \<open>remdups_adj\<close> and
  \<open>filter\<close>; \<open>std::lower_bound\<close> is the halving loop of the standard library, proved equal
  to the count of smaller elements on sorted vectors.
\<close>

section \<open>Extracting the token\<close>

definition trimLeft :: "bytes \<Rightarrow> bytes" where
  "trimLeft s = dropWhile is_blank s"

fun trimRight_len :: "bytes \<Rightarrow> nat \<Rightarrow> nat" where
  "trimRight_len s 0 = 0"
| "trimRight_len s (Suc n) = (if is_blank (s ! n) then trimRight_len s n else Suc n)"

definition trimRight :: "bytes \<Rightarrow> bytes" where
  "trimRight s = take (trimRight_len s (length s)) s"

definition bearer_scheme :: bytes where
  "bearer_scheme = ''bearer''"

definition extractToken :: "bytes \<Rightarrow> bytes" where
  "extractToken header =
     (let h = trimLeft header in
      if length h < length bearer_scheme then []
      else if \<not> list_all2 (\<lambda>c d. to_lower c = d) (take (length bearer_scheme) h) bearer_scheme
      then []
      else trimRight (trimLeft (drop (length bearer_scheme) h)))"

section \<open>The key set\<close>

function lower_bound_loop :: "bytes list \<Rightarrow> bytes \<Rightarrow> nat \<Rightarrow> nat \<Rightarrow> nat" where
  "lower_bound_loop xs x lo len =
     (if len = 0 then lo
      else let half = len div 2; mid = lo + half in
        if xs ! mid < x then lower_bound_loop xs x (Suc mid) (len - half - 1)
        else lower_bound_loop xs x lo half)"
  by pat_completeness auto
termination
  by (relation "measure (\<lambda>(xs, x, lo, len). len)") auto

declare lower_bound_loop.simps [simp del]

definition lower_bound :: "bytes list \<Rightarrow> bytes \<Rightarrow> nat" where
  "lower_bound xs x = lower_bound_loop xs x 0 (length xs)"

definition binary_search :: "bytes list \<Rightarrow> bytes \<Rightarrow> bool" where
  "binary_search xs x =
     (let i = lower_bound xs x in i < length xs \<and> \<not> x < xs ! i)"

definition load_keys :: "bytes list \<Rightarrow> bytes list" where
  "load_keys ks = remdups_adj (sort ks)"

definition insert_key :: "bytes \<Rightarrow> bytes list \<Rightarrow> bytes list" where
  "insert_key k ks =
     (let i = lower_bound ks k in
      if i < length ks \<and> ks ! i = k then ks else take i ks @ k # drop i ks)"

definition remove_key :: "bytes \<Rightarrow> bytes list \<Rightarrow> bytes list" where
  "remove_key k ks = filter (\<lambda>x. x \<noteq> k) ks"

section \<open>The authenticator\<close>

type_synonym authenticator = "bytes list cow"

definition auth_new :: authenticator where
  "auth_new = cow_new []"

definition auth_load :: "bytes list \<Rightarrow> authenticator \<Rightarrow> authenticator" where
  "auth_load ks a = cow_replace (load_keys ks) a"

definition addKey :: "bytes \<Rightarrow> authenticator \<Rightarrow> authenticator" where
  "addKey k a = cow_modify (insert_key k) a"

definition removeKey :: "bytes \<Rightarrow> authenticator \<Rightarrow> authenticator" where
  "removeKey k a = cow_modify (remove_key k) a"

text \<open>The check of one header value against a snapshot of the keys, and the check of a
  header list.\<close>

definition authenticate :: "bytes \<Rightarrow> authenticator \<Rightarrow> bool" where
  "authenticate header a =
     (if extractToken header = [] then False
      else
        case cow_snapshot a of (p, a1) \<Rightarrow>
          (case cow_deref a1 p of None \<Rightarrow> False
           | Some keys \<Rightarrow> binary_search keys (extractToken header)))"

fun authenticate_headers :: "(bytes \<times> bytes) list \<Rightarrow> authenticator \<Rightarrow> bool" where
  "authenticate_headers [] a = False"
| "authenticate_headers ((name, value) # hs) a =
     (if equals_ignore_case name ''Authorization'' then authenticate value a
      else authenticate_headers hs a)"

definition unauthorizedResponse :: bytes where
  "unauthorizedResponse =
     ''HTTP/1.1 401 Unauthorized'' @ crlf @
     ''Content-Type: application/json'' @ crlf @
     ''Content-Length: 24'' @ crlf @
     ''Connection: close'' @ crlf @ crlf @
     [CHR 0x7B, CHR 0x22] @ ''error'' @ [CHR 0x22] @ '':'' @ [CHR 0x22] @
     ''Unauthorized'' @ [CHR 0x22, CHR 0x7D]"

section \<open>Binary search\<close>

definition splits_at :: "bytes list \<Rightarrow> bytes \<Rightarrow> nat \<Rightarrow> bool" where
  "splits_at xs x i \<longleftrightarrow> i \<le> length xs \<and> (\<forall>j < i. xs ! j < x)
     \<and> (\<forall>j. i \<le> j \<longrightarrow> j < length xs \<longrightarrow> x \<le> xs ! j)"

lemma lower_bound_loop_splits:
  assumes "sorted xs" and "lo + len \<le> length xs"
    and "\<And>i. i < lo \<Longrightarrow> xs ! i < x" and "\<And>i. lo + len \<le> i \<Longrightarrow> i < length xs \<Longrightarrow> x \<le> xs ! i"
  shows "splits_at xs x (lower_bound_loop xs x lo len)"
  using assms
proof (induction xs x lo len rule: lower_bound_loop.induct)
  case (1 xs x lo len)
  let ?mid = "lo + len div 2"
  show ?case
  proof (cases "len = 0")
    case True
    with "1.prems" show ?thesis by (simp add: lower_bound_loop.simps splits_at_def)
  next
    case False
    then have mid: "?mid < length xs" using "1.prems"(2) by linarith
    show ?thesis
    proof (cases "xs ! ?mid < x")
      case True
      then have eq: "lower_bound_loop xs x lo len
          = lower_bound_loop xs x (Suc ?mid) (len - len div 2 - 1)"
        using False by (simp add: lower_bound_loop.simps [of xs x lo len] Let_def)
      have end_: "Suc ?mid + (len - len div 2 - 1) = lo + len" using False by linarith
      have below: "xs ! i < x" if "i < Suc ?mid" for i
      proof -
        have "xs ! i \<le> xs ! ?mid"
          using that mid by (intro sorted_nth_mono "1.prems"(1)) simp_all
        then show ?thesis using True by (rule le_less_trans)
      qed
      show ?thesis
        unfolding eq using "1.prems"(2,4)
        by (intro "1.IH"(1) [OF False refl refl True] "1.prems"(1) below) (simp_all only: end_)
    next
      case ge: False
      then have eq: "lower_bound_loop xs x lo len = lower_bound_loop xs x lo (len div 2)"
        using False by (simp add: lower_bound_loop.simps [of xs x lo len] Let_def)
      have above: "x \<le> xs ! i" if "?mid \<le> i" "i < length xs" for i
      proof -
        have "xs ! ?mid \<le> xs ! i" by (rule sorted_nth_mono [OF "1.prems"(1) that])
        with ge show ?thesis by (meson not_less order_trans)
      qed
      show ?thesis
        unfolding eq using mid
        by (intro "1.IH"(2) [OF False refl refl ge] "1.prems"(1,3) above) simp_all
    qed
  qed
qed

lemma lower_bound_props:
  assumes "sorted xs"
  shows "lower_bound xs x \<le> length xs"
    and "i < lower_bound xs x \<Longrightarrow> xs ! i < x"
    and "lower_bound xs x \<le> i \<Longrightarrow> i < length xs \<Longrightarrow> x \<le> xs ! i"
proof -
  have "splits_at xs x (lower_bound xs x)"
    unfolding lower_bound_def by (rule lower_bound_loop_splits [OF assms]) simp_all
  then show "lower_bound xs x \<le> length xs"
    and "i < lower_bound xs x \<Longrightarrow> xs ! i < x"
    and "lower_bound xs x \<le> i \<Longrightarrow> i < length xs \<Longrightarrow> x \<le> xs ! i"
    by (simp_all add: splits_at_def)
qed

lemma lower_bound_member:
  assumes "sorted xs"
  shows "lower_bound xs x < length xs \<and> xs ! lower_bound xs x = x \<longleftrightarrow> x \<in> set xs"
proof
  assume "x \<in> set xs"
  then obtain i where i: "i < length xs" "xs ! i = x" by (auto simp: in_set_conv_nth)
  then have le: "lower_bound xs x \<le> i"
    using lower_bound_props(2) [OF assms, of i x] by (meson less_irrefl not_less)
  then have "xs ! lower_bound xs x \<le> x"
    using i assms sorted_nth_mono by blast
  moreover have "x \<le> xs ! lower_bound xs x"
    using le i(1) lower_bound_props(3) [OF assms, of x "lower_bound xs x"] by simp
  ultimately show "lower_bound xs x < length xs \<and> xs ! lower_bound xs x = x"
    using le i(1) by simp
next
  assume "lower_bound xs x < length xs \<and> xs ! lower_bound xs x = x"
  then show "x \<in> set xs" by (metis nth_mem)
qed

lemma binary_search_member: "sorted xs \<Longrightarrow> binary_search xs x \<longleftrightarrow> x \<in> set xs"
proof -
  assume xs: "sorted xs"
  have "x \<le> xs ! lower_bound xs x" if "lower_bound xs x < length xs"
    using that lower_bound_props(3) [OF xs, of x] by simp
  then show ?thesis
    using lower_bound_member [OF xs, of x] by (auto simp: binary_search_def Let_def)
qed

section \<open>The key set as a mathematical set\<close>

text \<open>The vector is strictly sorted, so equal sets of keys mean equal vectors.\<close>

definition keys_inv :: "bytes list \<Rightarrow> bool" where
  "keys_inv ks \<longleftrightarrow> sorted ks \<and> distinct ks"

lemma load_keys_props [inv_intro]: "keys_inv (load_keys ks)"
  by (simp add: load_keys_def keys_inv_def distinct_remdups_adj_sorted)

lemma set_load_keys [content_simp]: "set (load_keys ks) = set ks"
  by (simp add: load_keys_def)

lemma keys_inv_remove [inv_intro]: "keys_inv ks \<Longrightarrow> keys_inv (remove_key k ks)"
  by (auto simp: keys_inv_def remove_key_def intro: sorted_filter [of id, simplified])

lemma set_remove_key [content_simp]: "set (remove_key k ks) = set ks - {k}"
  by (auto simp: remove_key_def)

lemma set_insert_key [content_simp]:
  "keys_inv ks \<Longrightarrow> set (insert_key k ks) = insert k (set ks)"
proof -
  assume inv: "keys_inv ks"
  have "set (take i ks) \<union> set (drop i ks) = set ks" for i
    by (metis append_take_drop_id set_append)
  with inv show ?thesis
    using lower_bound_member [of ks k] by (auto simp: insert_key_def Let_def keys_inv_def)
qed

lemma keys_inv_insert [inv_intro]:
  assumes "keys_inv ks"
  shows "keys_inv (insert_key k ks)"
proof (cases "k \<in> set ks")
  case True
  then show ?thesis
    using assms lower_bound_member [of ks k] by (simp add: insert_key_def Let_def keys_inv_def)
next
  case False
  let ?i = "lower_bound ks k"
  have s: "sorted ks" and d: "distinct ks" using assms by (simp_all add: keys_inv_def)
  note lb = lower_bound_props [OF s, where x = k]
  have "\<not> (?i < length ks \<and> ks ! ?i = k)"
    using False lower_bound_member [OF s, of k] by blast
  then have eq: "insert_key k ks = take ?i ks @ k # drop ?i ks"
    by (simp only: insert_key_def Let_def if_False)
  have low: "a < k" if "a \<in> set (take ?i ks)" for a
    using that lb(2) by (auto simp: in_set_conv_nth)
  have high: "k \<le> a" if "a \<in> set (drop ?i ks)" for a
    using that lb(3) by (auto simp: in_set_conv_nth)
  have "sorted (take ?i ks @ k # drop ?i ks)"
    unfolding sorted_append sorted_wrt.simps
  proof (intro conjI ballI)
    fix a b
    assume a: "a \<in> set (take ?i ks)" and b: "b \<in> set (k # drop ?i ks)"
    have "k \<le> b" using b high by (cases "b = k") simp_all
    with low [OF a] show "a \<le> b" by (rule less_le_trans [THEN less_imp_le])
  qed (simp_all only: high sorted_wrt_take sorted_wrt_drop s)
  moreover have "distinct (take ?i ks @ k # drop ?i ks)"
    using d False by (auto simp: set_take_disj_set_drop_if_distinct dest: in_set_takeD in_set_dropD)
  ultimately show ?thesis by (simp add: eq keys_inv_def)
qed

datatype auth_op = Load "bytes list" | Add bytes | Remove bytes

fun auth_step :: "auth_op \<Rightarrow> authenticator \<Rightarrow> authenticator" where
  "auth_step (Load ks) a = auth_load ks a"
| "auth_step (Add k) a = addKey k a"
| "auth_step (Remove k) a = removeKey k a"

fun key_set_step :: "auth_op \<Rightarrow> bytes set \<Rightarrow> bytes set" where
  "key_set_step (Load ks) K = set ks"
| "key_set_step (Add k) K = insert k K"
| "key_set_step (Remove k) K = K - {k}"

definition auth_inv :: "authenticator \<Rightarrow> bool" where
  "auth_inv a \<longleftrightarrow> cow_inv a \<and> keys_inv (cow_value a)"

lemma auth_step_refines:
  "auth_inv a \<Longrightarrow> auth_inv (auth_step p a)
     \<and> set (cow_value (auth_step p a)) = key_set_step p (set (cow_value a))"
  by (cases p) (simp_all add: auth_inv_def auth_load_def addKey_def removeKey_def inv_intro content_simp)

lemma auth_run_refines:
  "auth_inv a \<Longrightarrow> auth_inv (fold auth_step ps a)
     \<and> set (cow_value (fold auth_step ps a)) = fold key_set_step ps (set (cow_value a))"
  by (induction ps arbitrary: a) (simp_all add: auth_step_refines)

lemma auth_inv_new: "auth_inv auth_new"
  by (simp add: auth_inv_def auth_new_def inv_intro content_simp keys_inv_def)

lemma authenticate_member:
  assumes "auth_inv a"
  shows "authenticate header a
     \<longleftrightarrow> extractToken header \<noteq> [] \<and> extractToken header \<in> set (cow_value a)"
proof -
  have inv: "cow_inv a" and keys: "sorted (cow_value a)"
    using assms by (simp_all add: auth_inv_def keys_inv_def)
  show ?thesis
    using cow.snapshot_val [OF inv]
    by (simp add: authenticate_def split_beta binary_search_member [OF keys])
qed

text \<open>
  C20. After any history of \<open>load\<close>, \<open>addKey\<close> and \<open>removeKey\<close> calls, a header value is
  accepted exactly when it carries a non-empty token that is in the set of keys this
  history leaves (the last load, plus the keys added since, minus the keys removed), and
  the vector searched is sorted and without duplicates.
\<close>

theorem authenticate_key_set:
  "authenticate header (fold auth_step ps auth_new)
     = (extractToken header \<noteq> [] \<and> extractToken header \<in> fold key_set_step ps {})
   \<and> keys_inv (cow_value (fold auth_step ps auth_new))"
proof -
  have start: "set (cow_value auth_new) = {}" by (simp add: auth_new_def content_simp)
  note run = auth_run_refines [OF auth_inv_new, of ps, unfolded start]
  then show ?thesis
    by (simp add: authenticate_member auth_inv_def)
qed

section \<open>The accepted header values\<close>

lemma trimRight_eq: "trimRight s = rev (dropWhile is_blank (rev s))"
proof -
  have "n \<le> length s \<Longrightarrow>
      take (trimRight_len s n) s = rev (dropWhile is_blank (rev (take n s)))" for n
    by (induction n) (auto simp: take_Suc_conv_app_nth)
  from this [of "length s"] show ?thesis by (simp add: trimRight_def)
qed

lemma scheme_match:
  "list_all2 (\<lambda>c d. to_lower c = d) s bearer_scheme \<longleftrightarrow> map to_lower s = bearer_scheme"
  by (simp add: list_all2_map1 [symmetric] list.rel_eq [symmetric] list_all2_eq flip: list.rel_map)

text \<open>The two directions: what the extraction takes apart, and what it finds.\<close>

lemma extractToken_parts:
  assumes "extractToken h \<noteq> []"
  shows "\<exists>pre scheme mid post. h = pre @ scheme @ mid @ extractToken h @ post
    \<and> (\<forall>c \<in> set pre \<union> set mid \<union> set post. is_blank c) \<and> map to_lower scheme = bearer_scheme
    \<and> \<not> is_blank (hd (extractToken h)) \<and> \<not> is_blank (last (extractToken h))"
proof -
  let ?n = "length bearer_scheme" and ?h1 = "trimLeft h"
  let ?scheme = "take ?n ?h1" and ?h2 = "trimLeft (drop ?n (trimLeft h))"
  from assms have scheme: "map to_lower ?scheme = bearer_scheme"
    and tok: "extractToken h = trimRight ?h2"
    by (auto simp: extractToken_def Let_def scheme_match split: if_splits)
  have h: "h = takeWhile is_blank h @ ?scheme @ takeWhile is_blank (drop ?n ?h1) @ ?h2"
    by (simp add: trimLeft_def)
  define post where "post = rev (takeWhile is_blank (rev ?h2))"
  have h2: "?h2 = extractToken h @ post"
    unfolding tok trimRight_eq post_def by (metis rev_append rev_rev_ident takeWhile_dropWhile_id)
  have first: "\<not> is_blank (hd (extractToken h))"
  proof -
    have "?h2 \<noteq> []" using h2 assms by auto
    then have "\<not> is_blank (hd ?h2)" unfolding trimLeft_def by (rule hd_dropWhile)
    with h2 assms show ?thesis by (metis hd_append2)
  qed
  have last: "\<not> is_blank (last (extractToken h))"
    using assms unfolding tok trimRight_eq by (metis hd_dropWhile last_rev rev_is_Nil_conv)
  have "\<forall>c \<in> set (takeWhile is_blank h) \<union> set (takeWhile is_blank (drop ?n ?h1)) \<union> set post.
      is_blank c"
    by (auto simp: post_def dest: set_takeWhileD)
  then show ?thesis
    using h h2 scheme first last by metis
qed

lemma extractToken_found:
  assumes h: "h = pre @ scheme @ mid @ t @ post"
    and blank: "\<forall>c \<in> set pre \<union> set mid \<union> set post. is_blank c"
    and scheme: "map to_lower scheme = bearer_scheme"
    and t: "t \<noteq> []" "\<not> is_blank (hd t)" "\<not> is_blank (last t)"
  shows "extractToken h = t"
proof -
  let ?n = "length bearer_scheme"
  have n: "length scheme = ?n" using scheme by (metis length_map)
  have "scheme \<noteq> []" using n by (auto simp: bearer_scheme_def)
  moreover have "to_lower (hd scheme) = CHR ''b''"
    using scheme \<open>scheme \<noteq> []\<close> by (cases scheme) (auto simp: bearer_scheme_def)
  then have "\<not> is_blank (hd scheme)"
    by (auto simp: is_blank_def to_lower_def less_eq_char_def)
  ultimately have h1: "trimLeft h = scheme @ mid @ t @ post"
    using blank by (simp add: h trimLeft_def dropWhile_all_append dropWhile_stop)
  have h2: "trimLeft (mid @ t @ post) = t @ post"
    using blank t by (simp add: trimLeft_def dropWhile_all_append dropWhile_stop)
  have "trimRight (t @ post) = t"
    using blank t by (simp add: trimRight_eq dropWhile_all_append dropWhile_stop hd_rev)
  then show ?thesis
    using n scheme by (simp add: extractToken_def Let_def scheme_match h1 h2)
qed

text \<open>
  C34. The grammar of accepted header values: optional blanks, the word ``bearer'' in any
  letter case, optional blanks, one of the keys, optional blanks; blanks are spaces and
  tabs, and the key does not begin or end with one. (The blanks between the scheme and the
  key are optional: ``Bearerkey'' is accepted too.)
\<close>

theorem authenticate_grammar:
  assumes "auth_inv a"
  shows "authenticate h a \<longleftrightarrow>
    (\<exists>pre scheme mid key post. h = pre @ scheme @ mid @ key @ post
       \<and> (\<forall>c \<in> set pre \<union> set mid \<union> set post. is_blank c)
       \<and> map to_lower scheme = ''bearer''
       \<and> key \<in> set (cow_value a) \<and> key \<noteq> [] \<and> \<not> is_blank (hd key) \<and> \<not> is_blank (last key))"
    (is "_ \<longleftrightarrow> ?R")
proof
  assume "authenticate h a"
  then have "extractToken h \<noteq> []" "extractToken h \<in> set (cow_value a)"
    by (simp_all add: authenticate_member [OF assms])
  moreover from extractToken_parts [OF this(1), unfolded bearer_scheme_def]
  obtain pre scheme mid post where "h = pre @ scheme @ mid @ extractToken h @ post
    \<and> (\<forall>c \<in> set pre \<union> set mid \<union> set post. is_blank c) \<and> map to_lower scheme = ''bearer''
    \<and> \<not> is_blank (hd (extractToken h)) \<and> \<not> is_blank (last (extractToken h))"
    by (elim exE)
  ultimately have "h = pre @ scheme @ mid @ extractToken h @ post
      \<and> (\<forall>c \<in> set pre \<union> set mid \<union> set post. is_blank c) \<and> map to_lower scheme = ''bearer''
      \<and> extractToken h \<in> set (cow_value a) \<and> extractToken h \<noteq> []
      \<and> \<not> is_blank (hd (extractToken h)) \<and> \<not> is_blank (last (extractToken h))"
    by (elim conjE, intro conjI)
  then show ?R by (intro exI)
next
  assume ?R
  then obtain pre scheme mid key post where
    parts: "h = pre @ scheme @ mid @ key @ post"
      "\<forall>c \<in> set pre \<union> set mid \<union> set post. is_blank c" "map to_lower scheme = ''bearer''"
      "key \<noteq> []" "\<not> is_blank (hd key)" "\<not> is_blank (last key)"
    and key: "key \<in> set (cow_value a)"
    by (elim exE conjE) (rule that)
  have "extractToken h = key"
    by (rule extractToken_found [OF parts(1,2), unfolded bearer_scheme_def, OF parts(3-6)])
  with parts(4) key show "authenticate h a" by (simp add: authenticate_member [OF assms])
qed

theorem authenticate_grammar_witness:
  "auth_inv (addKey ''k1'' auth_new) \<and> authenticate '' BEARERk1 '' (addKey ''k1'' auth_new)"
proof -
  have inv: "auth_inv (addKey ''k1'' auth_new)"
    and keys: "set (cow_value (addKey ''k1'' auth_new)) = {''k1''}"
    using auth_step_refines [OF auth_inv_new, of "Add ''k1''"]
    by (simp_all add: auth_new_def content_simp)
  have "'' BEARERk1 '' = '' '' @ ''BEARER'' @ [] @ ''k1'' @ '' ''" by simp
  then have "authenticate '' BEARERk1 '' (addKey ''k1'' auth_new)"
    unfolding authenticate_grammar [OF inv] keys
    by (intro exI conjI) (assumption, simp_all add: is_blank_def to_lower_def less_eq_char_def char_of_def bit_0 bit_Suc)
  with inv show ?thesis by simp
qed

text \<open>Only the first \<open>Authorization\<close> header, in any letter case, decides.\<close>

lemma authenticate_headers_first:
  "authenticate_headers hs a \<longleftrightarrow>
     (case find (\<lambda>(name, value). equals_ignore_case name ''Authorization'') hs of
        None \<Rightarrow> False | Some (name, value) \<Rightarrow> authenticate value a)"
  by (induction hs) auto

text \<open>
  A reader that has taken its snapshot searches the keys of that moment, however many
  keys other threads add or remove before it finishes.
\<close>

theorem authenticate_snapshot_isolation:
  assumes "cow_inv a"
  shows "cow_deref (fold cow_modify fs (snd (cow_snapshot a))) (fst (cow_snapshot a))
    = Some (cow_value (a :: authenticator))"
  using assms by (rule cow.snapshot_isolation)

theorem authenticate_snapshot_isolation_witness:
  "cow_deref (fold cow_modify [insert_key ''k2'', remove_key ''k1'']
       (snd (cow_snapshot (cow_new [''k1''])))) (fst (cow_snapshot (cow_new [''k1''])))
     = Some (cow_value (cow_new [''k1'']))"
  by (rule authenticate_snapshot_isolation) (rule cow_inv_new)

end
