(* ===== verification/Pico_Lexer.thy ===== *)
theory Pico_Lexer
  imports Prelude
begin

text \<open>
  The scanners of \<^verbatim>\<open>Http/picohttpparser.c\<close>: token and line scanning over a byte range, in
  the build without SSE4.2 (\<^verbatim>\<open>CMakeLists.txt\<close> passes no \<open>-msse4.2\<close>, so \<open>findchar_fast\<close>
  returns its argument and reports nothing found); the other build is \<open>Pico_Sse\<close>.

  A cursor \<open>buf\<close> between the start and \<open>buf_end\<close> is the list of the bytes from \<open>buf\<close> to
  \<open>buf_end\<close>: \<open>++buf\<close> is the tail, \<open>buf == buf_end\<close> the empty list, \<open>buf_end - buf\<close> the
  length. A scanner returns \<open>Done\<close> with the new cursor, or \<open>Partial\<close> and \<open>Bad\<close> for the
  codes \<open>-2\<close> (more input is needed) and \<open>-1\<close> (malformed).

  Every scanner is \<open>streaming\<close>: a verdict is never changed by bytes that arrive later.
\<close>

section \<open>Results\<close>

datatype 'a phr = Partial | Bad | Done (done_val: 'a)

definition phr_bind :: "'a phr \<Rightarrow> ('a \<Rightarrow> 'b phr) \<Rightarrow> 'b phr" where
  "phr_bind r f = (case r of Partial \<Rightarrow> Partial | Bad \<Rightarrow> Bad | Done x \<Rightarrow> f x)"

lemma phr_bind_simps [simp]:
  "phr_bind Partial f = Partial" "phr_bind Bad f = Bad" "phr_bind (Done x) f = f x"
  by (simp_all add: phr_bind_def)

lemma phr_bind_cong [fundef_cong]:
  "r = r' \<Longrightarrow> (\<And>x. r' = Done x \<Longrightarrow> f x = g x) \<Longrightarrow> phr_bind r f = phr_bind r' g"
  by (cases r') simp_all

lemma phr_bind_Done: "phr_bind r f = Done y \<longleftrightarrow> (\<exists>x. r = Done x \<and> f x = Done y)"
  by (cases r) simp_all

lemma phr_bind_Bad: "phr_bind r f = Bad \<longleftrightarrow> r = Bad \<or> (\<exists>x. r = Done x \<and> f x = Bad)"
  by (cases r) simp_all

lemma phr_bind_assoc: "phr_bind (phr_bind r f) g = phr_bind r (\<lambda>x. phr_bind (f x) g)"
  by (cases r) simp_all

section \<open>Character classes\<close>

abbreviation CR :: char where "CR \<equiv> CHR 0x0D"
abbreviation LF :: char where "LF \<equiv> CHR 0x0A"
abbreviation HTAB :: char where "HTAB \<equiv> CHR 0x09"
abbreviation DEL :: char where "DEL \<equiv> CHR 0x7F"
abbreviation SP :: char where "SP \<equiv> CHR 0x20"

text \<open>\<open>IS_PRINTABLE_ASCII\<close>: one unsigned comparison, by wrap-around.\<close>

definition IS_PRINTABLE_ASCII :: "char \<Rightarrow> bool" where
  "IS_PRINTABLE_ASCII c \<longleftrightarrow> (of_char c :: u32) - 0x20 < 0x5F"

definition is_ctl :: "char \<Rightarrow> bool" where
  "is_ctl c \<longleftrightarrow> c < CHR 0x20 \<or> c = DEL"

text \<open>The bytes that end a header value or a reason phrase: control bytes other than HT.\<close>

definition ends_line :: "char \<Rightarrow> bool" where
  "ends_line c \<longleftrightarrow> (c < CHR 0x20 \<and> c \<noteq> HTAB) \<or> c = DEL"

text \<open>The table of the RFC 7230 token characters, row by row as in the source; the entries
  from 128 on are all zero.\<close>

definition token_char_map :: "nat list" where
  "token_char_map =
    [0,0,0,0,0,0,0,0,0,0,0,0,0,0,0,0,0,0,0,0,0,0,0,0,0,0,0,0,0,0,0,0,
     0,1,0,1,1,1,1,1,0,0,1,1,0,1,1,0,1,1,1,1,1,1,1,1,1,1,0,0,0,0,0,0,
     0,1,1,1,1,1,1,1,1,1,1,1,1,1,1,1,1,1,1,1,1,1,1,1,1,1,1,0,0,0,1,1,
     1,1,1,1,1,1,1,1,1,1,1,1,1,1,1,1,1,1,1,1,1,1,1,1,1,1,1,0,1,0,1,0]
    @ replicate 128 0"

definition is_token_char :: "char \<Rightarrow> bool" where
  "is_token_char c \<longleftrightarrow> token_char_map ! of_char c \<noteq> 0"

section \<open>Scanning to the end of a line\<close>

text \<open>One \<open>DOIT\<close>: advance over a printable byte, jump to \<open>NonPrintable\<close> otherwise. \<open>doit k\<close>
  is \<open>k\<close> of them in a row; the flag says that the jump was taken.\<close>

fun doit :: "nat \<Rightarrow> bytes \<Rightarrow> bool \<times> bytes" where
  "doit 0 s = (False, s)"
| "doit (Suc k) (c # cs) = (if \<not> IS_PRINTABLE_ASCII c then (True, c # cs) else doit k cs)"
| "doit (Suc k) [] = (False, [])"

lemma doit_length: "length (snd (doit k s)) \<le> length s"
  by (induction k s rule: doit.induct) (auto simp: le_Suc_eq)

lemma doit_progress: "k \<noteq> 0 \<Longrightarrow> s \<noteq> [] \<Longrightarrow> \<not> fst (doit k s) \<Longrightarrow> length (snd (doit k s)) < length s"
  by (cases "(k, s)" rule: doit.cases) (auto simp: less_Suc_eq_le doit_length split: if_splits)

text \<open>The hot loop, eight bytes a time: \<open>(True, r)\<close> is the jump to \<open>FOUND_CTL\<close>, \<open>(False, r)\<close>
  leaves the loop with fewer than eight bytes left.\<close>

function eol_fast :: "bytes \<Rightarrow> bool \<times> bytes" where
  "eol_fast s =
     (if 8 \<le> length s then
        (case doit 8 s of
           (True, r) \<Rightarrow> if ends_line (hd r) then (True, r) else eol_fast (tl r)
         | (False, r) \<Rightarrow> eol_fast r)
      else (False, s))"
  by auto
termination
proof (relation "measure length")
  fix s r and nonprintable :: bool
  assume "8 \<le> length s" and "(nonprintable, r) = doit 8 s" and "nonprintable = False"
  then show "(r, s) \<in> measure length"
    using doit_progress [of 8 s] by (metis fst_conv in_measure list.size(3) not_numeral_le_zero snd_conv zero_neq_numeral)
next
  fix s r and nonprintable :: bool
  assume "8 \<le> length s" and "(nonprintable, r) = doit 8 s"
  then show "(tl r, s) \<in> measure length"
    using doit_length [of 8 s] by (auto dest: arg_cong [of _ _ snd])
qed simp

declare eol_fast.simps [simp del]

fun eol_slow :: "bytes \<Rightarrow> bytes option" where
  "eol_slow [] = None"
| "eol_slow (c # cs) =
     (if \<not> IS_PRINTABLE_ASCII c \<and> ends_line c then Some (c # cs) else eol_slow cs)"

definition find_eol :: "bytes \<Rightarrow> bytes option" where
  "find_eol s = (case eol_fast s of (True, r) \<Rightarrow> Some r | (False, r) \<Rightarrow> eol_slow r)"

text \<open>\<open>upto s r\<close> are the bytes between the cursors \<open>s\<close> and \<open>r\<close>.\<close>

definition upto :: "bytes \<Rightarrow> bytes \<Rightarrow> bytes" where
  "upto s r = take (length s - length r) s"

definition get_token_to_eol :: "bytes \<Rightarrow> (bytes \<times> bytes) phr" where
  "get_token_to_eol s =
     (case find_eol s of
        None \<Rightarrow> Partial
      | Some r \<Rightarrow>
          if hd r = CR then
            (case tl r of
               [] \<Rightarrow> Partial
             | d # ds \<Rightarrow> if d = LF then Done (upto s r, ds) else Bad)
          else if hd r = LF then Done (upto s r, tl r)
          else Bad)"

section \<open>Completeness of a message head\<close>

text \<open>\<open>is_complete\<close>: looks for an empty line from three bytes before the previously seen end.\<close>

fun is_complete_loop :: "nat \<Rightarrow> bytes \<Rightarrow> bytes phr" where
  "is_complete_loop n [] = Partial"
| "is_complete_loop n (c # cs) =
     (if c = CR then
        (case cs of
           [] \<Rightarrow> Partial
         | d # ds \<Rightarrow>
             if d \<noteq> LF then Bad
             else if Suc n = 2 then Done ds else is_complete_loop (Suc n) ds)
      else if c = LF then
        (if Suc n = 2 then Done cs else is_complete_loop (Suc n) cs)
      else is_complete_loop 0 cs)"

definition is_complete :: "bytes \<Rightarrow> nat \<Rightarrow> bytes phr" where
  "is_complete s last_len = is_complete_loop 0 (if last_len < 3 then s else drop (last_len - 3) s)"

section \<open>Tokens, spaces, digits\<close>

fun token_scan :: "char \<Rightarrow> bytes \<Rightarrow> bytes phr" where
  "token_scan stop [] = Partial"
| "token_scan stop (c # cs) =
     (if c = stop then Done (c # cs)
      else if \<not> is_token_char c then Bad
      else token_scan stop cs)"

definition parse_token :: "char \<Rightarrow> bytes \<Rightarrow> (bytes \<times> bytes) phr" where
  "parse_token stop s = phr_bind (token_scan stop s) (\<lambda>r. Done (upto s r, r))"

fun advance_scan :: "bytes \<Rightarrow> bytes phr" where
  "advance_scan [] = Partial"
| "advance_scan (c # cs) =
     (if c = SP then Done (c # cs)
      else if \<not> IS_PRINTABLE_ASCII c \<and> is_ctl c then Bad
      else advance_scan cs)"

definition advance_token :: "bytes \<Rightarrow> (bytes \<times> bytes) phr" where
  "advance_token s = phr_bind (advance_scan s) (\<lambda>r. Done (upto s r, r))"

text \<open>\<open>do { ++buf; CHECK_EOF(); } while (*buf == ' ')\<close>\<close>

fun skip_spaces :: "bytes \<Rightarrow> bytes phr" where
  "skip_spaces (c # d # ds) = (if d = SP then skip_spaces (d # ds) else Done (d # ds))"
| "skip_spaces _ = Partial"

text \<open>\<open>for (;; ++buf) { CHECK_EOF(); if (!blank) break; }\<close>\<close>

fun skip_blanks :: "bytes \<Rightarrow> bytes phr" where
  "skip_blanks [] = Partial"
| "skip_blanks (c # cs) = (if is_blank c then skip_blanks cs else Done (c # cs))"

fun expect_chars :: "bytes \<Rightarrow> bytes \<Rightarrow> bytes phr" where
  "expect_chars [] s = Done s"
| "expect_chars (p # ps) [] = Partial"
| "expect_chars (p # ps) (c # cs) = (if c \<noteq> p then Bad else expect_chars ps cs)"

fun parse_int :: "nat \<Rightarrow> bytes \<Rightarrow> (nat \<times> bytes) phr" where
  "parse_int mul [] = Partial"
| "parse_int mul (c # cs) =
     (if c < CHR ''0'' \<or> CHR ''9'' < c then Bad
      else Done (mul * (of_char c - of_char (CHR ''0'')), cs))"

definition parse_int_3 :: "bytes \<Rightarrow> (nat \<times> bytes) phr" where
  "parse_int_3 s =
     phr_bind (parse_int 100 s) (\<lambda>(a, s1).
     phr_bind (parse_int 10 s1) (\<lambda>(b, s2).
     phr_bind (parse_int 1 s2) (\<lambda>(c, s3). Done (a + b + c, s3))))"

definition parse_http_version :: "bytes \<Rightarrow> (nat \<times> bytes) phr" where
  "parse_http_version s =
     (if length s < 9 then Partial
      else phr_bind (expect_chars ''HTTP/1.'' s) (parse_int 1))"

text \<open>The optional CR before an LF, at the three places that accept nothing else.\<close>

fun expect_eol :: "bytes \<Rightarrow> bytes phr" where
  "expect_eol (c # cs) =
     (if c = CR then (case cs of [] \<Rightarrow> Partial | d # ds \<Rightarrow> if d \<noteq> LF then Bad else Done ds)
      else if c = LF then Done cs
      else Bad)"
| "expect_eol [] = Partial"

section \<open>What the scanners accept\<close>

definition is_eol :: "bytes \<Rightarrow> bool" where
  "is_eol e \<longleftrightarrow> e = [CR, LF] \<or> e = [LF]"

definition line_free :: "bytes \<Rightarrow> bool" where
  "line_free v \<longleftrightarrow> (\<forall>c \<in> set v. \<not> ends_line c)"

lemma line_free_simps [simp]:
  "line_free []" "line_free (c # v) \<longleftrightarrow> \<not> ends_line c \<and> line_free v"
  "line_free (v @ w) \<longleftrightarrow> line_free v \<and> line_free w"
  by (auto simp: line_free_def)

lemma ends_line_CRLF [simp]: "ends_line CR" "ends_line LF"
  by (simp_all add: ends_line_def less_char_def)

lemma ends_line_visible: "is_blank c \<Longrightarrow> \<not> ends_line c"
  by (auto simp: ends_line_def is_blank_def less_char_def)

text \<open>The single unsigned comparison is the range test.\<close>

lemma of_char_lt_256: "of_char c < (256 :: nat)"
  by (metis mod_less_divisor of_char_mod_256 zero_less_numeral)

lemma printable_range: "IS_PRINTABLE_ASCII c \<longleftrightarrow> 32 \<le> (of_char c :: nat) \<and> of_char c < (127 :: nat)"
proof -
  let ?n = "of_char c :: nat"
  have u: "unat (of_char c :: u32) = ?n"
    using unat_of_nat_small32 [of ?n] of_char_lt_256 [of c] by (simp add: of_nat_of_char)
  show ?thesis
  proof (cases "32 \<le> ?n")
    case True
    then have "(32 :: u32) \<le> of_char c" by (simp add: word_le_nat_alt u)
    then have "unat ((of_char c :: u32) - 32) = ?n - 32" by (simp add: unat_sub u)
    with True show ?thesis by (auto simp: IS_PRINTABLE_ASCII_def word_less_nat_alt)
  next
    case False
    then have "of_char c < (32 :: u32)" by (simp add: word_less_nat_alt u)
    then have "unat ((of_char c :: u32) - 32) = ?n + 2 ^ 32 - 32"
      using False by (simp add: unat_sub_if' u)
    with False show ?thesis by (simp add: IS_PRINTABLE_ASCII_def word_less_nat_alt)
  qed
qed

lemma ctl_range: "is_ctl c \<longleftrightarrow> (of_char c :: nat) < 32 \<or> of_char c = (127 :: nat)"
proof -
  have "c = DEL \<longleftrightarrow> of_char c = (of_char DEL :: nat)" by (simp only: of_char_eq_iff)
  then show ?thesis by (simp add: is_ctl_def less_char_def)
qed

lemma ctl_not_printable: "is_ctl c \<Longrightarrow> \<not> IS_PRINTABLE_ASCII c"
  by (auto simp: ctl_range printable_range)

lemma ends_line_ctl: "ends_line c \<Longrightarrow> is_ctl c"
  by (auto simp: ends_line_def is_ctl_def)

lemma ends_line_not_printable: "ends_line c \<Longrightarrow> \<not> IS_PRINTABLE_ASCII c"
  by (rule ctl_not_printable [OF ends_line_ctl])

lemma token_map_zero: "\<forall>n \<in> set ([0..<33] @ [127]). token_char_map ! n = 0"
  by code_simp

lemma token_char_visible: "is_token_char c \<Longrightarrow> \<not> is_ctl c \<and> c \<noteq> SP"
proof (rule ccontr)
  assume t: "is_token_char c" and "\<not> (\<not> is_ctl c \<and> c \<noteq> SP)"
  then have "(of_char c :: nat) \<in> set ([0..<33] @ [127])"
    by (auto simp: ctl_range)
  with token_map_zero have "token_char_map ! of_char c = 0" by blast
  with t show False by (simp add: is_token_char_def)
qed

text \<open>The unrolled loop is the plain one.\<close>

lemma doit_skips:
  "doit k s = (b, r) \<Longrightarrow> \<exists>p. s = p @ r \<and> line_free p \<and> (b \<longrightarrow> r \<noteq> [])"
proof (induction k s arbitrary: b r rule: doit.induct)
  case (2 k c cs)
  show ?case
  proof (cases "IS_PRINTABLE_ASCII c")
    case True
    with 2 obtain p where "cs = p @ r" "line_free p" "b \<longrightarrow> r \<noteq> []" by auto
    moreover from True have "\<not> ends_line c" using ends_line_not_printable by blast
    ultimately show ?thesis by (intro exI [of _ "c # p"]) simp
  next
    case False
    with 2(2) show ?thesis by (intro exI [of _ "[]"]) auto
  qed
qed auto

lemma eol_slow_skip: "line_free p \<Longrightarrow> eol_slow (p @ r) = eol_slow r"
  by (induction p) auto

lemma eol_slow_stop: "ends_line c \<Longrightarrow> eol_slow (c # cs) = Some (c # cs)"
  by (simp add: ends_line_not_printable)

lemma find_eol_eq_slow: "find_eol s = eol_slow s"
proof (induction s rule: eol_fast.induct)
  case (1 s)
  show ?case
  proof (cases "8 \<le> length s")
    case False
    then show ?thesis by (simp add: find_eol_def eol_fast.simps)
  next
    case True
    obtain b r where d: "doit 8 s = (b, r)" by (cases "doit 8 s")
    then obtain p where p: "s = p @ r" "line_free p" "b \<longrightarrow> r \<noteq> []"
      using doit_skips by blast
    show ?thesis
    proof (cases b)
      case False
      with True d have "find_eol s = find_eol r"
        by (simp add: find_eol_def [of s] find_eol_def [of r] eol_fast.simps [of s])
      with 1(2) [OF True d [symmetric]] False p show ?thesis by (simp add: eol_slow_skip)
    next
      case b: True
      with p obtain c cs where r: "r = c # cs" by (cases r) auto
      show ?thesis
      proof (cases "ends_line c")
        case e: True
        with True d b r have "eol_fast s = (True, r)" by (simp add: eol_fast.simps [of s])
        with e r p show ?thesis
          by (simp add: find_eol_def eol_slow_skip eol_slow_stop del: eol_slow.simps)
      next
        case e: False
        with True d b r have "find_eol s = find_eol cs"
          by (simp add: find_eol_def [of s] find_eol_def [of cs] eol_fast.simps [of s])
        with 1(1) [OF True d [symmetric]] e b r p show ?thesis by (simp add: eol_slow_skip)
      qed
    qed
  qed
qed

lemma eol_slow_Some:
  "eol_slow s = Some r \<longleftrightarrow> (\<exists>v c q. s = v @ r \<and> r = c # q \<and> line_free v \<and> ends_line c)"
proof
  show "eol_slow s = Some r \<Longrightarrow> \<exists>v c q. s = v @ r \<and> r = c # q \<and> line_free v \<and> ends_line c"
  proof (induction s)
    case (Cons a s)
    show ?case
    proof (cases "ends_line a")
      case True
      with Cons.prems show ?thesis
        by (intro exI [of _ "[]"]) (auto simp: ends_line_not_printable)
    next
      case False
      with Cons obtain v c q where "s = v @ r" "r = c # q" "line_free v" "ends_line c" by auto
      with False show ?thesis by (intro exI [of _ "a # v"]) simp
    qed
  qed simp
qed (auto simp: eol_slow_skip eol_slow_stop simp del: eol_slow.simps)

lemma upto_append [simp]: "upto (v @ r) r = v"
  by (simp add: upto_def)

lemma get_token_to_eol_Done:
  "get_token_to_eol s = Done (v, r) \<longleftrightarrow> (\<exists>e. s = v @ e @ r \<and> line_free v \<and> is_eol e)"
proof
  assume d: "get_token_to_eol s = Done (v, r)"
  then obtain w where w: "eol_slow s = Some w"
    by (auto simp: get_token_to_eol_def find_eol_eq_slow split: option.splits)
  then obtain u c q where u: "s = u @ w" "w = c # q" "line_free u" "ends_line c"
    by (auto simp: eol_slow_Some)
  with d w show "\<exists>e. s = v @ e @ r \<and> line_free v \<and> is_eol e"
    by (auto simp: get_token_to_eol_def find_eol_eq_slow is_eol_def
        split: if_splits list.splits)
next
  assume "\<exists>e. s = v @ e @ r \<and> line_free v \<and> is_eol e"
  then show "get_token_to_eol s = Done (v, r)"
    by (auto simp: get_token_to_eol_def find_eol_eq_slow is_eol_def eol_slow_skip eol_slow_stop
        simp del: eol_slow.simps)
qed

lemma get_token_to_eol_Bad:
  assumes "get_token_to_eol s = Bad"
  shows "get_token_to_eol (s @ t) = Bad"
proof -
  from assms obtain w where w: "eol_slow s = Some w"
    by (auto simp: get_token_to_eol_def find_eol_eq_slow split: option.splits)
  then obtain u c q where u: "s = u @ w" "w = c # q" "line_free u" "ends_line c"
    by (auto simp: eol_slow_Some)
  have "eol_slow (s @ t) = Some (w @ t)"
    using u by (simp add: eol_slow_skip eol_slow_stop del: eol_slow.simps)
  with assms w u show ?thesis
    by (auto simp: get_token_to_eol_def find_eol_eq_slow split: if_splits list.splits)
qed

lemma token_scan_Done:
  "token_scan stop s = Done r \<longleftrightarrow>
     (\<exists>v q. s = v @ r \<and> r = stop # q \<and> (\<forall>c \<in> set v. is_token_char c \<and> c \<noteq> stop))"
proof
  show "token_scan stop s = Done r \<Longrightarrow>
      \<exists>v q. s = v @ r \<and> r = stop # q \<and> (\<forall>c \<in> set v. is_token_char c \<and> c \<noteq> stop)"
  proof (induction s)
    case (Cons a s)
    show ?case
    proof (cases "a = stop")
      case True
      with Cons.prems show ?thesis by (intro exI [of _ "[]"] exI [of _ s]) auto
    next
      case False
      with Cons obtain v q where "s = v @ r" "r = stop # q"
        "\<forall>c \<in> set v. is_token_char c \<and> c \<noteq> stop"
        by (auto split: if_splits)
      with False Cons.prems show ?thesis
        by (intro exI [of _ "a # v"] exI [of _ q]) (auto split: if_splits)
    qed
  qed simp
next
  assume "\<exists>v q. s = v @ r \<and> r = stop # q \<and> (\<forall>c \<in> set v. is_token_char c \<and> c \<noteq> stop)"
  then obtain v q where "s = v @ stop # q" "r = stop # q"
    "\<forall>c \<in> set v. is_token_char c \<and> c \<noteq> stop" by blast
  moreover have "\<forall>c \<in> set v. is_token_char c \<and> c \<noteq> stop \<Longrightarrow>
      token_scan stop (v @ stop # q) = Done (stop # q)"
    by (induction v) auto
  ultimately show "token_scan stop s = Done r" by simp
qed

lemma parse_token_Done:
  "parse_token stop s = Done (v, r) \<longleftrightarrow>
     (\<exists>q. s = v @ r \<and> r = stop # q \<and> (\<forall>c \<in> set v. is_token_char c \<and> c \<noteq> stop))"
  by (auto simp: parse_token_def phr_bind_Done token_scan_Done)

lemma parse_token_Bad: "parse_token stop s = Bad \<Longrightarrow> parse_token stop (s @ t) = Bad"
proof -
  have "token_scan stop s = Bad \<Longrightarrow> token_scan stop (s @ t) = Bad"
    by (induction s) (auto split: if_splits)
  then show "parse_token stop s = Bad \<Longrightarrow> parse_token stop (s @ t) = Bad"
    by (auto simp: parse_token_def phr_bind_Bad)
qed

lemma advance_scan_Done:
  "advance_scan s = Done r \<longleftrightarrow>
     (\<exists>v q. s = v @ r \<and> r = SP # q \<and> (\<forall>c \<in> set v. \<not> is_ctl c \<and> c \<noteq> SP))"
proof
  show "advance_scan s = Done r \<Longrightarrow>
      \<exists>v q. s = v @ r \<and> r = SP # q \<and> (\<forall>c \<in> set v. \<not> is_ctl c \<and> c \<noteq> SP)"
  proof (induction s)
    case (Cons a s)
    show ?case
    proof (cases "a = SP")
      case True
      with Cons.prems show ?thesis by (intro exI [of _ "[]"] exI [of _ s]) auto
    next
      case False
      with Cons.prems have a: "\<not> is_ctl a" and "advance_scan s = Done r"
        using ctl_not_printable by (auto split: if_splits)
      with Cons.IH obtain v q where "s = v @ r" "r = SP # q"
        "\<forall>c \<in> set v. \<not> is_ctl c \<and> c \<noteq> SP" by auto
      with False a show ?thesis by (intro exI [of _ "a # v"] exI [of _ q]) simp
    qed
  qed simp
next
  assume "\<exists>v q. s = v @ r \<and> r = SP # q \<and> (\<forall>c \<in> set v. \<not> is_ctl c \<and> c \<noteq> SP)"
  then obtain v q where "s = v @ SP # q" "r = SP # q"
    "\<forall>c \<in> set v. \<not> is_ctl c \<and> c \<noteq> SP" by blast
  moreover have "\<forall>c \<in> set v. \<not> is_ctl c \<and> c \<noteq> SP \<Longrightarrow> advance_scan (v @ SP # q) = Done (SP # q)"
    by (induction v) auto
  ultimately show "advance_scan s = Done r" by simp
qed

lemma advance_token_Done:
  "advance_token s = Done (v, r) \<longleftrightarrow>
     (\<exists>q. s = v @ r \<and> r = SP # q \<and> (\<forall>c \<in> set v. \<not> is_ctl c \<and> c \<noteq> SP))"
proof -
  have "advance_token s = Done (v, r) \<longleftrightarrow> advance_scan s = Done r \<and> v = upto s r"
    by (auto simp: advance_token_def phr_bind_Done)
  then show ?thesis unfolding advance_scan_Done by (metis upto_append)
qed

lemma advance_token_Bad: "advance_token s = Bad \<Longrightarrow> advance_token (s @ t) = Bad"
proof -
  have "advance_scan s = Bad \<Longrightarrow> advance_scan (s @ t) = Bad"
    by (induction s) (auto split: if_splits)
  then show "advance_token s = Bad \<Longrightarrow> advance_token (s @ t) = Bad"
    by (auto simp: advance_token_def phr_bind_Bad)
qed

definition spaces :: "bytes \<Rightarrow> bool" where
  "spaces b \<longleftrightarrow> (\<forall>c \<in> set b. c = SP)"

definition blanks :: "bytes \<Rightarrow> bool" where
  "blanks b \<longleftrightarrow> (\<forall>c \<in> set b. is_blank c)"

definition starts_with :: "(char \<Rightarrow> bool) \<Rightarrow> bytes \<Rightarrow> bool" where
  "starts_with P s \<longleftrightarrow> s \<noteq> [] \<and> P (hd s)"

lemma starts_with_Cons [simp]: "starts_with P (c # s) \<longleftrightarrow> P c" "\<not> starts_with P []"
  by (simp_all add: starts_with_def)

lemma starts_with_append [simp]: "starts_with P s \<Longrightarrow> starts_with P (s @ t)"
  by (cases s) simp_all

lemma blanks_simps [simp]: "blanks []" "blanks (c # b) \<longleftrightarrow> is_blank c \<and> blanks b"
  by (simp_all add: blanks_def)

lemma spaces_simps [simp]: "spaces []" "spaces (c # b) \<longleftrightarrow> c = SP \<and> spaces b"
  by (simp_all add: spaces_def)

lemma skip_spaces_Done:
  "skip_spaces (c # s) = Done r \<longleftrightarrow> (\<exists>b. s = b @ r \<and> spaces b \<and> starts_with (\<lambda>c. c \<noteq> SP) r)"
proof
  show "skip_spaces (c # s) = Done r \<Longrightarrow>
      \<exists>b. s = b @ r \<and> spaces b \<and> starts_with (\<lambda>c. c \<noteq> SP) r"
  proof (induction s arbitrary: c)
    case (Cons d s)
    show ?case
    proof (cases "d = SP")
      case True
      with Cons obtain b where "s = b @ r" "spaces b" "starts_with (\<lambda>c. c \<noteq> SP) r" by force
      with True show ?thesis by (intro exI [of _ "d # b"]) simp
    next
      case False
      with Cons.prems have "r = d # s" by simp
      with False show ?thesis by (intro exI [of _ "[]"]) simp
    qed
  qed simp
next
  assume "\<exists>b. s = b @ r \<and> spaces b \<and> starts_with (\<lambda>c. c \<noteq> SP) r"
  then obtain b where b: "s = b @ r" "spaces b" "starts_with (\<lambda>c. c \<noteq> SP) r" by blast
  have "spaces b \<Longrightarrow> skip_spaces (c # b @ r) = Done r"
  proof (induction b arbitrary: c)
    case Nil
    with b(3) show ?case by (cases r) simp_all
  qed simp
  with b show "skip_spaces (c # s) = Done r" by simp
qed

lemma skip_spaces_not_Bad [simp]: "skip_spaces s \<noteq> Bad"
  by (induction s rule: skip_spaces.induct) simp_all

lemma skip_blanks_Done:
  "skip_blanks s = Done r \<longleftrightarrow> (\<exists>b. s = b @ r \<and> blanks b \<and> starts_with (\<lambda>c. \<not> is_blank c) r)"
proof
  show "skip_blanks s = Done r \<Longrightarrow>
      \<exists>b. s = b @ r \<and> blanks b \<and> starts_with (\<lambda>c. \<not> is_blank c) r"
  proof (induction s)
    case (Cons d s)
    show ?case
    proof (cases "is_blank d")
      case True
      with Cons obtain b where "s = b @ r" "blanks b" "starts_with (\<lambda>c. \<not> is_blank c) r" by force
      with True show ?thesis by (intro exI [of _ "d # b"]) simp
    next
      case False
      with Cons.prems have "d # s = r" by simp
      with False show ?thesis by (intro exI [of _ "[]"]) (auto simp: starts_with_def)
    qed
  qed simp
next
  assume "\<exists>b. s = b @ r \<and> blanks b \<and> starts_with (\<lambda>c. \<not> is_blank c) r"
  then obtain b where b: "s = b @ r" "blanks b" "starts_with (\<lambda>c. \<not> is_blank c) r" by blast
  have "blanks b \<Longrightarrow> skip_blanks (b @ r) = Done r"
  proof (induction b)
    case Nil
    with b(3) show ?case by (cases r) simp_all
  qed simp
  with b show "skip_blanks s = Done r" by simp
qed

lemma skip_blanks_not_Bad [simp]: "skip_blanks s \<noteq> Bad"
  by (induction s) simp_all

lemma expect_chars_Done: "expect_chars p s = Done r \<longleftrightarrow> s = p @ r"
  by (induction p s rule: expect_chars.induct) auto

lemma expect_chars_Bad: "expect_chars p s = Bad \<Longrightarrow> expect_chars p (s @ t) = Bad"
  by (induction p s rule: expect_chars.induct) (auto split: if_splits)

definition is_digit :: "char \<Rightarrow> bool" where
  "is_digit c \<longleftrightarrow> CHR ''0'' \<le> c \<and> c \<le> CHR ''9''"

definition digit_val :: "char \<Rightarrow> nat" where
  "digit_val c = of_char c - of_char (CHR ''0'')"

lemma parse_int_Done:
  "parse_int m s = Done (v, r) \<longleftrightarrow> (\<exists>d. s = d # r \<and> is_digit d \<and> v = m * digit_val d)"
  by (cases s) (auto simp: is_digit_def digit_val_def not_less)

lemma parse_int_Bad: "parse_int m s = Bad \<Longrightarrow> parse_int m (s @ t) = Bad"
  by (cases s) (auto split: if_splits)

lemma parse_int_3_Done:
  "parse_int_3 s = Done (v, r) \<longleftrightarrow>
     (\<exists>a b c. s = a # b # c # r \<and> is_digit a \<and> is_digit b \<and> is_digit c
        \<and> v = 100 * digit_val a + 10 * digit_val b + digit_val c)"
  by (auto simp: parse_int_3_def phr_bind_Done parse_int_Done)

lemma parse_int_3_Bad: "parse_int_3 s = Bad \<Longrightarrow> parse_int_3 (s @ t) = Bad"
  by (auto simp: parse_int_3_def phr_bind_Bad phr_bind_Done parse_int_Done parse_int_Bad)

lemma parse_http_version_Done:
  "parse_http_version s = Done (v, r) \<longleftrightarrow>
     (\<exists>d. s = ''HTTP/1.'' @ d # r \<and> is_digit d \<and> v = digit_val d \<and> r \<noteq> [])"
  by (auto simp: parse_http_version_def phr_bind_Done expect_chars_Done parse_int_Done
      Suc_le_eq)

lemma parse_http_version_Bad: "parse_http_version s = Bad \<Longrightarrow> parse_http_version (s @ t) = Bad"
  by (auto simp: parse_http_version_def phr_bind_Bad expect_chars_Done expect_chars_Bad
      parse_int_Bad split: if_splits)

lemma expect_eol_Done: "expect_eol s = Done r \<longleftrightarrow> (\<exists>e. s = e @ r \<and> is_eol e)"
  by (cases s) (auto simp: is_eol_def split: list.splits)

lemma expect_eol_Bad: "expect_eol s = Bad \<Longrightarrow> expect_eol (s @ t) = Bad"
  by (cases s) (auto split: list.splits if_splits)

end
