(* ===== verification/Pico_Chunked.thy ===== *)
theory Pico_Chunked
  imports Pico_Lexer
begin

text \<open>
  \<open>phr_decode_chunked\<close> of \<^verbatim>\<open>Http/picohttpparser.c\<close>, the incremental decoder of the chunked
  transfer coding. The code rewrites its buffer in place with a read cursor \<open>src\<close> and a
  write cursor \<open>dst \<le> src\<close>; here the bytes before \<open>dst\<close> are the list \<open>out\<close> and the bytes from
  \<open>src\<close> on the list \<open>s\<close> (the \<open>memmove\<close> calls keep both: they move bytes down, never over
  unread ones). Each \<open>for\<close> loop of the switch is a function of its own; \<open>chunk_run\<close> is the
  \<open>while (1)\<close> loop with its fall-throughs. \<open>size_t\<close> and \<open>uint64_t\<close> arithmetic is modulo \<open>2 ^ 64\<close>.
\<close>

section \<open>The decoder\<close>

datatype chunk_state =
    In_Chunk_Size | In_Chunk_Ext | In_Chunk_Header_Expect_LF | In_Chunk_Data
  | In_Chunk_Data_Expect_CR | In_Chunk_Data_Expect_LF
  | In_Trailers_Line_Head | In_Trailers_Line_Middle

record chunked_decoder =
  bytes_left_in_chunk :: nat
  consume_trailer :: bool
  hex_count :: nat
  chunk_st :: chunk_state
  total_read :: nat
  total_overhead :: nat

datatype chunk_exit = Incomplete | Malformed | Complete

definition decode_hex :: "char \<Rightarrow> nat option" where
  "decode_hex ch =
     (if CHR ''0'' \<le> ch \<and> ch \<le> CHR ''9'' then Some (of_char ch - of_char (CHR ''0''))
      else if CHR ''A'' \<le> ch \<and> ch \<le> CHR ''F'' then Some (of_char ch - of_char (CHR ''A'') + 10)
      else if CHR ''a'' \<le> ch \<and> ch \<le> CHR ''f'' then Some (of_char ch - of_char (CHR ''a'') + 10)
      else None)"

text \<open>What may follow the chunk size: blanks, a semicolon, or the end of the line.\<close>

definition ends_size :: "char \<Rightarrow> bool" where
  "ends_size c \<longleftrightarrow> c = SP \<or> c = HTAB \<or> c = CHR '';'' \<or> c = LF \<or> c = CR"

text \<open>The loops inside the cases: \<open>Inl\<close> leaves the function, \<open>Inr\<close> goes on behind the loop.\<close>

fun chunk_size ::
  "chunked_decoder \<Rightarrow> bytes \<Rightarrow> (chunk_exit \<times> chunked_decoder \<times> bytes) + (chunked_decoder \<times> bytes)" where
  "chunk_size d [] = Inl (Incomplete, d, [])"
| "chunk_size d (c # cs) =
     (case decode_hex c of
        None \<Rightarrow>
          if hex_count d = 0 then Inl (Malformed, d, c # cs)
          else if ends_size c then Inr (d, c # cs)
          else Inl (Malformed, d, c # cs)
      | Some v \<Rightarrow>
          if hex_count d = 16 then Inl (Malformed, d, c # cs)
          else chunk_size
            (d\<lparr>bytes_left_in_chunk := (bytes_left_in_chunk d * 16 + v) mod 2 ^ 64,
               hex_count := Suc (hex_count d)\<rparr>) cs)"

fun chunk_ext :: "bytes \<Rightarrow> (chunk_exit \<times> bytes) + bytes" where
  "chunk_ext [] = Inl (Incomplete, [])"
| "chunk_ext (c # cs) =
     (if c = CR then Inr cs else if c = LF then Inl (Malformed, c # cs) else chunk_ext cs)"

fun expect_byte :: "char \<Rightarrow> bytes \<Rightarrow> (chunk_exit \<times> bytes) + bytes" where
  "expect_byte x [] = Inl (Incomplete, [])"
| "expect_byte x (c # cs) = (if c \<noteq> x then Inl (Malformed, c # cs) else Inr cs)"

text \<open>At the head of a trailer line; \<open>Inr (True, r)\<close> is the empty line that completes the body.\<close>

fun trailer_head :: "bytes \<Rightarrow> (chunk_exit \<times> bytes) + (bool \<times> bytes)" where
  "trailer_head [] = Inl (Incomplete, [])"
| "trailer_head (c # cs) = (if c \<noteq> CR then Inr (c = LF, cs) else trailer_head cs)"

fun trailer_middle :: "bytes \<Rightarrow> (chunk_exit \<times> bytes) + bytes" where
  "trailer_middle [] = Inl (Incomplete, [])"
| "trailer_middle (c # cs) = (if c = LF then Inr cs else trailer_middle cs)"

lemma chunk_size_length: "chunk_size d s = Inr (d', r) \<Longrightarrow> length r \<le> length s"
  by (induction d s rule: chunk_size.induct) (auto split: option.splits if_splits)

lemma chunk_ext_length: "chunk_ext s = Inr r \<Longrightarrow> length r < length s"
  by (induction s rule: chunk_ext.induct) (auto split: if_splits)

lemma expect_byte_length: "expect_byte x s = Inr r \<Longrightarrow> length r < length s"
  by (cases s) (auto split: if_splits)

lemma trailer_head_length: "trailer_head s = Inr (b, r) \<Longrightarrow> length r < length s"
  by (induction s rule: trailer_head.induct) (auto split: if_splits)

lemma trailer_middle_length: "trailer_middle s = Inr r \<Longrightarrow> length r < length s"
  by (induction s rule: trailer_middle.induct) (auto split: if_splits)

definition set_st :: "chunk_state \<Rightarrow> chunked_decoder \<Rightarrow> chunked_decoder" where
  "set_st q d = d\<lparr>chunk_st := q\<rparr>"

function chunk_run ::
  "chunked_decoder \<Rightarrow> bytes \<Rightarrow> bytes \<Rightarrow> chunk_exit \<times> chunked_decoder \<times> bytes \<times> bytes" where
  "chunk_run d out s =
     (case chunk_st d of
        In_Chunk_Size \<Rightarrow>
          (case chunk_size d s of
             Inl (e, d', r) \<Rightarrow> (e, d', out, r)
           | Inr (d', r) \<Rightarrow> chunk_run (set_st In_Chunk_Ext (d'\<lparr>hex_count := 0\<rparr>)) out r)
      | In_Chunk_Ext \<Rightarrow>
          (case chunk_ext s of
             Inl (e, r) \<Rightarrow> (e, d, out, r)
           | Inr r \<Rightarrow> chunk_run (set_st In_Chunk_Header_Expect_LF d) out r)
      | In_Chunk_Header_Expect_LF \<Rightarrow>
          (case expect_byte LF s of
             Inl (e, r) \<Rightarrow> (e, d, out, r)
           | Inr r \<Rightarrow>
               if bytes_left_in_chunk d = 0 then
                 if consume_trailer d then chunk_run (set_st In_Trailers_Line_Head d) out r
                 else (Complete, d, out, r)
               else chunk_run (set_st In_Chunk_Data d) out r)
      | In_Chunk_Data \<Rightarrow>
          if length s < bytes_left_in_chunk d then
            (Incomplete, d\<lparr>bytes_left_in_chunk := bytes_left_in_chunk d - length s\<rparr>, out @ s, [])
          else
            chunk_run (set_st In_Chunk_Data_Expect_CR (d\<lparr>bytes_left_in_chunk := 0\<rparr>))
              (out @ take (bytes_left_in_chunk d) s) (drop (bytes_left_in_chunk d) s)
      | In_Chunk_Data_Expect_CR \<Rightarrow>
          (case expect_byte CR s of
             Inl (e, r) \<Rightarrow> (e, d, out, r)
           | Inr r \<Rightarrow> chunk_run (set_st In_Chunk_Data_Expect_LF d) out r)
      | In_Chunk_Data_Expect_LF \<Rightarrow>
          (case expect_byte LF s of
             Inl (e, r) \<Rightarrow> (e, d, out, r)
           | Inr r \<Rightarrow> chunk_run (set_st In_Chunk_Size d) out r)
      | In_Trailers_Line_Head \<Rightarrow>
          (case trailer_head s of
             Inl (e, r) \<Rightarrow> (e, d, out, r)
           | Inr (b, r) \<Rightarrow>
               if b then (Complete, d, out, r)
               else chunk_run (set_st In_Trailers_Line_Middle d) out r)
      | In_Trailers_Line_Middle \<Rightarrow>
          (case trailer_middle s of
             Inl (e, r) \<Rightarrow> (e, d, out, r)
           | Inr r \<Rightarrow> chunk_run (set_st In_Trailers_Line_Head d) out r))"
  by auto

definition chunk_rank :: "chunk_state \<Rightarrow> nat" where
  "chunk_rank q = (if q = In_Chunk_Size \<or> q = In_Chunk_Data then 1 else 0)"

termination chunk_run
  by (relation "measures [\<lambda>(d, out, s). length s, \<lambda>(d, out, s). chunk_rank (chunk_st d)]")
    (auto simp: set_st_def chunk_rank_def le_less
      dest!: chunk_size_length chunk_ext_length expect_byte_length trailer_head_length
        trailer_middle_length)

declare chunk_run.simps [simp del]

definition overhead_limit :: nat where
  "overhead_limit = 100 * 1024"

text \<open>More than 100 KiB of coding overhead and more than three quarters of all bytes read.\<close>

definition over_limit :: "nat \<Rightarrow> nat \<Rightarrow> bool" where
  "over_limit rd overhead \<longleftrightarrow>
     overhead_limit \<le> overhead \<and> (rd + (2 ^ 64 - overhead)) mod 2 ^ 64 < rd div 4"

text \<open>The whole call: the exit, the decoder, the new contents of the buffer and \<open>*_bufsz\<close>. The
  return value of a completed call is the number of bytes left undecoded.\<close>

definition phr_decode_chunked ::
  "chunked_decoder \<Rightarrow> bytes \<Rightarrow> (chunk_exit \<times> nat) \<times> chunked_decoder \<times> bytes \<times> nat" where
  "phr_decode_chunked d buf =
     (let bufsz = length buf;
          d0 = d\<lparr>total_read := (total_read d + bufsz) mod 2 ^ 64\<rparr>
      in case chunk_run d0 [] buf of (e, d1, out, r) \<Rightarrow>
        let dst = length out;
            d2 = (if e = Incomplete
                  then d1\<lparr>total_overhead := (total_overhead d1 + (bufsz - dst)) mod 2 ^ 64\<rparr>
                  else d1);
            e2 = (if e = Incomplete \<and> over_limit (total_read d2) (total_overhead d2)
                  then Malformed else e)
        in ((e2, if e2 = Complete then length r else 0), d2, out @ r, dst))"

definition phr_decode_chunked_is_in_data :: "chunked_decoder \<Rightarrow> bool" where
  "phr_decode_chunked_is_in_data d \<longleftrightarrow> chunk_st d = In_Chunk_Data"

section \<open>Resuming\<close>

text \<open>Every loop, and so the whole run, can be cut at any byte.\<close>

lemma chunk_size_append:
  "chunk_size d (a @ b) =
     (case chunk_size d a of
        Inl (e, d', r) \<Rightarrow> if e = Incomplete then chunk_size d' b else Inl (e, d', r @ b)
      | Inr (d', r) \<Rightarrow> Inr (d', r @ b))"
proof (induction d a rule: chunk_size.induct)
  case (2 d c cs)
  then show ?case by (cases "decode_hex c") simp_all
qed simp

lemma chunk_ext_append:
  "chunk_ext (a @ b) =
     (case chunk_ext a of
        Inl (e, r) \<Rightarrow> if e = Incomplete then chunk_ext b else Inl (e, r @ b)
      | Inr r \<Rightarrow> Inr (r @ b))"
  by (induction a rule: chunk_ext.induct) simp_all

lemma expect_byte_append:
  "expect_byte x (a @ b) =
     (case expect_byte x a of
        Inl (e, r) \<Rightarrow> if e = Incomplete then expect_byte x b else Inl (e, r @ b)
      | Inr r \<Rightarrow> Inr (r @ b))"
  by (cases a) simp_all

lemma trailer_head_append:
  "trailer_head (a @ b) =
     (case trailer_head a of
        Inl (e, r) \<Rightarrow> if e = Incomplete then trailer_head b else Inl (e, r @ b)
      | Inr (f, r) \<Rightarrow> Inr (f, r @ b))"
  by (induction a rule: trailer_head.induct) simp_all

lemma trailer_middle_append:
  "trailer_middle (a @ b) =
     (case trailer_middle a of
        Inl (e, r) \<Rightarrow> if e = Incomplete then trailer_middle b else Inl (e, r @ b)
      | Inr r \<Rightarrow> Inr (r @ b))"
  by (induction a rule: trailer_middle.induct) simp_all

lemma chunk_size_state: "chunk_size d s = Inl (e, d', r) \<Longrightarrow> chunk_st d' = chunk_st d"
  by (induction d s rule: chunk_size.induct) (auto split: option.splits if_splits)

lemmas loop_append = chunk_size_append chunk_ext_append expect_byte_append trailer_head_append
  trailer_middle_append

definition resume ::
  "bytes \<Rightarrow> chunk_exit \<times> chunked_decoder \<times> bytes \<times> bytes \<Rightarrow>
     chunk_exit \<times> chunked_decoder \<times> bytes \<times> bytes" where
  "resume b = (\<lambda>(e, d, out, r).
     if e = Incomplete then chunk_run d out b else (e, d, out, r @ b))"

lemma resume_simps [simp]:
  "resume b (Incomplete, d, out, r) = chunk_run d out b"
  "e \<noteq> Incomplete \<Longrightarrow> resume b (e, d, out, r) = (e, d, out, r @ b)"
  by (simp_all add: resume_def)

lemma chunk_run_append: "chunk_run d out (a @ b) = resume b (chunk_run d out a)"
proof (induction d out a rule: chunk_run.induct)
  case (1 d out s)
  show ?case
  proof (cases "chunk_st d")
    case In_Chunk_Size
    show ?thesis
    proof (cases "chunk_size d s")
      case (Inl x)
      then obtain e d' r where x: "x = (e, d', r)" by (cases x)
      with Inl In_Chunk_Size chunk_size_state [of d s e d' r] show ?thesis
        by (auto simp: chunk_run.simps [of d] chunk_run.simps [of d' out b] loop_append
            split: sum.splits)
    next
      case (Inr y)
      then obtain d' r where "y = (d', r)" by (cases y)
      with Inr In_Chunk_Size 1(1) show ?thesis
        by (simp add: chunk_run.simps [of d] loop_append)
    qed
  next
    case In_Chunk_Data
    show ?thesis
    proof (cases "length s < bytes_left_in_chunk d")
      case True
      with In_Chunk_Data show ?thesis
        by (cases "length s + length b < bytes_left_in_chunk d")
          (simp_all add: less_diff_conv add.commute [of "length b"] chunk_run.simps [of d] chunk_run.simps [of "_\<lparr>bytes_left_in_chunk := _\<rparr>"])
    next
      case False
      with In_Chunk_Data 1(5) show ?thesis by (simp add: chunk_run.simps [of d])
    qed
  qed (use 1(2-4) 1(6-) in \<open>auto simp: chunk_run.simps [of d] loop_append split: sum.splits\<close>)
qed

text \<open>The totals are bookkeeping of the caller: the run neither reads nor changes them.\<close>

definition set_totals :: "nat \<Rightarrow> nat \<Rightarrow> chunked_decoder \<Rightarrow> chunked_decoder" where
  "set_totals x y d = d\<lparr>total_read := x, total_overhead := y\<rparr>"

lemma set_totals_fields [simp]:
  "chunk_st (set_totals x y d) = chunk_st d"
  "bytes_left_in_chunk (set_totals x y d) = bytes_left_in_chunk d"
  "hex_count (set_totals x y d) = hex_count d"
  "consume_trailer (set_totals x y d) = consume_trailer d"
  "total_read (set_totals x y d) = x"
  "total_overhead (set_totals x y d) = y"
  by (simp_all add: set_totals_def)

lemma set_totals_update [simp]:
  "set_st q (set_totals x y d) = set_totals x y (set_st q d)"
  "(set_totals x y d)\<lparr>hex_count := h\<rparr> = set_totals x y (d\<lparr>hex_count := h\<rparr>)"
  "(set_totals x y d)\<lparr>bytes_left_in_chunk := n\<rparr> = set_totals x y (d\<lparr>bytes_left_in_chunk := n\<rparr>)"
  "(set_totals x y d)\<lparr>total_overhead := y'\<rparr> = set_totals x y' d"
  "(set_totals x y d)\<lparr>total_read := x'\<rparr> = set_totals x' y d"
  "set_totals x y (set_totals x' y' d) = set_totals x y d"
  by (simp_all add: set_totals_def set_st_def)

lemma chunk_size_totals:
  "chunk_size (set_totals x y d) s =
     (case chunk_size d s of
        Inl (e, d', r) \<Rightarrow> Inl (e, set_totals x y d', r)
      | Inr (d', r) \<Rightarrow> Inr (set_totals x y d', r))"
proof (induction d s rule: chunk_size.induct)
  case (2 d c cs)
  then show ?case by (cases "decode_hex c") simp_all
qed simp

lemma chunk_run_totals:
  "chunk_run (set_totals x y d) out s =
     (case chunk_run d out s of (e, d', out', r) \<Rightarrow> (e, set_totals x y d', out', r))"
proof (induction d out s rule: chunk_run.induct)
  case (1 d out s)
  then show ?case
    by (cases "chunk_st d")
      (auto simp: chunk_run.simps [of d] chunk_run.simps [of "set_totals x y d"] chunk_size_totals
        split: sum.splits)
qed

lemma chunk_run_keeps_totals:
  assumes "chunk_run d out s = (e, d', out', r)"
  shows "total_read d' = total_read d \<and> total_overhead d' = total_overhead d"
proof -
  have "set_totals (total_read d) (total_overhead d) d = d" by (simp add: set_totals_def)
  with chunk_run_totals [of "total_read d" "total_overhead d" d out s] assms
  have "d' = set_totals (total_read d) (total_overhead d) d'" by simp
  then show ?thesis by (metis set_totals_fields(5,6))
qed

lemma chunk_run_prefix:
  "chunk_run d (p @ out) s = (case chunk_run d out s of (e, d', o', r) \<Rightarrow> (e, d', p @ o', r))"
proof (induction d out s rule: chunk_run.induct)
  case (1 d out s)
  then show ?case
    by (cases "chunk_st d") (auto simp: chunk_run.simps [of d] split: sum.splits)
qed

lemma loop_lengths:
  "chunk_size d s = Inl (e, d', r) \<Longrightarrow> length r \<le> length s \<and> (e = Incomplete \<longrightarrow> r = [])"
  "chunk_ext s = Inl (e, r) \<Longrightarrow> length r \<le> length s \<and> (e = Incomplete \<longrightarrow> r = [])"
  "expect_byte x s = Inl (e, r) \<Longrightarrow> length r \<le> length s \<and> (e = Incomplete \<longrightarrow> r = [])"
  "trailer_head s = Inl (e, r) \<Longrightarrow> length r \<le> length s \<and> (e = Incomplete \<longrightarrow> r = [])"
  "trailer_middle s = Inl (e, r) \<Longrightarrow> length r \<le> length s \<and> (e = Incomplete \<longrightarrow> r = [])"
proof goal_cases
  case 1
  then show ?case
    by (induction d s rule: chunk_size.induct) (auto split: option.splits if_splits)
next
  case 2
  then show ?case by (induction s rule: chunk_ext.induct) (auto split: if_splits)
next
  case 3
  then show ?case by (cases s) (auto split: if_splits)
next
  case 4
  then show ?case by (induction s rule: trailer_head.induct) (auto split: if_splits)
next
  case 5
  then show ?case by (induction s rule: trailer_middle.induct) (auto split: if_splits)
qed

lemma chunk_run_lengths:
  "chunk_run d out s = (e, d', out', r) \<Longrightarrow>
     length out' + length r \<le> length out + length s \<and> (e = Incomplete \<longrightarrow> r = [])"
proof (induction d out s rule: chunk_run.induct)
  case (1 d out s)
  then show ?case
    unfolding chunk_run.simps [of d]
    by (cases "chunk_st d")
      (fastforce split: sum.splits if_splits dest: loop_lengths chunk_size_length chunk_ext_length
        expect_byte_length trailer_head_length trailer_middle_length)+
qed

text \<open>A call in terms of the run on the decoder it is given.\<close>

lemma decode_incomplete:
  assumes "chunk_run d [] buf = (Incomplete, c, out, r)"
    and "x = (total_read d + length buf) mod 2 ^ 64"
    and "y = (total_overhead d + (length buf - length out)) mod 2 ^ 64"
  shows "phr_decode_chunked d buf =
    ((if over_limit x y then Malformed else Incomplete, 0), set_totals x y c, out, length out)"
proof -
  have dd: "d\<lparr>total_read := z\<rparr> = set_totals z (total_overhead d) d" for z
    by (simp add: set_totals_def)
  have "r = []" using chunk_run_lengths [OF assms(1)] by simp
  then show ?thesis
    unfolding phr_decode_chunked_def Let_def dd chunk_run_totals assms by simp
qed

lemma decode_exit:
  assumes "chunk_run d [] buf = (e, c, out, r)" and "e \<noteq> Incomplete"
  shows "phr_decode_chunked d buf =
    ((e, if e = Complete then length r else 0),
     set_totals ((total_read d + length buf) mod 2 ^ 64) (total_overhead d) c, out @ r, length out)"
proof -
  have dd: "d\<lparr>total_read := z\<rparr> = set_totals z (total_overhead d) d" for z
    by (simp add: set_totals_def)
  show ?thesis
    unfolding phr_decode_chunked_def Let_def dd chunk_run_totals assms(1) using assms(2) by simp
qed

section \<open>The coding\<close>

text \<open>A chunked body: hexadecimal sizes of at most 16 digits, optional chunk extensions, chunks
  of the announced length, and a last chunk of size zero.\<close>

definition hex_value :: "bytes \<Rightarrow> nat" where
  "hex_value w = fold (\<lambda>c n. n * 16 + the (decode_hex c)) w 0"

definition hex_size :: "bytes \<Rightarrow> bool" where
  "hex_size w \<longleftrightarrow> w \<noteq> [] \<and> length w \<le> 16 \<and> (\<forall>c \<in> set w. decode_hex c \<noteq> None)"

definition chunk_extension :: "bytes \<Rightarrow> bool" where
  "chunk_extension x \<longleftrightarrow> CR \<notin> set x \<and> LF \<notin> set x
     \<and> (x \<noteq> [] \<longrightarrow> hd x = SP \<or> hd x = HTAB \<or> hd x = CHR '';'')"

inductive chunked_body :: "bytes \<Rightarrow> bytes \<Rightarrow> bool" where
  last_chunk: "hex_size w \<Longrightarrow> hex_value w = 0 \<Longrightarrow> chunk_extension x \<Longrightarrow>
    chunked_body (w @ x @ [CR, LF]) []"
| chunk: "hex_size w \<Longrightarrow> hex_value w = length c \<Longrightarrow> c \<noteq> [] \<Longrightarrow> chunk_extension x \<Longrightarrow>
    chunked_body e data \<Longrightarrow>
    chunked_body (w @ x @ [CR, LF] @ c @ [CR, LF] @ e) (c @ data)"

definition trailer_line :: "bytes \<Rightarrow> bool" where
  "trailer_line l \<longleftrightarrow> (\<exists>c cs. l = c # cs @ [LF] \<and> c \<noteq> CR \<and> c \<noteq> LF \<and> LF \<notin> set cs)"

inductive trailer_part :: "bytes \<Rightarrow> bool" where
  trailer_end: "trailer_part [CR, LF]"
| trailer_more: "trailer_line l \<Longrightarrow> trailer_part t \<Longrightarrow> trailer_part (l @ t)"

text \<open>A decoder between two chunks.\<close>

definition at_chunk :: "chunked_decoder \<Rightarrow> bool" where
  "at_chunk d \<longleftrightarrow> chunk_st d = In_Chunk_Size \<and> bytes_left_in_chunk d = 0 \<and> hex_count d = 0"

lemma decode_hex_less: "decode_hex c = Some v \<Longrightarrow> v < 16"
  by (auto simp: decode_hex_def less_eq_char_def split: if_splits)

lemma hex_fold_bound:
  "(\<forall>c \<in> set w. decode_hex c \<noteq> None) \<Longrightarrow> n < 16 ^ k \<Longrightarrow>
     fold (\<lambda>c n. n * 16 + the (decode_hex c)) w n < 16 ^ (k + length w)"
proof (induction w arbitrary: n k)
  case (Cons c w)
  then obtain v where v: "decode_hex c = Some v" by auto
  then have "n * 16 + v < 16 ^ Suc k" using decode_hex_less [OF v] Cons.prems(2) by simp
  from Cons.IH [OF _ this] Cons.prems(1) v show ?case by simp
qed simp

lemma chunk_size_digits:
  assumes "\<forall>c \<in> set w. decode_hex c \<noteq> None" and "bytes_left_in_chunk d < 16 ^ hex_count d"
    and "hex_count d + length w \<le> 16" and "w \<noteq> [] \<or> hex_count d \<noteq> 0"
    and "s = c # cs" and "decode_hex c = None" and "ends_size c"
  shows "chunk_size d (w @ s) =
    Inr (d\<lparr>bytes_left_in_chunk := fold (\<lambda>c n. n * 16 + the (decode_hex c)) w (bytes_left_in_chunk d),
           hex_count := hex_count d + length w\<rparr>, s)"
  using assms(1-4)
proof (induction w arbitrary: d)
  case Nil
  with assms(5-7) show ?case by simp
next
  case (Cons a w)
  then obtain v where v: "decode_hex a = Some v" by auto
  let ?n = "bytes_left_in_chunk d * 16 + v"
  have n: "?n < 16 ^ Suc (hex_count d)" using decode_hex_less [OF v] Cons.prems(2) by simp
  have "(16 :: nat) ^ Suc (hex_count d) \<le> 16 ^ 16"
    using Cons.prems(3) by (intro power_increasing) simp_all
  also have "(16 :: nat) ^ 16 = 2 ^ 64" by simp
  finally have m: "?n mod 2 ^ 64 = ?n" using n by simp
  let ?d = "d\<lparr>bytes_left_in_chunk := ?n, hex_count := Suc (hex_count d)\<rparr>"
  have "chunk_size d ((a # w) @ s) = chunk_size ?d (w @ s)"
    using v m Cons.prems(3) by simp
  also have "\<dots> = Inr (?d\<lparr>bytes_left_in_chunk := fold (\<lambda>c n. n * 16 + the (decode_hex c)) w ?n,
      hex_count := Suc (hex_count d) + length w\<rparr>, s)"
    using Cons.IH [of ?d] Cons.prems n by simp
  finally show ?case using v by simp
qed

lemma ends_size_not_hex: "ends_size c \<Longrightarrow> decode_hex c = None"
  by (auto simp: ends_size_def decode_hex_def less_eq_char_def)

lemma chunk_ext_skip: "CR \<notin> set x \<Longrightarrow> LF \<notin> set x \<Longrightarrow> chunk_ext (x @ CR # s) = Inr s"
  by (induction x) auto

lemma chunk_header:
  assumes "at_chunk d" and "hex_size w" and "chunk_extension x"
  shows "chunk_run d out (w @ x @ [CR, LF] @ r) =
    chunk_run (d\<lparr>bytes_left_in_chunk := hex_value w, chunk_st := In_Chunk_Header_Expect_LF\<rparr>) out (LF # r)"
proof -
  let ?s = "x @ CR # LF # r"
  obtain c cs where s: "?s = c # cs" by (cases ?s) auto
  have "ends_size c"
    using s assms(3) by (cases x) (auto simp: chunk_extension_def ends_size_def)
  then have "chunk_size d (w @ ?s) =
      Inr (d\<lparr>bytes_left_in_chunk := hex_value w, hex_count := length w\<rparr>, ?s)"
    using chunk_size_digits [of w d ?s c cs] s assms(1,2) ends_size_not_hex [of c]
    by (simp add: at_chunk_def hex_size_def hex_value_def)
  moreover have "chunk_ext ?s = Inr (LF # r)"
    using assms(3) by (simp add: chunk_ext_skip chunk_extension_def)
  ultimately have "chunk_run d out (w @ ?s) =
      chunk_run (d\<lparr>bytes_left_in_chunk := hex_value w, hex_count := 0,
        chunk_st := In_Chunk_Header_Expect_LF\<rparr>) out (LF # r)"
    using assms(1)
    by (simp add: chunk_run.simps [of d] chunk_run.simps [of "_\<lparr>chunk_st := In_Chunk_Ext\<rparr>"]
        at_chunk_def set_st_def)
  also have "d\<lparr>bytes_left_in_chunk := hex_value w, hex_count := 0, chunk_st := In_Chunk_Header_Expect_LF\<rparr>
      = d\<lparr>bytes_left_in_chunk := hex_value w, chunk_st := In_Chunk_Header_Expect_LF\<rparr>"
    using assms(1) by (cases d) (simp add: at_chunk_def)
  finally show ?thesis by simp
qed

lemma chunk_data:
  assumes "chunk_st d = In_Chunk_Data" and "bytes_left_in_chunk d = length c"
  shows "chunk_run d out (c @ [CR, LF] @ r)
    = chunk_run (d\<lparr>bytes_left_in_chunk := 0, chunk_st := In_Chunk_Size\<rparr>) (out @ c) r"
  using assms
  by (simp add: chunk_run.simps [of d] set_st_def
      chunk_run.simps [of "_\<lparr>chunk_st := In_Chunk_Data_Expect_CR\<rparr>"]
      chunk_run.simps [of "_\<lparr>chunk_st := In_Chunk_Data_Expect_LF\<rparr>"])

lemma trailer_middle_line: "LF \<notin> set cs \<Longrightarrow> trailer_middle (cs @ LF # r) = Inr r"
  by (induction cs) auto

lemma trailers_complete:
  "trailer_part t \<Longrightarrow> chunk_st d = In_Trailers_Line_Head \<Longrightarrow>
     \<exists>d'. chunk_run d out (t @ r) = (Complete, d', out, r)"
proof (induction arbitrary: d rule: trailer_part.induct)
  case trailer_end
  then show ?case by (simp add: chunk_run.simps [of d])
next
  case (trailer_more l t)
  from trailer_more(1) obtain c cs where l: "l = c # cs @ [LF]" "c \<noteq> CR" "c \<noteq> LF" "LF \<notin> set cs"
    unfolding trailer_line_def by blast
  let ?d = "d\<lparr>chunk_st := In_Trailers_Line_Middle\<rparr>"
  have "chunk_run d out ((l @ t) @ r) = chunk_run ?d out (cs @ LF # t @ r)"
    using l trailer_more.prems by (simp add: chunk_run.simps [of d] set_st_def)
  also have "\<dots> = chunk_run (d\<lparr>chunk_st := In_Trailers_Line_Head\<rparr>) out (t @ r)"
    by (simp add: chunk_run.simps [of ?d] trailer_middle_line [OF l(4)] set_st_def)
  finally show ?case using trailer_more.IH by simp
qed

lemma chunk_run_body:
  "chunked_body e data \<Longrightarrow> at_chunk d \<Longrightarrow>
     (if consume_trailer d then trailer_part t else t = []) \<Longrightarrow>
     \<exists>d'. chunk_run d out (e @ t @ r) = (Complete, d', out @ data, r)"
proof (induction arbitrary: d out rule: chunked_body.induct)
  case (last_chunk w x)
  let ?h = "d\<lparr>bytes_left_in_chunk := 0, chunk_st := In_Chunk_Header_Expect_LF\<rparr>"
  have "chunk_run d out ((w @ x @ [CR, LF]) @ t @ r) = chunk_run ?h out (LF # t @ r)"
    using chunk_header [OF last_chunk(4,1,3), of out "t @ r"] last_chunk(2) by simp
  then show ?case
    using last_chunk(5) trailers_complete [of t "set_st In_Trailers_Line_Head ?h" out r]
    by (cases "consume_trailer d") (simp_all add: chunk_run.simps [of ?h] set_st_def)
next
  case (chunk w c x e data)
  let ?h = "d\<lparr>bytes_left_in_chunk := length c, chunk_st := In_Chunk_Header_Expect_LF\<rparr>"
  let ?g = "d\<lparr>bytes_left_in_chunk := length c, chunk_st := In_Chunk_Data\<rparr>"
  have "chunk_run d out ((w @ x @ [CR, LF] @ c @ [CR, LF] @ e) @ t @ r)
      = chunk_run ?h out (LF # c @ [CR, LF] @ e @ t @ r)"
    using chunk_header [OF chunk(7,1,4), of out "c @ [CR, LF] @ e @ t @ r"] chunk(2) by simp
  also have "\<dots> = chunk_run ?g out (c @ [CR, LF] @ e @ t @ r)"
    using chunk(3) by (simp add: chunk_run.simps [of ?h] set_st_def)
  also have "\<dots> = chunk_run (?g\<lparr>bytes_left_in_chunk := 0, chunk_st := In_Chunk_Size\<rparr>) (out @ c) (e @ t @ r)"
    by (rule chunk_data) simp_all
  also have "?g\<lparr>bytes_left_in_chunk := 0, chunk_st := In_Chunk_Size\<rparr> = d"
    using chunk(7) by (simp add: at_chunk_def)
  finally show ?case using chunk.IH [OF chunk(7,8), of "out @ c"] by simp
qed

section \<open>Properties\<close>

text \<open>
  C35. Decoding undoes the chunked coding: from a decoder between two chunks, one call on any
  chunked body (whatever the case of the size digits, leading zeros and chunk extensions),
  followed by the trailer part when the decoder is to consume it and by any further bytes,
  completes, leaves the concatenated chunks at the front of the buffer and the further bytes,
  counted by the return value, behind them.
\<close>

theorem decode_chunked_body:
  assumes "chunked_body e data" and "at_chunk d"
    and "if consume_trailer d then trailer_part t else t = []"
  shows "\<exists>d'. phr_decode_chunked d (e @ t @ r) = ((Complete, length r), d', data @ r, length data)"
proof -
  let ?d = "d\<lparr>total_read := (total_read d + length (e @ t @ r)) mod 2 ^ 64\<rparr>"
  have "at_chunk ?d" and "if consume_trailer ?d then trailer_part t else t = []"
    using assms(2,3) by (simp_all add: at_chunk_def)
  from chunk_run_body [OF assms(1) this, of "[]" r] obtain d' where
    "chunk_run ?d [] (e @ t @ r) = (Complete, d', data, r)" by auto
  then show ?thesis by (simp add: phr_decode_chunked_def Let_def)
qed

text \<open>A decoder filled with zeros, as the callers are to provide it.\<close>

definition zero_decoder :: chunked_decoder where
  "zero_decoder = \<lparr>bytes_left_in_chunk = 0, consume_trailer = False, hex_count = 0,
     chunk_st = In_Chunk_Size, total_read = 0, total_overhead = 0\<rparr>"

theorem decode_chunked_body_witness:
  "\<exists>d'. phr_decode_chunked zero_decoder
      (''3'' @ [CR, LF] @ ''abc'' @ [CR, LF] @ ''0'' @ [CR, LF] @ ''x'')
    = ((Complete, 1), d', ''abcx'', 3)"
proof -
  have d: "decode_hex CHR ''3'' = Some 3" "decode_hex CHR ''0'' = Some 0" by code_simp+
  have z: "chunked_body (''0'' @ [] @ [CR, LF]) []"
    by (rule last_chunk) (simp_all add: hex_size_def hex_value_def chunk_extension_def d)
  have "chunked_body (''3'' @ [] @ [CR, LF] @ ''abc'' @ [CR, LF] @ ''0'' @ [] @ [CR, LF]) (''abc'' @ [])"
    by (rule chunk [OF _ _ _ _ z]) (simp_all add: hex_size_def hex_value_def chunk_extension_def d)
  moreover have "at_chunk zero_decoder" by (simp add: at_chunk_def zero_decoder_def)
  moreover have "if consume_trailer zero_decoder then trailer_part [] else [] = []"
    by (simp add: zero_decoder_def)
  ultimately show ?thesis using decode_chunked_body [of _ _ zero_decoder "[]" "''x''"] by fastforce
qed

text \<open>
  The decoder may be fed piece by piece: when a call on \<open>a\<close> reports ``incomplete'' and a
  second call is made on \<open>b\<close>, both together return what one call on \<open>a @ b\<close> returns, with the
  same decoded bytes in the same order (the limit on the coding overhead included), and when
  the body is still incomplete the decoder is in the same state.
\<close>

theorem decode_chunked_fragments:
  assumes "phr_decode_chunked d a = ((Incomplete, k), d1, out1, n1)"
    and "phr_decode_chunked d1 b = (ret, d2, buf2, n2)"
  shows "\<exists>d'. phr_decode_chunked d (a @ b) = (ret, d', out1 @ buf2, n1 + n2)
    \<and> (fst ret = Incomplete \<longrightarrow> d' = d2)"
proof -
  let ?M = "2 ^ 64 :: nat"
  define x1 y1 where "x1 = (total_read d + length a) mod ?M"
    and "y1 = (total_overhead d + (length a - n1)) mod ?M"
  obtain e1 c1 o1 r1 where r1: "chunk_run d [] a = (e1, c1, o1, r1)"
    by (cases "chunk_run d [] a") auto
  have e1: "e1 = Incomplete"
    using assms(1) decode_exit [OF r1] by fastforce
  have r1: "chunk_run d [] a = (Incomplete, c1, o1, [])" and l1: "length o1 \<le> length a"
    using r1 e1 chunk_run_lengths [OF r1] by simp_all
  have d1: "d1 = set_totals x1 y1 c1" "out1 = o1" "n1 = length o1"
    using assms(1) decode_incomplete [OF r1 refl refl] by (auto simp: x1_def y1_def)
  obtain e2 c2 o2 r2 where r2: "chunk_run c1 [] b = (e2, c2, o2, r2)"
    by (cases "chunk_run c1 [] b") auto
  have run_b: "chunk_run d1 [] b = (e2, set_totals x1 y1 c2, o2, r2)"
    using r2 by (simp add: d1 chunk_run_totals)
  have run_ab: "chunk_run d [] (a @ b) = (e2, c2, o1 @ o2, r2)"
    using chunk_run_prefix [of c1 o1 "[]" b] chunk_run_append [of d "[]" a b] r1 r2 by simp
  have x: "(total_read d1 + length b) mod ?M = (total_read d + length (a @ b)) mod ?M"
    by (simp add: d1 x1_def mod_add_left_eq add.assoc)
  have "length o2 \<le> length b" using chunk_run_lengths [OF r2] by simp
  with l1 have "length (a @ b) - length (o1 @ o2) = (length a - length o1) + (length b - length o2)"
    by simp
  then have y: "(total_overhead d1 + (length b - length o2)) mod ?M
      = (total_overhead d + (length (a @ b) - length (o1 @ o2))) mod ?M"
    by (simp only: d1 set_totals_fields y1_def mod_add_left_eq add.assoc)
  show ?thesis
  proof (cases "e2 = Incomplete")
    case True
    with decode_incomplete [of d1 b _ o2 r2, OF _ refl refl] run_b
      decode_incomplete [of d "a @ b" _ "o1 @ o2" r2, OF _ x y] run_ab assms(2)
    show ?thesis unfolding d1(2,3) by (auto simp: d1(1))
  next
    case False
    with decode_exit [OF run_b] decode_exit [OF run_ab] assms(2) show ?thesis
      unfolding d1(2,3) by auto
  qed
qed

lemmas chunk_eval = phr_decode_chunked_def Let_def zero_decoder_def
  chunk_run.simps [of "_\<lparr>chunk_st := _\<rparr>"]
  chunk_run.simps [of "\<lparr>bytes_left_in_chunk = _, consume_trailer = _, hex_count = _,
    chunk_st = _, total_read = _, total_overhead = _\<rparr>"]
  decode_hex_def ends_size_def set_st_def less_eq_char_def over_limit_def overhead_limit_def

theorem decode_chunked_fragments_witness:
  "\<exists>d'. phr_decode_chunked zero_decoder (''3'' @ [CR, LF] @ ''ab'' @ ''c'' @ [CR, LF] @ ''0'' @ [CR, LF])
    = ((Complete, 0), d', ''ab'' @ ''c'', 3)"
proof -
  let ?d = "\<lparr>bytes_left_in_chunk = 1, consume_trailer = False, hex_count = 0,
     chunk_st = In_Chunk_Data, total_read = 5, total_overhead = 3\<rparr>"
  let ?e = "\<lparr>bytes_left_in_chunk = 0, consume_trailer = False, hex_count = 0,
     chunk_st = In_Chunk_Header_Expect_LF, total_read = 11, total_overhead = 3\<rparr>"
  have a: "phr_decode_chunked zero_decoder (''3'' @ [CR, LF] @ ''ab'') = ((Incomplete, 0), ?d, ''ab'', 2)"
    by (simp add: chunk_eval)
  have b: "phr_decode_chunked ?d (''c'' @ [CR, LF] @ ''0'' @ [CR, LF]) = ((Complete, 0), ?e, ''c'', 1)"
    by (simp add: chunk_eval)
  have "(2 :: nat) + 1 = 3" by simp
  with decode_chunked_fragments [OF a b] show ?thesis
    unfolding append.assoc by metis
qed

end
