(* ===== verification/Pico_Http.thy ===== *)
theory Pico_Http
  imports Pico_Lexer
begin

text \<open>
  Requests, responses and header blocks of \<^verbatim>\<open>Http/picohttpparser.c\<close> (\<open>parse_headers\<close>,
  \<open>parse_request\<close>, \<open>parse_response\<close> and the three entry points). The grammar
  \<open>header_block\<close>, \<open>request_head\<close>, \<open>response_head\<close> says which byte strings are message heads
  and what they mean; the parsers accept exactly these. A parser that is \<open>streaming\<close> (the
  locale) may be called again and again on a growing buffer.

  A header is the code's \<open>phr_header\<close>: name and value are views, here the offset of the view in
  the buffer together with the bytes found there. The name of a continuation line is the null
  pointer. Likewise \<open>method_ptr\<close>, \<open>path_ptr\<close> and \<open>msg_ptr\<close> are the offsets of the pointers stored
  for the method, the path and the reason phrase.

  An entry point returns the number of bytes consumed, \<open>(int)(buf - buf_start)\<close> in the code, here a
  natural number: the two agree for heads below 2 GiB.
\<close>

section \<open>Parsing\<close>

record phr_header =
  name_ptr :: "nat option"
  name :: bytes
  value_ptr :: nat
  field_value :: bytes

record phr_request =
  rq_method :: bytes
  rq_path :: bytes
  rq_minor :: nat
  rq_headers :: "phr_header list"
  method_ptr :: nat
  path_ptr :: nat

record phr_response =
  rs_minor :: nat
  rs_status :: nat
  rs_msg :: bytes
  rs_headers :: "phr_header list"
  msg_ptr :: nat

text \<open>\<open>for (; value_end != value; --value_end)\<close>: drop trailing blanks.\<close>

fun value_end :: "bytes \<Rightarrow> nat \<Rightarrow> nat" where
  "value_end v 0 = 0"
| "value_end v (Suc n) = (if is_blank (v ! n) then value_end v n else Suc n)"

definition trim_value :: "bytes \<Rightarrow> bytes" where
  "trim_value v = take (value_end v (length v)) v"

text \<open>The name part of a header line: name, colon, blanks; or nothing on a continuation line.
  \<open>i\<close> is the offset of the cursor \<open>s\<close>, \<open>n\<close> the number of headers already parsed.\<close>

definition header_name :: "nat \<Rightarrow> nat \<Rightarrow> bytes \<Rightarrow> ((nat option \<times> bytes) \<times> bytes) phr" where
  "header_name n i s =
     (if \<not> (n \<noteq> 0 \<and> is_blank (hd s)) then
        phr_bind (parse_token CHR '':'' s) (\<lambda>(nm, r).
          if nm = [] then Bad
          else phr_bind (skip_blanks (tl r)) (\<lambda>r'. Done ((Some i, nm), r')))
      else Done ((None, []), s))"

definition header_line :: "nat \<Rightarrow> nat \<Rightarrow> bytes \<Rightarrow> (phr_header \<times> bytes) phr" where
  "header_line n i s =
     phr_bind (header_name n i s) (\<lambda>((np, nm), r).
     phr_bind (get_token_to_eol r) (\<lambda>(v, r').
       Done (\<lparr>name_ptr = np, name = nm, value_ptr = i + (length s - length r),
              field_value = trim_value v\<rparr>, r')))"

lemma header_name_shorter:
  assumes "header_name n i s = Done (x, r)"
  shows "length r \<le> length s"
proof (cases "n \<noteq> 0 \<and> is_blank (hd s)")
  case True
  with assms show ?thesis by (simp add: header_name_def)
next
  case False
  with assms obtain nm q where t: "parse_token CHR '':'' s = Done (nm, q)"
    and b: "skip_blanks (tl q) = Done r"
    by (auto simp: header_name_def phr_bind_Done split: if_splits)
  from t have "length q \<le> length s" unfolding parse_token_Done by auto
  moreover from b obtain w where "tl q = w @ r" unfolding skip_blanks_Done by blast
  then have "length r \<le> length (tl q)" by (simp del: length_tl)
  ultimately show ?thesis by simp
qed

lemma header_line_shorter: "header_line n i s = Done (h, r) \<Longrightarrow> length r < length s"
proof -
  assume "header_line n i s = Done (h, r)"
  then obtain x q v where x: "header_name n i s = Done (x, q)"
    and v: "get_token_to_eol q = Done (v, r)"
    by (auto simp: header_line_def phr_bind_Done)
  from v obtain e where "q = v @ e @ r" "is_eol e" unfolding get_token_to_eol_Done by blast
  then have "length r < length q" by (auto simp: is_eol_def)
  with header_name_shorter [OF x] show ?thesis by simp
qed

function parse_headers ::
  "nat \<Rightarrow> nat \<Rightarrow> bytes \<Rightarrow> phr_header list \<Rightarrow> (phr_header list \<times> bytes) phr" where
  "parse_headers max_headers i s hs =
     (case s of
        [] \<Rightarrow> Partial
      | c # cs \<Rightarrow>
          if c = CR then
            (case cs of [] \<Rightarrow> Partial | d # ds \<Rightarrow> if d \<noteq> LF then Bad else Done (hs, ds))
          else if c = LF then Done (hs, cs)
          else if length hs = max_headers then Bad
          else phr_bind (header_line (length hs) i s) (\<lambda>(h, r).
                 parse_headers max_headers (i + (length s - length r)) r (hs @ [h])))"
  by auto
termination
  by (relation "measure (\<lambda>(_, _, s, _). length s)") (auto dest!: header_line_shorter)

declare parse_headers.simps [simp del]

definition skip_first_eol :: "bytes \<Rightarrow> bytes phr" where
  "skip_first_eol s =
     (case s of
        [] \<Rightarrow> Partial
      | c # cs \<Rightarrow>
          if c = CR then
            (case cs of [] \<Rightarrow> Partial | d # ds \<Rightarrow> if d \<noteq> LF then Bad else Done ds)
          else if c = LF then Done cs
          else Done s)"

definition parse_request :: "nat \<Rightarrow> bytes \<Rightarrow> (phr_request \<times> bytes) phr" where
  "parse_request max_headers s0 =
     phr_bind (skip_first_eol s0) (\<lambda>s.
     phr_bind (parse_token SP s) (\<lambda>(method, s1).
     phr_bind (skip_spaces s1) (\<lambda>s2.
     phr_bind (advance_token s2) (\<lambda>(path, s3).
     phr_bind (skip_spaces s3) (\<lambda>s4.
       if length method = 0 \<or> length path = 0 then Bad
       else
         phr_bind (parse_http_version s4) (\<lambda>(minor, s5).
         phr_bind (expect_eol s5) (\<lambda>s6.
         phr_bind (parse_headers max_headers (length s0 - length s6) s6 []) (\<lambda>(hs, r).
           Done (\<lparr>rq_method = method, rq_path = path, rq_minor = minor, rq_headers = hs,
                  method_ptr = length s0 - length s, path_ptr = length s0 - length s2\<rparr>, r)))))))))"

text \<open>The reason phrase: at least one space before it, or nothing at all.\<close>

definition trim_msg :: "bytes \<Rightarrow> bytes phr" where
  "trim_msg m =
     (if length m = 0 then Done m
      else if hd m = SP then Done (dropWhile (\<lambda>c. c = SP) m)
      else Bad)"

definition parse_response :: "nat \<Rightarrow> bytes \<Rightarrow> (phr_response \<times> bytes) phr" where
  "parse_response max_headers s0 =
     phr_bind (parse_http_version s0) (\<lambda>(minor, s1).
       if hd s1 \<noteq> SP then Bad
       else
         phr_bind (skip_spaces s1) (\<lambda>s2.
           if length s2 < 4 then Partial
           else
             phr_bind (parse_int_3 s2) (\<lambda>(status, s3).
             phr_bind (get_token_to_eol s3) (\<lambda>(m, s4).
             phr_bind (trim_msg m) (\<lambda>msg.
             phr_bind (parse_headers max_headers (length s0 - length s4) s4 []) (\<lambda>(hs, r).
               Done (\<lparr>rs_minor = minor, rs_status = status, rs_msg = msg, rs_headers = hs,
                       msg_ptr = length s0 - length s3 + (length m - length msg)\<rparr>, r)))))))"

text \<open>The entry points return the number of bytes consumed.\<close>

definition phr_entry :: "(bytes \<Rightarrow> ('a \<times> bytes) phr) \<Rightarrow> bytes \<Rightarrow> nat \<Rightarrow> ('a \<times> nat) phr" where
  "phr_entry p s last_len =
     phr_bind (if last_len \<noteq> 0 then is_complete s last_len else Done s) (\<lambda>_.
     phr_bind (p s) (\<lambda>(x, r). Done (x, length s - length r)))"

definition phr_parse_request :: "nat \<Rightarrow> bytes \<Rightarrow> nat \<Rightarrow> (phr_request \<times> nat) phr" where
  "phr_parse_request max_headers = phr_entry (parse_request max_headers)"

definition phr_parse_response :: "nat \<Rightarrow> bytes \<Rightarrow> nat \<Rightarrow> (phr_response \<times> nat) phr" where
  "phr_parse_response max_headers = phr_entry (parse_response max_headers)"

definition phr_parse_headers :: "nat \<Rightarrow> bytes \<Rightarrow> nat \<Rightarrow> (phr_header list \<times> nat) phr" where
  "phr_parse_headers max_headers = phr_entry (\<lambda>s. parse_headers max_headers 0 s [])"

section \<open>The grammar of message heads\<close>

definition token :: "bytes \<Rightarrow> bool" where
  "token w \<longleftrightarrow> (\<forall>c \<in> set w. is_token_char c)"

text \<open>\<open>header_field n i p h\<close>: the bytes \<open>p\<close>, at offset \<open>i\<close> after \<open>n\<close> earlier headers, are a line
  that stands for the header \<open>h\<close>.\<close>

definition header_field :: "nat \<Rightarrow> nat \<Rightarrow> bytes \<Rightarrow> phr_header \<Rightarrow> bool" where
  "header_field n i p h \<longleftrightarrow>
     (\<exists>w v e. p = w @ v @ e \<and> line_free v \<and> is_eol e
        \<and> value_ptr h = i + length w \<and> field_value h = trim_value v
        \<and> (if n \<noteq> 0 \<and> starts_with is_blank p
           then w = [] \<and> name_ptr h = None \<and> name h = []
           else \<exists>b. w = name h @ CHR '':'' # b \<and> name h \<noteq> [] \<and> token (name h) \<and> blanks b
                  \<and> \<not> starts_with is_blank v \<and> name_ptr h = Some i))"

inductive header_block ::
  "nat \<Rightarrow> nat \<Rightarrow> bytes \<Rightarrow> phr_header list \<Rightarrow> phr_header list \<Rightarrow> bool" where
  hb_end: "is_eol e \<Longrightarrow> header_block mx i e hs hs"
| hb_line: "length hs \<noteq> mx \<Longrightarrow> header_field (length hs) i p h \<Longrightarrow>
    header_block mx (i + length p) q (hs @ [h]) hs' \<Longrightarrow> header_block mx i (p @ q) hs hs'"

text \<open>The parts of a request: an empty line before it is allowed; \<open>b1\<close> and \<open>b2\<close> are extra
  spaces, \<open>d\<close> the minor version, \<open>e\<close> the end of the request line, \<open>hb\<close> the header block.\<close>

definition request_parts ::
  "nat \<Rightarrow> bytes \<Rightarrow> phr_request \<Rightarrow> bytes \<Rightarrow> bytes \<Rightarrow> bytes \<Rightarrow> char \<Rightarrow> bytes \<Rightarrow> bytes \<Rightarrow> bool" where
  "request_parts mx p x f b1 b2 d e hb \<longleftrightarrow>
     p = f @ rq_method x @ [SP] @ b1 @ rq_path x @ [SP] @ b2 @ ''HTTP/1.'' @ [d] @ e @ hb
     \<and> (f = [] \<or> is_eol f) \<and> rq_method x \<noteq> [] \<and> token (rq_method x)
     \<and> spaces b1 \<and> rq_path x \<noteq> [] \<and> (\<forall>c \<in> set (rq_path x). \<not> is_ctl c \<and> c \<noteq> SP)
     \<and> spaces b2 \<and> is_digit d \<and> rq_minor x = digit_val d \<and> is_eol e
     \<and> header_block mx (length p - length hb) hb [] (rq_headers x)
     \<and> method_ptr x = length f \<and> path_ptr x = length (f @ rq_method x @ [SP] @ b1)"

definition request_head :: "nat \<Rightarrow> bytes \<Rightarrow> phr_request \<Rightarrow> bool" where
  "request_head mx p x \<longleftrightarrow> (\<exists>f b1 b2 d e hb. request_parts mx p x f b1 b2 d e hb)"

definition response_parts ::
  "nat \<Rightarrow> bytes \<Rightarrow> phr_response \<Rightarrow> char \<Rightarrow> bytes \<Rightarrow> bytes \<Rightarrow> bytes \<Rightarrow> bytes \<Rightarrow> bytes \<Rightarrow> bool" where
  "response_parts mx p x d b ds b2 e hb \<longleftrightarrow>
     p = ''HTTP/1.'' @ [d] @ [SP] @ b @ ds @ b2 @ rs_msg x @ e @ hb
     \<and> is_digit d \<and> rs_minor x = digit_val d \<and> spaces b
     \<and> length ds = 3 \<and> list_all is_digit ds
     \<and> rs_status x = 100 * digit_val (ds ! 0) + 10 * digit_val (ds ! 1) + digit_val (ds ! 2)
     \<and> spaces b2 \<and> (b2 = [] \<longrightarrow> rs_msg x = []) \<and> line_free (rs_msg x)
     \<and> \<not> starts_with (\<lambda>c. c = SP) (rs_msg x) \<and> is_eol e
     \<and> header_block mx (length p - length hb) hb [] (rs_headers x)
     \<and> msg_ptr x = length (''HTTP/1.'' @ [d] @ [SP] @ b @ ds @ b2)"

definition response_head :: "nat \<Rightarrow> bytes \<Rightarrow> phr_response \<Rightarrow> bool" where
  "response_head mx p x \<longleftrightarrow> (\<exists>d b ds b2 e hb. response_parts mx p x d b ds b2 e hb)"

lemma token_simps [simp]: "token []" "token (c # w) \<longleftrightarrow> is_token_char c \<and> token w"
  by (simp_all add: token_def)

lemma delimiters_not_token [simp]:
  "\<not> is_token_char CHR '':''" "\<not> is_token_char SP" "\<not> is_token_char CR"
  "\<not> is_token_char LF" "\<not> is_token_char HTAB"
  by code_simp+

lemma blank_not_token: "is_blank c \<Longrightarrow> \<not> is_token_char c"
  by (auto simp: is_blank_def)

lemma parse_name_Done:
  "parse_token CHR '':'' s = Done (v, r) \<longleftrightarrow> (\<exists>q. s = v @ r \<and> r = CHR '':'' # q \<and> token v)"
  unfolding parse_token_Done token_def by (metis delimiters_not_token(1))

lemma parse_method_Done:
  "parse_token SP s = Done (v, r) \<longleftrightarrow> (\<exists>q. s = v @ r \<and> r = SP # q \<and> token v)"
  unfolding parse_token_Done token_def by (metis delimiters_not_token(2))

lemma is_eol_starts: "is_eol e \<Longrightarrow> starts_with (\<lambda>c. \<not> is_blank c \<and> \<not> is_token_char c) e"
  by (auto simp: is_eol_def is_blank_def)

lemma starts_with_append_iff:
  "starts_with P (s @ t) \<longleftrightarrow> (if s = [] then starts_with P t else starts_with P s)"
  by (cases s) simp_all

section \<open>The parsers accept the grammar\<close>

lemma header_line_sound:
  assumes "header_line n i s = Done (h, r)"
  shows "\<exists>p. s = p @ r \<and> header_field n i p h"
proof -
  from assms obtain np nm q v where x: "header_name n i s = Done ((np, nm), q)"
    and v: "get_token_to_eol q = Done (v, r)"
    and h: "h = \<lparr>name_ptr = np, name = nm, value_ptr = i + (length s - length q),
              field_value = trim_value v\<rparr>"
    by (auto simp: header_line_def phr_bind_Done)
  from v obtain e where q: "q = v @ e @ r" "line_free v" "is_eol e"
    unfolding get_token_to_eol_Done by blast
  show ?thesis
  proof (cases "n \<noteq> 0 \<and> is_blank (hd s)")
    case True
    with x have "np = None" "nm = []" "q = s" by (simp_all add: header_name_def)
    moreover from q have "v @ e \<noteq> []" by (auto simp: is_eol_def)
    then have "hd (v @ e) = hd (v @ e @ r)" by (cases "v @ e") (simp_all, metis append_Cons append_assoc hd_append2 list.sel(1))
    ultimately have "header_field n i (v @ e) h" using True q h \<open>v @ e \<noteq> []\<close>
      unfolding header_field_def
      by (intro exI [of _ "[]"] exI [of _ v] exI [of _ e]) (simp add: starts_with_def)
    with q \<open>q = s\<close> show ?thesis by (intro exI [of _ "v @ e"]) simp
  next
    case False
    with x obtain q0 where t: "parse_token CHR '':'' s = Done (nm, q0)" "nm \<noteq> []"
      and b: "skip_blanks (tl q0) = Done q" and np: "np = Some i"
      by (auto simp: header_name_def phr_bind_Done split: if_splits)
    from t obtain q1 where s: "s = nm @ CHR '':'' # q1" "q0 = CHR '':'' # q1" "token nm"
      unfolding parse_name_Done by blast
    from b s obtain bl where bl: "q1 = bl @ q" "blanks bl" "starts_with (\<lambda>c. \<not> is_blank c) q"
      unfolding skip_blanks_Done by auto
    have "\<not> starts_with is_blank v"
      using bl(3) q by (cases v) simp_all
    moreover have "\<not> starts_with is_blank (nm @ w)" for w
      using t(2) s(3) blank_not_token by (cases nm) auto
    ultimately have "header_field n i ((nm @ CHR '':'' # bl) @ v @ e) h"
      unfolding header_field_def using h q np t(2) s bl
      by (intro exI [of _ "nm @ CHR '':'' # bl"] exI [of _ v] exI [of _ e]) simp
    with s bl q show ?thesis by (intro exI [of _ "(nm @ CHR '':'' # bl) @ v @ e"]) simp
  qed
qed

lemma header_line_complete:
  assumes "header_field n i p h"
  shows "header_line n i (p @ r) = Done (h, r)"
proof -
  from assms obtain w v e where p: "p = w @ v @ e" and v: "line_free v" "is_eol e"
    and h: "value_ptr h = i + length w" "field_value h = trim_value v"
    and c: "if n \<noteq> 0 \<and> starts_with is_blank p
           then w = [] \<and> name_ptr h = None \<and> name h = []
           else \<exists>b. w = name h @ CHR '':'' # b \<and> name h \<noteq> [] \<and> token (name h) \<and> blanks b
                  \<and> \<not> starts_with is_blank v \<and> name_ptr h = Some i"
    unfolding header_field_def by blast
  have g: "get_token_to_eol (v @ e @ r) = Done (v, r)"
    unfolding get_token_to_eol_Done using v by blast
  show ?thesis
  proof (cases "n \<noteq> 0 \<and> starts_with is_blank p")
    case True
    with c have w: "w = []" "name_ptr h = None" "name h = []" by simp_all
    from True have "is_blank (hd (p @ r))" by (cases p) simp_all
    with True have "header_name n i (p @ r) = Done ((None, []), p @ r)"
      by (simp add: header_name_def)
    with g w p h show ?thesis by (simp add: header_line_def)
  next
    case False
    with c obtain b where w: "w = name h @ CHR '':'' # b" "name h \<noteq> []" "token (name h)" "blanks b"
      "\<not> starts_with is_blank v" "name_ptr h = Some i"
      by (auto simp del: starts_with_append)
    have "\<not> is_blank (hd (p @ r))"
      using w(1-3) p blank_not_token by (cases "name h") auto
    moreover have "parse_token CHR '':'' (p @ r) = Done (name h, CHR '':'' # b @ v @ e @ r)"
      unfolding parse_name_Done using w p by simp
    moreover have "starts_with (\<lambda>c. \<not> is_blank c) (v @ e @ r)"
      using w(5) is_eol_starts [OF v(2)] by (cases v; cases e) simp_all
    then have "skip_blanks (b @ v @ e @ r) = Done (v @ e @ r)"
      unfolding skip_blanks_Done using w(4) by blast
    ultimately have "header_name n i (p @ r) = Done ((Some i, name h), v @ e @ r)"
      using w(2) by (simp add: header_name_def)
    with g w p h show ?thesis by (simp add: header_line_def)
  qed
qed

lemma header_line_Done:
  "header_line n i s = Done (h, r) \<longleftrightarrow> (\<exists>p. s = p @ r \<and> header_field n i p h)"
  using header_line_sound header_line_complete by blast

lemma header_field_start:
  assumes "header_field n i p h"
  shows "starts_with (\<lambda>c. c \<noteq> CR \<and> c \<noteq> LF) p"
proof (cases "n \<noteq> 0 \<and> starts_with is_blank p")
  case True
  then show ?thesis by (cases p) (auto simp: is_blank_def)
next
  case False
  from assms obtain w v b where "p = w @ v" "w = name h @ CHR '':'' # b"
    and nm: "name h \<noteq> []" "token (name h)"
    unfolding header_field_def if_not_P [OF False] by blast
  then have p: "p = name h @ CHR '':'' # b @ v" by simp
  from nm(1) obtain c cs where "name h = c # cs" by (cases "name h") simp_all
  with p nm have "p = c # (cs @ CHR '':'' # b @ v)" "is_token_char c" by simp_all
  moreover from this(2) have "c \<noteq> CR" "c \<noteq> LF" using delimiters_not_token(3,4) by blast+
  ultimately show ?thesis by simp
qed

lemma parse_headers_eol:
  "is_eol e \<Longrightarrow> parse_headers mx i (e @ r) hs = Done (hs, r)"
  by (auto simp: is_eol_def parse_headers.simps)

lemma parse_headers_line:
  "starts_with (\<lambda>c. c \<noteq> CR \<and> c \<noteq> LF) s \<Longrightarrow>
   parse_headers mx i s hs =
     (if length hs = mx then Bad
      else phr_bind (header_line (length hs) i s) (\<lambda>(h, r).
             parse_headers mx (i + (length s - length r)) r (hs @ [h])))"
  by (cases s) (simp_all add: parse_headers.simps [of mx i "_ # _"])

lemma parse_headers_sound:
  "parse_headers mx i s hs = Done (hs', r) \<Longrightarrow>
     \<exists>p. s = p @ r \<and> header_block mx i p hs hs'"
proof (induction mx i s hs arbitrary: hs' r rule: parse_headers.induct)
  case (1 mx i s hs)
  show ?case
  proof (cases "starts_with (\<lambda>c. c \<noteq> CR \<and> c \<noteq> LF) s")
    case False
    with 1(2) show ?thesis
      by (cases s)
        (auto simp: parse_headers.simps [of mx i] is_eol_def intro!: hb_end split: list.splits if_splits)
  next
    case True
    with 1(2) obtain h q where l: "length hs \<noteq> mx" "header_line (length hs) i s = Done (h, q)"
      and d: "parse_headers mx (i + (length s - length q)) q (hs @ [h]) = Done (hs', r)"
      by (auto simp: parse_headers_line phr_bind_Done split: if_splits)
    from l(2) obtain p where p: "s = p @ q" "header_field (length hs) i p h"
      unfolding header_line_Done by blast
    obtain c cs where s: "s = c # cs" "c \<noteq> CR" "c \<noteq> LF" using True by (cases s) auto
    from 1(1) [OF s l refl d] obtain p' where "q = p' @ r"
      "header_block mx (i + length p) p' (hs @ [h]) hs'"
      using p(1) by auto
    with p l(1) show ?thesis by (intro exI [of _ "p @ p'"]) (simp add: hb_line)
  qed
qed

lemma parse_headers_complete:
  "header_block mx i p hs hs' \<Longrightarrow> parse_headers mx i (p @ r) hs = Done (hs', r)"
proof (induction rule: header_block.induct)
  case (hb_end e mx i hs)
  then show ?case by (rule parse_headers_eol)
next
  case (hb_line hs mx i p h q hs')
  then have "starts_with (\<lambda>c. c \<noteq> CR \<and> c \<noteq> LF) (p @ q @ r)"
    by (simp add: header_field_start)
  then show ?case using hb_line
    by (simp add: parse_headers_line header_line_complete)
qed

lemma parse_headers_Done:
  "parse_headers mx i s hs = Done (hs', r) \<longleftrightarrow> (\<exists>p. s = p @ r \<and> header_block mx i p hs hs')"
  using parse_headers_sound parse_headers_complete by blast

lemma header_line_Bad:
  assumes "s \<noteq> []" and "header_line n i s = Bad"
  shows "header_line n i (s @ t) = Bad"
proof -
  have n: "header_name n i s = Bad \<Longrightarrow> header_name n i (s @ t) = Bad"
    using assms(1)
    by (auto simp: header_name_def phr_bind_Bad parse_token_Bad parse_name_Done split: if_splits)
  have "header_name n i s = Done (x, q) \<Longrightarrow> header_name n i (s @ t) = Done (x, q @ t)" for x q
  proof (cases "n \<noteq> 0 \<and> is_blank (hd s)")
    case True
    then show "header_name n i s = Done (x, q) \<Longrightarrow> ?thesis"
      using assms(1) by (simp add: header_name_def)
  next
    case False
    assume "header_name n i s = Done (x, q)"
    with False obtain nm q0 where t: "parse_token CHR '':'' s = Done (nm, q0)" "nm \<noteq> []"
      and b: "skip_blanks (tl q0) = Done q" and x: "x = (Some i, nm)"
      by (auto simp: header_name_def phr_bind_Done split: if_splits)
    from t have "parse_token CHR '':'' (s @ t) = Done (nm, q0 @ t)" "q0 \<noteq> []"
      unfolding parse_name_Done by auto
    moreover from b have "skip_blanks (tl q0 @ t) = Done (q @ t)"
      unfolding skip_blanks_Done by fastforce
    ultimately show ?thesis using False t(2) x assms(1)
      by (simp add: header_name_def)
  qed
  with n assms(2) show ?thesis
    by (auto simp: header_line_def phr_bind_Bad get_token_to_eol_Bad)
qed

lemma parse_headers_Bad:
  "parse_headers mx i s hs = Bad \<Longrightarrow> parse_headers mx i (s @ t) hs = Bad"
proof (induction mx i s hs rule: parse_headers.induct)
  case (1 mx i s hs)
  show ?case
  proof (cases "starts_with (\<lambda>c. c \<noteq> CR \<and> c \<noteq> LF) s")
    case False
    with 1(2) show ?thesis
      by (cases s) (auto simp: parse_headers.simps [of mx i] split: list.splits if_splits)
  next
    case True
    then have st: "starts_with (\<lambda>c. c \<noteq> CR \<and> c \<noteq> LF) (s @ t)" by simp
    obtain c cs where s: "s = c # cs" "c \<noteq> CR" "c \<noteq> LF" using True by (cases s) auto
    from 1(2) True consider "length hs = mx" | "length hs \<noteq> mx" "header_line (length hs) i s = Bad"
      | h q where "length hs \<noteq> mx" "header_line (length hs) i s = Done (h, q)"
        "parse_headers mx (i + (length s - length q)) q (hs @ [h]) = Bad"
      by (auto simp: parse_headers_line phr_bind_Bad split: if_splits)
    then show ?thesis
    proof cases
      case 1
      with st show ?thesis by (simp add: parse_headers_line)
    next
      case 2
      have "s \<noteq> []" using s(1) by simp
      then have "header_line (length hs) i (s @ t) = Bad" by (rule header_line_Bad [OF _ 2(2)])
      with st 2(1) show ?thesis by (simp add: parse_headers_line)
    next
      case (3 h q)
      from 3(2) obtain p where p: "s = p @ q" "header_field (length hs) i p h"
        unfolding header_line_Done by blast
      then have "header_line (length hs) i (s @ t) = Done (h, q @ t)"
        unfolding header_line_Done by simp
      moreover from 3 s 1(1) have "parse_headers mx (i + (length s - length q)) (q @ t) (hs @ [h]) = Bad"
        by blast
      ultimately show ?thesis using st 3(1) by (simp add: parse_headers_line)
    qed
  qed
qed

lemma skip_first_eol_Done:
  "skip_first_eol s = Done q \<longleftrightarrow>
     (\<exists>f. s = f @ q \<and> is_eol f) \<or> (q = s \<and> starts_with (\<lambda>c. c \<noteq> CR \<and> c \<noteq> LF) s)"
  by (cases s) (auto simp: skip_first_eol_def is_eol_def split: list.splits)

lemma skip_first_eol_Bad: "skip_first_eol s = Bad \<Longrightarrow> skip_first_eol (s @ t) = Bad"
  by (cases s) (auto simp: skip_first_eol_def split: list.splits if_splits)

lemma skip_first_eol_append: "skip_first_eol s = Done q \<Longrightarrow> skip_first_eol (s @ t) = Done (q @ t)"
  unfolding skip_first_eol_Done by auto

lemma parse_token_append: "parse_token c s = Done (v, r) \<Longrightarrow> parse_token c (s @ t) = Done (v, r @ t)"
  unfolding parse_token_Done by auto

lemma advance_token_append: "advance_token s = Done (v, r) \<Longrightarrow> advance_token (s @ t) = Done (v, r @ t)"
  unfolding advance_token_Done by (elim exE conjE) simp

lemma skip_spaces_append: "skip_spaces s = Done r \<Longrightarrow> skip_spaces (s @ t) = Done (r @ t)"
proof (cases s)
  case (Cons c cs)
  assume "skip_spaces s = Done r"
  with Cons obtain b where "cs = b @ r" "spaces b" "starts_with (\<lambda>c. c \<noteq> SP) r"
    by (auto simp: skip_spaces_Done)
  then have "skip_spaces (c # cs @ t) = Done (r @ t)"
    unfolding skip_spaces_Done by (intro exI [of _ b]) simp
  with Cons show ?thesis by simp
qed simp

lemma parse_http_version_append:
  "parse_http_version s = Done (v, r) \<Longrightarrow> parse_http_version (s @ t) = Done (v, r @ t)"
  unfolding parse_http_version_Done by auto

lemma expect_eol_append: "expect_eol s = Done r \<Longrightarrow> expect_eol (s @ t) = Done (r @ t)"
  unfolding expect_eol_Done by auto

lemma get_token_to_eol_append:
  "get_token_to_eol s = Done (v, r) \<Longrightarrow> get_token_to_eol (s @ t) = Done (v, r @ t)"
  unfolding get_token_to_eol_Done by auto

lemma parse_int_3_append: "parse_int_3 s = Done (v, r) \<Longrightarrow> parse_int_3 (s @ t) = Done (v, r @ t)"
  unfolding parse_int_3_Done by auto

lemma parse_headers_append:
  "parse_headers mx i s hs = Done (hs', r) \<Longrightarrow> parse_headers mx i (s @ t) hs = Done (hs', r @ t)"
  unfolding parse_headers_Done by auto

text \<open>\<open>grows g a b\<close>: \<open>b\<close> is the verdict \<open>a\<close> after more bytes have come in; \<open>g\<close> adds them to the
  cursor.\<close>

definition grows :: "('a \<Rightarrow> 'a) \<Rightarrow> 'a phr \<Rightarrow> 'a phr \<Rightarrow> bool" where
  "grows g a b \<longleftrightarrow> (\<forall>x. a = Done x \<longrightarrow> b = Done (g x)) \<and> (a = Bad \<longrightarrow> b = Bad)"

definition add_more :: "bytes \<Rightarrow> 'a \<times> bytes \<Rightarrow> 'a \<times> bytes" where
  "add_more t = (\<lambda>(x, r). (x, r @ t))"

lemma add_more_simp [simp]: "add_more t (x, r) = (x, r @ t)"
  by (simp add: add_more_def)

lemma grows_bind:
  "grows g a b \<Longrightarrow> (\<And>x. a = Done x \<Longrightarrow> grows h (f x) (f' (g x))) \<Longrightarrow>
     grows h (phr_bind a f) (phr_bind b f')"
  by (cases a) (simp_all add: grows_def)

lemma grows_bind_pair:
  "grows (add_more t) a b \<Longrightarrow> (\<And>x r. a = Done (x, r) \<Longrightarrow> grows h (f x r) (f' x (r @ t))) \<Longrightarrow>
     grows h (phr_bind a (\<lambda>(x, r). f x r)) (phr_bind b (\<lambda>(x, r). f' x r))"
  by (rule grows_bind) auto

lemma grows_Done: "grows g (Done x) (Done (g x))" "grows g Bad Bad" "grows g Partial b"
  by (simp_all add: grows_def)

lemma scanner_grows:
  "grows (\<lambda>r. r @ t) (skip_first_eol s) (skip_first_eol (s @ t))"
  "grows (add_more t) (parse_token c s) (parse_token c (s @ t))"
  "grows (add_more t) (advance_token s) (advance_token (s @ t))"
  "grows (\<lambda>r. r @ t) (skip_spaces s) (skip_spaces (s @ t))"
  "grows (add_more t) (parse_http_version s) (parse_http_version (s @ t))"
  "grows (\<lambda>r. r @ t) (expect_eol s) (expect_eol (s @ t))"
  "grows (add_more t) (get_token_to_eol s) (get_token_to_eol (s @ t))"
  "grows (add_more t) (parse_int_3 s) (parse_int_3 (s @ t))"
  "i = j \<Longrightarrow> grows (add_more t) (parse_headers mx i s hs) (parse_headers mx j (s @ t) hs)"
  by (auto simp: grows_def
      skip_first_eol_append parse_token_append advance_token_append
      skip_spaces_append parse_http_version_append expect_eol_append get_token_to_eol_append
      parse_int_3_append parse_headers_append
      skip_first_eol_Bad parse_token_Bad advance_token_Bad parse_http_version_Bad
      expect_eol_Bad get_token_to_eol_Bad parse_int_3_Bad parse_headers_Bad)

lemma grows_if: "c = c' \<Longrightarrow> (c \<Longrightarrow> grows g a b) \<Longrightarrow> (\<not> c \<Longrightarrow> grows g a' b') \<Longrightarrow>
    grows g (if c then a else a') (if c' then b else b')"
  by simp

lemma grows_pair: "grows (add_more t) (Done (x, r)) (Done (x, r @ t))"
  by (simp add: grows_def)

lemma grows_pair_eq: "x = y \<Longrightarrow> grows (add_more t) (Done (x, r)) (Done (y, r @ t))"
  by (simp add: grows_def)

lemma parse_request_grows: "grows (add_more t) (parse_request mx s) (parse_request mx (s @ t))"
  unfolding parse_request_def
  by (rule grows_if refl grows_pair grows_Done(2) | (rule grows_bind_pair, rule scanner_grows)
      | (rule grows_bind, rule scanner_grows) | simp)+

lemma trim_msg_grows: "grows (\<lambda>m. m) (trim_msg m) (trim_msg m)"
  by (simp add: grows_def)

lemma grows_wait:
  "grows g a b \<Longrightarrow>
     grows g (if length r < n then Partial else a) (if length (r @ t) < n then Partial else b)"
  by (simp add: grows_def)

lemma version_next: "parse_http_version s = Done (v, r) \<Longrightarrow> (hd r \<noteq> SP) = (hd (r @ t) \<noteq> SP)"
  unfolding parse_http_version_Done by auto

lemma parse_response_grows: "grows (add_more t) (parse_response mx s) (parse_response mx (s @ t))"
  unfolding parse_response_def
  by (rule grows_bind_pair [OF scanner_grows(5)], rule grows_if, erule version_next,
      rule grows_Done(2), rule grows_bind [OF scanner_grows(4)], rule grows_wait,
      rule grows_bind_pair [OF scanner_grows(8)], rule grows_bind_pair [OF scanner_grows(7)],
      rule grows_bind [OF trim_msg_grows], rule grows_bind_pair [OF scanner_grows(9)], simp,
      rule grows_pair_eq, simp)

lemma parse_request_sound:
  assumes "parse_request mx s = Done (x, r)"
  shows "\<exists>p. s = p @ r \<and> request_head mx p x"
proof -
  from assms obtain s0 m s1 s2 pa s3 s4 v s5 s6 hs where
    c: "skip_first_eol s = Done s0" "parse_token SP s0 = Done (m, s1)" "skip_spaces s1 = Done s2"
      "advance_token s2 = Done (pa, s3)" "skip_spaces s3 = Done s4" "m \<noteq> []" "pa \<noteq> []"
      "parse_http_version s4 = Done (v, s5)" "expect_eol s5 = Done s6"
      "parse_headers mx (length s - length s6) s6 [] = Done (hs, r)"
    and x: "x = \<lparr>rq_method = m, rq_path = pa, rq_minor = v, rq_headers = hs,
      method_ptr = length s - length s0, path_ptr = length s - length s2\<rparr>"
    by (auto simp: parse_request_def phr_bind_Done split: if_splits)
  from c(1) obtain f where f: "s = f @ s0" "f = [] \<or> is_eol f" unfolding skip_first_eol_Done by auto
  from c(2) obtain q1 where m: "s0 = m @ s1" "s1 = SP # q1" "token m" unfolding parse_method_Done by blast
  from c(3) m(2) obtain b1 where b1: "q1 = b1 @ s2" "spaces b1" by (auto simp: skip_spaces_Done)
  from c(4) obtain q2 where pa: "s2 = pa @ s3" "s3 = SP # q2" "\<forall>c \<in> set pa. \<not> is_ctl c \<and> c \<noteq> SP"
    unfolding advance_token_Done by blast
  from c(5) pa(2) obtain b2 where b2: "q2 = b2 @ s4" "spaces b2" by (auto simp: skip_spaces_Done)
  from c(8) obtain d where d: "s4 = ''HTTP/1.'' @ d # s5" "is_digit d" "v = digit_val d"
    unfolding parse_http_version_Done by blast
  from c(9) obtain e where e: "s5 = e @ s6" "is_eol e" unfolding expect_eol_Done by blast
  from c(10) obtain hb where hb: "s6 = hb @ r" "header_block mx (length s - length s6) hb [] hs"
    unfolding parse_headers_Done by blast
  define p where "p = f @ m @ [SP] @ b1 @ pa @ [SP] @ b2 @ ''HTTP/1.'' @ [d] @ e @ hb"
  have "s = p @ r" unfolding p_def f m b1 pa b2 d e hb by simp
  moreover have "length s - length s6 = length p - length hb"
    using \<open>s = p @ r\<close> hb(1) by simp
  moreover have "length s - length s0 = length f" unfolding f(1) by simp
  moreover have "length s - length s2 = length (f @ m @ [SP] @ b1)" unfolding f m b1 by simp
  ultimately have "request_parts mx p x f b1 b2 d e hb"
    unfolding request_parts_def x phr_request.simps
    using p_def f(2) c(6) m(3) b1(2) c(7) pa(3) b2(2) d(2,3) e(2) hb(2)
    by (intro conjI) (assumption | simp only:)+
  with \<open>s = p @ r\<close> show ?thesis unfolding request_head_def by blast
qed

lemma token_start: "token m \<Longrightarrow> m \<noteq> [] \<Longrightarrow> starts_with (\<lambda>c. c \<noteq> CR \<and> c \<noteq> LF) (m @ r)"
proof -
  assume "token m" "m \<noteq> []"
  then obtain c cs where "m = c # cs" "is_token_char c" by (cases m) simp_all
  moreover from this(2) have "c \<noteq> CR" "c \<noteq> LF" using delimiters_not_token(3,4) by blast+
  ultimately show ?thesis by simp
qed

lemma skip_spaces_run:
  "spaces b \<Longrightarrow> starts_with (\<lambda>c. c \<noteq> SP) r \<Longrightarrow> skip_spaces (SP # b @ r) = Done r"
  unfolding skip_spaces_Done by blast

lemma eol_not_empty: "is_eol e \<Longrightarrow> e \<noteq> []"
  by (auto simp: is_eol_def)

lemma header_block_not_empty: "header_block mx i p hs hs' \<Longrightarrow> p \<noteq> []"
  by (induction rule: header_block.induct) (simp_all add: eol_not_empty)

lemma parse_request_complete:
  assumes "request_head mx p x"
  shows "parse_request mx (p @ r) = Done (x, r)"
proof -
  from assms obtain f b1 b2 d e hb where pt: "request_parts mx p x f b1 b2 d e hb"
    unfolding request_head_def by blast
  note pt = pt [unfolded request_parts_def]
  have p: "p = f @ rq_method x @ [SP] @ b1 @ rq_path x @ [SP] @ b2 @ ''HTTP/1.'' @ [d] @ e @ hb"
    using pt by (rule conjunct1)
  have h: "f = [] \<or> is_eol f" "rq_method x \<noteq> []" "token (rq_method x)"
      "spaces b1" "rq_path x \<noteq> []" "\<forall>c \<in> set (rq_path x). \<not> is_ctl c \<and> c \<noteq> SP"
      "spaces b2" "is_digit d" "rq_minor x = digit_val d" "is_eol e"
    and hb: "header_block mx (length p - length hb) hb [] (rq_headers x)"
    and ptr: "method_ptr x = length f" "path_ptr x = length (f @ rq_method x @ [SP] @ b1)"
    using pt by - (elim conjE, assumption)+
  define s6 where "s6 = hb @ r"
  define s4 where "s4 = ''HTTP/1.'' @ d # e @ s6"
  define s2 where "s2 = rq_path x @ SP # b2 @ s4"
  define s0 where "s0 = rq_method x @ SP # b1 @ s2"
  have s: "p @ r = f @ s0" by (simp add: p s0_def s2_def s4_def s6_def)
  have "starts_with (\<lambda>c. c \<noteq> CR \<and> c \<noteq> LF) s0"
    unfolding s0_def using h(2,3) by (rule token_start [rotated])
  then have 1: "skip_first_eol (p @ r) = Done s0"
    unfolding s skip_first_eol_Done using h(1) by auto
  have 2: "parse_token SP s0 = Done (rq_method x, SP # b1 @ s2)"
    unfolding parse_method_Done s0_def using h(3) by blast
  have "starts_with (\<lambda>c. c \<noteq> SP) s2"
    unfolding s2_def using h(5,6) by (cases "rq_path x") simp_all
  then have 3: "skip_spaces (SP # b1 @ s2) = Done s2" by (rule skip_spaces_run [OF h(4)])
  have 4: "advance_token s2 = Done (rq_path x, SP # b2 @ s4)"
    unfolding advance_token_Done s2_def using h(6) by blast
  have "starts_with (\<lambda>c. c \<noteq> SP) s4" unfolding s4_def by simp
  then have 5: "skip_spaces (SP # b2 @ s4) = Done s4" by (rule skip_spaces_run [OF h(7)])
  have 6: "parse_http_version s4 = Done (rq_minor x, e @ s6)"
    unfolding parse_http_version_Done s4_def using h(8,9) eol_not_empty [OF h(10)] by blast
  have 7: "expect_eol (e @ s6) = Done s6"
    unfolding expect_eol_Done using h(10) by blast
  have "length (p @ r) - length s6 = length p - length hb" by (simp add: s6_def)
  with parse_headers_complete [OF hb]
  have 8: "parse_headers mx (length (p @ r) - length s6) s6 [] = Done (rq_headers x, r)"
    by (simp add: s6_def)
  have off: "length (p @ r) - length s0 = method_ptr x" "length (p @ r) - length s2 = path_ptr x"
    unfolding s ptr by (simp_all add: s0_def)
  show ?thesis
    unfolding parse_request_def
    by (simp only: 1 2 3 4 5 6 7 8 phr_bind_simps prod.case) (simp add: h(2,5) off [unfolded length_append])
qed

lemma parse_request_Done:
  "parse_request mx s = Done (x, r) \<longleftrightarrow> (\<exists>p. s = p @ r \<and> request_head mx p x)"
  using parse_request_sound parse_request_complete by blast

lemma trim_msg_Done:
  "trim_msg m = Done w \<longleftrightarrow>
     (\<exists>b. m = b @ w \<and> spaces b \<and> (b = [] \<longrightarrow> w = []) \<and> \<not> starts_with (\<lambda>c. c = SP) w)"
proof
  assume t: "trim_msg m = Done w"
  let ?b = "takeWhile (\<lambda>c. c = SP) m"
  have "spaces ?b" unfolding spaces_def by (auto dest: set_takeWhileD)
  moreover from t have w: "w = dropWhile (\<lambda>c. c = SP) m"
    by (cases m) (simp_all add: trim_msg_def split: if_splits)
  moreover from w have "\<not> starts_with (\<lambda>c. c = SP) w"
    using hd_dropWhile [of "\<lambda>c. c = SP" m] by (auto simp: starts_with_def)
  moreover from t have "?b = [] \<Longrightarrow> m = []"
    by (cases m) (simp_all add: trim_msg_def split: if_splits)
  with w have "?b = [] \<longrightarrow> w = []" by auto
  moreover from w have "m = ?b @ w" by simp
  ultimately show "\<exists>b. m = b @ w \<and> spaces b \<and> (b = [] \<longrightarrow> w = []) \<and> \<not> starts_with (\<lambda>c. c = SP) w"
    by blast
next
  assume "\<exists>b. m = b @ w \<and> spaces b \<and> (b = [] \<longrightarrow> w = []) \<and> \<not> starts_with (\<lambda>c. c = SP) w"
  then obtain b where b: "m = b @ w" "spaces b" "b = [] \<longrightarrow> w = []" "\<not> starts_with (\<lambda>c. c = SP) w"
    by blast
  have "dropWhile (\<lambda>c. c = SP) (b @ w) = dropWhile (\<lambda>c. c = SP) w"
    using b(2) by (simp add: spaces_def dropWhile_append2)
  also have "\<dots> = w" using b(4) by (cases w) simp_all
  finally show "trim_msg m = Done w"
    using b by (cases b) (simp_all add: trim_msg_def)
qed

lemma trim_msg_not_partial [simp]: "trim_msg m \<noteq> Partial"
  by (simp add: trim_msg_def)

lemma spaces_line_free: "spaces b \<Longrightarrow> line_free b"
  by (induction b) (simp_all add: ends_line_def less_char_def)

lemma parse_response_sound:
  assumes "parse_response mx s = Done (x, r)"
  shows "\<exists>p. s = p @ r \<and> response_head mx p x"
proof -
  from assms obtain v s1 s2 st s3 m s4 msg hs where
    c: "parse_http_version s = Done (v, s1)" "hd s1 = SP" "skip_spaces s1 = Done s2"
      "parse_int_3 s2 = Done (st, s3)" "get_token_to_eol s3 = Done (m, s4)" "trim_msg m = Done msg"
      "parse_headers mx (length s - length s4) s4 [] = Done (hs, r)"
    and x: "x = \<lparr>rs_minor = v, rs_status = st, rs_msg = msg, rs_headers = hs,
      msg_ptr = length s - length s3 + (length m - length msg)\<rparr>"
    by (auto simp: parse_response_def phr_bind_Done split: if_splits)
  from c(1) obtain d where d: "s = ''HTTP/1.'' @ d # s1" "is_digit d" "v = digit_val d" "s1 \<noteq> []"
    unfolding parse_http_version_Done by blast
  from d(4) c(2) obtain q1 where q1: "s1 = SP # q1" by (cases s1) simp_all
  from c(3) q1 obtain b where b: "q1 = b @ s2" "spaces b" by (auto simp: skip_spaces_Done)
  from c(4) obtain a1 a2 a3 where a: "s2 = a1 # a2 # a3 # s3" "is_digit a1" "is_digit a2" "is_digit a3"
    "st = 100 * digit_val a1 + 10 * digit_val a2 + digit_val a3"
    unfolding parse_int_3_Done by blast
  from c(5) obtain e where e: "s3 = m @ e @ s4" "line_free m" "is_eol e"
    unfolding get_token_to_eol_Done by blast
  from c(6) obtain b2 where b2: "m = b2 @ msg" "spaces b2" "b2 = [] \<longrightarrow> msg = []"
    "\<not> starts_with (\<lambda>c. c = SP) msg"
    unfolding trim_msg_Done by blast
  from c(7) obtain hb where hb: "s4 = hb @ r" "header_block mx (length s - length s4) hb [] hs"
    unfolding parse_headers_Done by blast
  define p where "p = ''HTTP/1.'' @ [d] @ [SP] @ b @ [a1, a2, a3] @ b2 @ msg @ e @ hb"
  have "s = p @ r" unfolding p_def d q1 b a e b2 hb by simp
  moreover have "length s - length s4 = length p - length hb"
    using \<open>s = p @ r\<close> hb(1) by simp
  moreover have "length s - length s3 + (length m - length msg)
      = length (''HTTP/1.'' @ [d] @ [SP] @ b @ [a1, a2, a3] @ b2)"
    unfolding d q1 b a b2 by simp
  moreover have "line_free msg" using e(2) b2(1) by simp
  moreover have "length [a1, a2, a3] = 3" "list_all is_digit [a1, a2, a3]"
    "st = 100 * digit_val ([a1, a2, a3] ! 0) + 10 * digit_val ([a1, a2, a3] ! 1)
       + digit_val ([a1, a2, a3] ! 2)"
    using a by simp_all
  ultimately have "response_parts mx p x d b [a1, a2, a3] b2 e hb"
    unfolding response_parts_def x phr_response.simps
    using p_def d(2,3) b(2) b2(2-4) e(3) hb(2)
    by (intro conjI) (assumption | simp only:)+
  with \<open>s = p @ r\<close> show ?thesis unfolding response_head_def by blast
qed

lemma length_3_conv: "length ds = 3 \<Longrightarrow> \<exists>a b c. ds = [a, b, c]"
  by (auto simp: numeral_3_eq_3 length_Suc_conv)

lemma parse_response_complete:
  assumes "response_head mx p x"
  shows "parse_response mx (p @ r) = Done (x, r)"
proof -
  from assms obtain d b ds b2 e hb where pt: "response_parts mx p x d b ds b2 e hb"
    unfolding response_head_def by blast
  note pt = pt [unfolded response_parts_def]
  have p: "p = ''HTTP/1.'' @ [d] @ [SP] @ b @ ds @ b2 @ rs_msg x @ e @ hb"
    using pt by (rule conjunct1)
  have h: "is_digit d" "rs_minor x = digit_val d" "spaces b" "length ds = 3" "list_all is_digit ds"
      "rs_status x = 100 * digit_val (ds ! 0) + 10 * digit_val (ds ! 1) + digit_val (ds ! 2)"
      "spaces b2" "b2 = [] \<longrightarrow> rs_msg x = []" "line_free (rs_msg x)"
      "\<not> starts_with (\<lambda>c. c = SP) (rs_msg x)" "is_eol e"
    and hb: "header_block mx (length p - length hb) hb [] (rs_headers x)"
    and ptr: "msg_ptr x = length (''HTTP/1.'' @ [d] @ [SP] @ b @ ds @ b2)"
    using pt by - (elim conjE, assumption)+
  from length_3_conv [OF h(4)] obtain a1 a2 a3 where ds: "ds = [a1, a2, a3]" by blast
  define s4 where "s4 = hb @ r"
  define s3 where "s3 = (b2 @ rs_msg x) @ e @ s4"
  define s2 where "s2 = a1 # a2 # a3 # s3"
  have dg: "is_digit a1" "is_digit a2" "is_digit a3" using h(5) ds by simp_all
  have s: "p @ r = ''HTTP/1.'' @ d # SP # b @ s2" by (simp add: p s2_def s3_def s4_def ds)
  have 1: "parse_http_version (p @ r) = Done (rs_minor x, SP # b @ s2)"
    unfolding parse_http_version_Done s using h(1,2) by blast
  have "a1 \<noteq> SP" using dg(1) by (auto simp: is_digit_def less_eq_char_def)
  then have "starts_with (\<lambda>c. c \<noteq> SP) s2" unfolding s2_def by simp
  then have 2: "skip_spaces (SP # b @ s2) = Done s2" by (rule skip_spaces_run [OF h(3)])
  have 3: "parse_int_3 s2 = Done (rs_status x, s3)"
    unfolding parse_int_3_Done s2_def h(6) ds using dg
    by (intro exI [of _ a1] exI [of _ a2] exI [of _ a3]) simp
  have 4: "get_token_to_eol s3 = Done (b2 @ rs_msg x, s4)"
    unfolding get_token_to_eol_Done s3_def using h(9,11) spaces_line_free [OF h(7)]
    by (intro exI [of _ e]) simp
  have 5: "trim_msg (b2 @ rs_msg x) = Done (rs_msg x)"
    unfolding trim_msg_Done using h(7,8,10) by blast
  have "length (p @ r) - length s4 = length p - length hb" by (simp add: s4_def)
  with parse_headers_complete [OF hb]
  have 6: "parse_headers mx (length (p @ r) - length s4) s4 [] = Done (rs_headers x, r)"
    by (simp add: s4_def)
  have off: "length (p @ r) - length s3 + (length (b2 @ rs_msg x) - length (rs_msg x)) = msg_ptr x"
    unfolding s ptr by (simp add: s2_def ds)
  have "4 \<le> length s2" using eol_not_empty [OF h(11)] by (cases e) (simp_all add: s2_def s3_def)
  then show ?thesis
    unfolding parse_response_def
    by (simp only: 1 2 3 4 5 6 phr_bind_simps prod.case) (simp add: 3 4 5 6 off [simplified])
qed

lemma parse_response_Done:
  "parse_response mx s = Done (x, r) \<longleftrightarrow> (\<exists>p. s = p @ r \<and> response_head mx p x)"
  using parse_response_sound parse_response_complete by blast

section \<open>The interface of a streaming parser\<close>

text \<open>What the callers rely on when they call a parser again and again with the bytes received
  so far: it accepts exactly a set of heads, whatever follows them, and a verdict is final.\<close>

locale streaming_parser =
  fixes parse :: "bytes \<Rightarrow> ('a \<times> bytes) phr"
    and msg_head :: "bytes \<Rightarrow> 'a \<Rightarrow> bool"
  assumes accepts: "parse s = Done (x, r) \<longleftrightarrow> (\<exists>p. s = p @ r \<and> msg_head p x)"
    and head_not_empty: "msg_head p x \<Longrightarrow> p \<noteq> []"
    and parse_grows: "grows (add_more t) (parse s) (parse (s @ t))"
begin

lemma parse_head: "msg_head p x \<Longrightarrow> parse (p @ r) = Done (x, r)"
  by (auto simp: accepts)

lemma parse_append: "parse s = Done (x, r) \<Longrightarrow> parse (s @ t) = Done (x, r @ t)"
  using parse_grows [of t s] by (simp add: grows_def)

lemma parse_bad: "parse s = Bad \<Longrightarrow> parse (s @ t) = Bad"
  using parse_grows [of t s] by (simp add: grows_def)

lemma parse_partial: "parse (s @ t) = Partial \<Longrightarrow> parse s = Partial"
  using parse_grows [of t s] by (cases "parse s") (auto simp: grows_def)

text \<open>No head is a proper prefix of another.\<close>

lemma head_prefix_free: "msg_head p x \<Longrightarrow> msg_head (p @ q) y \<Longrightarrow> q = [] \<and> x = y"
  using parse_head [of p x q] parse_head [of "p @ q" y "[]"] by simp

lemma proper_prefix_partial:
  assumes "msg_head (q @ w) x" and "w \<noteq> []"
  shows "parse q = Partial"
proof (cases "parse q")
  case Bad
  then have "parse (q @ w) = Bad" by (rule parse_bad)
  with parse_head [OF assms(1), of "[]"] show ?thesis by simp
next
  case (Done y)
  then obtain x' r where "parse q = Done (x', r)" by (cases y) simp
  then have "parse (q @ w) = Done (x', r @ w)" by (rule parse_append)
  with parse_head [OF assms(1), of "[]"] assms(2) show ?thesis by simp
qed

lemma entry_Done:
  "phr_entry parse s 0 = Done (x, n) \<longleftrightarrow>
     (\<exists>p r. s = p @ r \<and> n = length p \<and> msg_head p x)"
  by (auto simp: phr_entry_def phr_bind_Done accepts)

lemma entry_Bad: "phr_entry parse s 0 = Bad \<longleftrightarrow> parse s = Bad"
  by (auto simp: phr_entry_def phr_bind_Bad)

lemma entry_Partial: "phr_entry parse s 0 = Partial \<longleftrightarrow> parse s = Partial"
  by (cases "parse s") (auto simp: phr_entry_def)

lemma entry_positive: "phr_entry parse s 0 = Done (x, n) \<Longrightarrow> 0 < n \<and> n \<le> length s"
  using head_not_empty by (auto simp: entry_Done)

lemma entry_append:
  "phr_entry parse s 0 = Done (x, n) \<Longrightarrow> phr_entry parse (s @ t) 0 = Done (x, n)"
  unfolding entry_Done by (metis append.assoc)

lemma entry_bad_append: "phr_entry parse s 0 = Bad \<Longrightarrow> phr_entry parse (s @ t) 0 = Bad"
  by (simp add: entry_Bad parse_bad)

lemma entry_prefix_partial:
  assumes "phr_entry parse s 0 = Done (x, n)" and "k < n"
  shows "phr_entry parse (take k s) 0 = Partial"
proof -
  from assms(1) obtain p r where p: "s = p @ r" "n = length p" "msg_head p x"
    unfolding entry_Done by blast
  with assms(2) have "msg_head (take k s @ drop k p) x" "drop k p \<noteq> []" by simp_all
  then show ?thesis unfolding entry_Partial by (rule proper_prefix_partial)
qed

text \<open>The verdict on a stream does not depend on how the stream arrives.\<close>

lemma entry_final:
  assumes "phr_entry parse s 0 \<noteq> Partial"
  shows "phr_entry parse (s @ t) 0 = phr_entry parse s 0"
proof (cases "phr_entry parse s 0")
  case (Done y)
  then show ?thesis using entry_append by (cases y) simp
qed (use assms entry_bad_append in simp_all)

end

interpretation rq: streaming_parser "parse_request mx" "request_head mx" for mx
proof unfold_locales
  show "request_head mx p x \<Longrightarrow> p \<noteq> []" for p x
    by (auto simp: request_head_def request_parts_def)
qed (rule parse_request_Done parse_request_grows)+

interpretation rs: streaming_parser "parse_response mx" "response_head mx" for mx
proof unfold_locales
  show "response_head mx p x \<Longrightarrow> p \<noteq> []" for p x
    by (auto simp: response_head_def response_parts_def)
qed (rule parse_response_Done parse_response_grows)+

interpretation hds: streaming_parser "\<lambda>s. parse_headers mx 0 s []" "\<lambda>p. header_block mx 0 p []"
  for mx
proof unfold_locales
  show "header_block mx 0 p [] hs \<Longrightarrow> p \<noteq> []" for p hs
    by (rule header_block_not_empty)
  show "grows (add_more t) (parse_headers mx 0 s []) (parse_headers mx 0 (s @ t) [])" for s t
    by (rule scanner_grows(9)) (rule refl)
qed (rule parse_headers_Done)

section \<open>Views\<close>

text \<open>A header whose views lie in the buffer and show clean text.\<close>

definition view_of :: "bytes \<Rightarrow> nat \<Rightarrow> nat \<Rightarrow> bytes" where
  "view_of s off n = take n (drop off s)"

definition field_ok :: "bytes \<Rightarrow> phr_header \<Rightarrow> bool" where
  "field_ok s h \<longleftrightarrow>
     value_ptr h + length (field_value h) \<le> length s
     \<and> view_of s (value_ptr h) (length (field_value h)) = field_value h
     \<and> line_free (field_value h) \<and> token (name h)
     \<and> (case name_ptr h of
          None \<Rightarrow> name h = []
        | Some j \<Rightarrow> name h \<noteq> [] \<and> j + length (name h) < length s
            \<and> view_of s j (length (name h)) = name h)"

lemma value_end_le: "value_end v n \<le> n"
  by (induction v n rule: value_end.induct) (auto simp: le_Suc_eq)

lemma trim_value_prefix: "\<exists>w. v = trim_value v @ w \<and> blanks w"
proof -
  have "n \<le> length v \<Longrightarrow> blanks (drop (value_end v n) (take n v))" for n
  proof (induction v n rule: value_end.induct)
    case (2 v n)
    then show ?case
      by (cases "is_blank (v ! n)") (simp_all add: take_Suc_conv_app_nth value_end_le blanks_def)
  qed simp
  from this [of "length v"] have "blanks (drop (value_end v (length v)) v)" by simp
  then show ?thesis unfolding trim_value_def by (metis append_take_drop_id)
qed

lemma view_of_mid: "view_of (a @ w @ b) (length a) (length w) = w"
  by (simp add: view_of_def)

lemma header_field_ok:
  assumes "header_field n (length pre) p h"
  shows "field_ok (pre @ p @ q) h"
proof -
  from assms obtain w v e where p: "p = w @ v @ e" and v: "line_free v" "is_eol e"
    and h: "value_ptr h = length pre + length w" "field_value h = trim_value v"
    and c: "if n \<noteq> 0 \<and> starts_with is_blank p
           then w = [] \<and> name_ptr h = None \<and> name h = []
           else \<exists>b. w = name h @ CHR '':'' # b \<and> name h \<noteq> [] \<and> token (name h) \<and> blanks b
                  \<and> \<not> starts_with is_blank v \<and> name_ptr h = Some (length pre)"
    unfolding header_field_def by blast
  obtain z where z: "v = trim_value v @ z" using trim_value_prefix by blast
  have s: "pre @ p @ q = (pre @ w) @ trim_value v @ (z @ e @ q)"
    using p z by (metis append.assoc)
  have "line_free (trim_value v)" using v(1) z by (metis line_free_simps(3))
  moreover have "view_of (pre @ p @ q) (value_ptr h) (length (field_value h)) = field_value h"
    unfolding s h using view_of_mid [of "pre @ w"] by simp
  moreover have "value_ptr h + length (field_value h) \<le> length (pre @ p @ q)"
    unfolding s h by simp
  moreover have "token (name h) \<and> (case name_ptr h of
          None \<Rightarrow> name h = []
        | Some j \<Rightarrow> name h \<noteq> [] \<and> j + length (name h) < length (pre @ p @ q)
            \<and> view_of (pre @ p @ q) j (length (name h)) = name h)"
  proof (cases "n \<noteq> 0 \<and> starts_with is_blank p")
    case True
    with c show ?thesis by simp
  next
    case False
    with c obtain b where w: "w = name h @ CHR '':'' # b" "name h \<noteq> []" "token (name h)"
      "name_ptr h = Some (length pre)" by (auto simp del: starts_with_append)
    then have "pre @ p @ q = pre @ name h @ (CHR '':'' # b @ v @ e @ q)" by (simp add: p)
    with w view_of_mid [of pre "name h"] show ?thesis by (simp add: p)
  qed
  ultimately show ?thesis by (simp add: field_ok_def h)
qed

lemma header_block_ok:
  "header_block mx i p hs hs' \<Longrightarrow> length hs \<le> mx \<Longrightarrow> i = length pre \<Longrightarrow>
     \<forall>h \<in> set hs. field_ok (pre @ p @ q) h \<Longrightarrow>
     length hs' \<le> mx \<and> (\<forall>h \<in> set hs'. field_ok (pre @ p @ q) h)"
proof (induction arbitrary: pre rule: header_block.induct)
  case (hb_line hs mx i p h q1 hs')
  have "field_ok (pre @ p @ q1 @ q) h"
    using hb_line(2,6) header_field_ok [of "length hs" pre p h "q1 @ q"] by simp
  with hb_line(1,4) hb_line.IH [of "pre @ p"] hb_line(5-7) show ?case by simp
qed simp

text \<open>The bytes of the view with offset \<open>off\<close> are \<open>w\<close>.\<close>

definition view_shows :: "bytes \<Rightarrow> nat \<Rightarrow> bytes \<Rightarrow> bool" where
  "view_shows s off w \<longleftrightarrow> off + length w \<le> length s \<and> view_of s off (length w) = w"

lemma view_shows_mid: "off = length a \<Longrightarrow> view_shows (a @ w @ b) off w"
  by (simp add: view_shows_def view_of_mid)

lemma request_line_views:
  assumes "request_head mx p x"
  shows "view_shows p (method_ptr x) (rq_method x) \<and> view_shows p (path_ptr x) (rq_path x)
    \<and> rq_method x \<noteq> [] \<and> token (rq_method x)
    \<and> rq_path x \<noteq> [] \<and> (\<forall>c \<in> set (rq_path x). \<not> is_ctl c \<and> c \<noteq> SP)"
proof -
  from assms obtain f b1 b2 d e hb where pt: "request_parts mx p x f b1 b2 d e hb"
    unfolding request_head_def by blast
  note pt = pt [unfolded request_parts_def]
  have m: "p = f @ rq_method x @ ([SP] @ b1 @ rq_path x @ [SP] @ b2 @ ''HTTP/1.'' @ [d] @ e @ hb)"
    using pt by (rule conjunct1)
  then have a: "p = (f @ rq_method x @ [SP] @ b1) @ rq_path x @ ([SP] @ b2 @ ''HTTP/1.'' @ [d] @ e @ hb)"
    by simp
  have "method_ptr x = length f" using pt by - (elim conjE, assumption)
  then have "view_shows p (method_ptr x) (rq_method x)" by (subst m) (rule view_shows_mid)
  moreover have "path_ptr x = length (f @ rq_method x @ [SP] @ b1)" using pt by - (elim conjE, assumption)
  then have "view_shows p (path_ptr x) (rq_path x)" by (subst a) (rule view_shows_mid)
  moreover have "rq_method x \<noteq> []" "token (rq_method x)" "rq_path x \<noteq> []"
    "\<forall>c \<in> set (rq_path x). \<not> is_ctl c \<and> c \<noteq> SP"
    using pt by - (elim conjE, assumption)+
  ultimately show ?thesis by blast
qed

lemma request_head_views:
  assumes "request_head mx p x"
  shows "length (rq_headers x) \<le> mx \<and> (\<forall>h \<in> set (rq_headers x). field_ok p h)"
proof -
  from assms obtain f b1 b2 d e hb where pt: "request_parts mx p x f b1 b2 d e hb"
    unfolding request_head_def by blast
  note pt = pt [unfolded request_parts_def]
  let ?pre = "f @ rq_method x @ [SP] @ b1 @ rq_path x @ [SP] @ b2 @ ''HTTP/1.'' @ [d] @ e"
  have e: "p = ?pre @ hb" using pt by simp
  have "header_block mx (length p - length hb) hb [] (rq_headers x)"
    using pt by - (elim conjE, assumption)
  moreover have "length p - length hb = length ?pre" using e by simp
  ultimately have "header_block mx (length ?pre) hb [] (rq_headers x)" by simp
  from header_block_ok [OF this _ refl, of "[]"]
  have "length (rq_headers x) \<le> mx \<and> (\<forall>h \<in> set (rq_headers x). field_ok (?pre @ hb) h)" by simp
  then show ?thesis unfolding e [symmetric] .
qed

lemma response_line_view:
  assumes "response_head mx p x"
  shows "view_shows p (msg_ptr x) (rs_msg x) \<and> line_free (rs_msg x)"
proof -
  from assms obtain d b ds b2 e hb where pt: "response_parts mx p x d b ds b2 e hb"
    unfolding response_head_def by blast
  note pt = pt [unfolded response_parts_def]
  have "p = ''HTTP/1.'' @ [d] @ [SP] @ b @ ds @ b2 @ rs_msg x @ e @ hb" using pt by (rule conjunct1)
  then have p: "p = (''HTTP/1.'' @ [d] @ [SP] @ b @ ds @ b2) @ rs_msg x @ (e @ hb)" by simp
  have "msg_ptr x = length (''HTTP/1.'' @ [d] @ [SP] @ b @ ds @ b2)" using pt by - (elim conjE, assumption)
  then have "view_shows p (msg_ptr x) (rs_msg x)" by (subst p) (rule view_shows_mid)
  moreover have "line_free (rs_msg x)" using pt by - (elim conjE, assumption)
  ultimately show ?thesis by blast
qed

section \<open>Rendered heads\<close>

text \<open>Header lines as clients and servers write them.\<close>

definition render_field :: "bytes \<times> bytes \<Rightarrow> bytes" where
  "render_field f = fst f @ '': '' @ snd f @ crlf"

definition render_fields :: "(bytes \<times> bytes) list \<Rightarrow> bytes" where
  "render_fields fs = concat (map render_field fs) @ crlf"

definition clean_field :: "bytes \<times> bytes \<Rightarrow> bool" where
  "clean_field f \<longleftrightarrow> fst f \<noteq> [] \<and> token (fst f) \<and> line_free (snd f)
     \<and> \<not> starts_with is_blank (snd f) \<and> (snd f \<noteq> [] \<longrightarrow> \<not> is_blank (last (snd f)))"

fun fields_at :: "nat \<Rightarrow> (bytes \<times> bytes) list \<Rightarrow> phr_header list" where
  "fields_at i [] = []"
| "fields_at i (f # fs) =
     \<lparr>name_ptr = Some i, name = fst f, value_ptr = i + length (fst f) + 2, field_value = snd f\<rparr>
     # fields_at (i + length (render_field f)) fs"

lemma is_eol_crlf [simp]: "is_eol crlf"
  by (simp add: is_eol_def crlf_def)

lemma value_end_id: "v \<noteq> [] \<longrightarrow> \<not> is_blank (last v) \<Longrightarrow> trim_value v = v"
  by (cases v rule: rev_cases) (simp_all add: trim_value_def)

lemma blank_SP [simp]: "is_blank SP"
  by (simp add: is_blank_def)

lemma clean_field_line:
  assumes "clean_field f"
  shows "header_field n i (render_field f)
    \<lparr>name_ptr = Some i, name = fst f, value_ptr = i + length (fst f) + 2, field_value = snd f\<rparr>"
proof -
  obtain c cs where c: "fst f = c # cs" "is_token_char c"
    using assms by (cases "fst f") (simp_all add: clean_field_def)
  then have s: "\<not> starts_with is_blank (render_field f)"
    using blank_not_token by (auto simp: render_field_def)
  show ?thesis
    using assms s value_end_id [of "snd f"]
    unfolding header_field_def
    by (intro exI [of _ "fst f @ '': ''"] exI [of _ "snd f"] exI [of _ crlf])
      (simp add: clean_field_def render_field_def del: starts_with_append)
qed

lemma render_fields_block:
  "\<forall>f \<in> set fs. clean_field f \<Longrightarrow> length hs + length fs \<le> mx \<Longrightarrow>
     header_block mx i (render_fields fs) hs (hs @ fields_at i fs)"
proof (induction fs arbitrary: i hs)
  case Nil
  then show ?case by (simp add: render_fields_def hb_end)
next
  case (Cons f fs)
  let ?h = "\<lparr>name_ptr = Some i, name = fst f, value_ptr = i + length (fst f) + 2,
      field_value = snd f\<rparr>"
  have "header_field (length hs) i (render_field f) ?h"
    using Cons.prems(1) by (intro clean_field_line) simp
  moreover have "header_block mx (i + length (render_field f)) (render_fields fs) (hs @ [?h])
      ((hs @ [?h]) @ fields_at (i + length (render_field f)) fs)"
    using Cons.IH [of "hs @ [?h]" "i + length (render_field f)"] Cons.prems by simp
  ultimately have "header_block mx i (render_field f @ render_fields fs) hs
      ((hs @ [?h]) @ fields_at (i + length (render_field f)) fs)"
    using Cons.prems(2) by (intro hb_line) simp_all
  then show ?case by (simp add: render_fields_def)
qed

definition render_request :: "bytes \<Rightarrow> bytes \<Rightarrow> (bytes \<times> bytes) list \<Rightarrow> bytes" where
  "render_request method path fs =
     method @ [SP] @ path @ '' HTTP/1.1'' @ crlf @ render_fields fs"

definition clean_path :: "bytes \<Rightarrow> bool" where
  "clean_path w \<longleftrightarrow> w \<noteq> [] \<and> (\<forall>c \<in> set w. \<not> is_ctl c \<and> c \<noteq> SP)"

lemma is_digit_numerals:
  "is_digit CHR ''1''" "digit_val CHR ''1'' = 1"
  by (simp_all add: is_digit_def digit_val_def less_eq_char_def)

lemma render_request_head:
  assumes "method \<noteq> []" and "token method" and "clean_path path"
    and "\<forall>f \<in> set fs. clean_field f" and "length fs \<le> mx"
  shows "request_head mx (render_request method path fs)
    \<lparr>rq_method = method, rq_path = path, rq_minor = 1,
     rq_headers = fields_at (length method + length path + 12) fs, method_ptr = 0, path_ptr = length method + 1\<rparr>"
proof -
  have "header_block mx (length method + length path + 12) (render_fields fs) []
      ([] @ fields_at (length method + length path + 12) fs)"
    by (rule render_fields_block) (use assms(4,5) in simp_all)
  then have "request_parts mx (render_request method path fs)
    \<lparr>rq_method = method, rq_path = path, rq_minor = 1,
     rq_headers = fields_at (length method + length path + 12) fs, method_ptr = 0, path_ptr = length method + 1\<rparr>
     [] [] [] CHR ''1'' crlf (render_fields fs)"
    unfolding request_parts_def
    using assms(1-3)
    by (simp add: render_request_def clean_path_def is_digit_numerals is_eol_def crlf_def add.commute
        add.left_commute)
  then show ?thesis unfolding request_head_def by blast
qed

section \<open>Properties\<close>

text \<open>
  The line scanner's loop over eight bytes at a time, which leaves the loop at the first
  byte that is not printable and re-enters it after a tab or a byte above 127, finds what
  the plain loop finds: the first byte that is a control byte other than HT.
\<close>

theorem unrolled_scan:
  "find_eol s = (case dropWhile (\<lambda>c. \<not> ends_line c) s of [] \<Rightarrow> None | c # cs \<Rightarrow> Some (c # cs))"
proof -
  have "eol_slow s = (case dropWhile (\<lambda>c. \<not> ends_line c) s of [] \<Rightarrow> None | c # cs \<Rightarrow> Some (c # cs))"
    by (induction s) (simp_all add: ends_line_not_printable)
  then show ?thesis by (simp add: find_eol_eq_slow)
qed

text \<open>
  C17. \<open>phr_parse_request\<close> succeeds exactly on the byte strings that begin with a request head
  of the grammar, returns the head's length, and the request it reports is the one the
  grammar gives to these bytes: method, path, minor version and headers, at most
  \<open>max_headers\<close> of them.
\<close>

theorem request_grammar:
  "phr_parse_request mx s 0 = Done (x, n) \<longleftrightarrow>
     (\<exists>p r. s = p @ r \<and> n = length p \<and> request_head mx p x)"
  unfolding phr_parse_request_def by (rule rq.entry_Done)

text \<open>
  \<open>phr_parse_response\<close> succeeds exactly on the byte strings that begin with a response
  head of the grammar, and reports its status, reason phrase and headers.
\<close>

theorem response_grammar:
  "phr_parse_response mx s 0 = Done (x, n) \<longleftrightarrow>
     (\<exists>p r. s = p @ r \<and> n = length p \<and> response_head mx p x)"
  unfolding phr_parse_response_def by (rule rs.entry_Done)

text \<open>
  C32. Neither success nor failure of \<open>phr_parse_request\<close> is ever revised by bytes that come
  later, and a request head is recognised at the moment its last byte arrives: on every
  shorter piece of the stream the answer is ``partial''.
\<close>

theorem request_streaming:
  assumes "phr_parse_request mx s 0 = v" and "v \<noteq> Partial"
  shows "phr_parse_request mx (s @ t) 0 = v
    \<and> (\<forall>x n. v = Done (x, n) \<longrightarrow>
         0 < n \<and> n \<le> length s \<and> (\<forall>k < n. phr_parse_request mx (take k s) 0 = Partial))"
  using assms rq.entry_final [of mx s t] rq.entry_positive [of mx s] rq.entry_prefix_partial [of mx s]
  unfolding phr_parse_request_def by auto

theorem request_streaming_witness:
  "phr_parse_request 4 (''GET / HTTP/1.1'' @ [LF, LF] @ ''x'') 0
     = Done (\<lparr>rq_method = ''GET'', rq_path = ''/'', rq_minor = 1, rq_headers = [],
           method_ptr = 0, path_ptr = 4\<rparr>, 16)
   \<and> phr_parse_request 4 ''GET / HTT'' 0 = Partial"
proof -
  have d: "phr_parse_request 4 (''GET / HTTP/1.1'' @ [LF, LF]) 0
     = Done (\<lparr>rq_method = ''GET'', rq_path = ''/'', rq_minor = 1, rq_headers = [],
           method_ptr = 0, path_ptr = 4\<rparr>, 16)"
    by code_simp
  have e: "take 9 (''GET / HTTP/1.1'' @ [LF, LF]) = ''GET / HTT''" by simp
  have "(9 :: nat) < 16" by simp
  with request_streaming [OF d, of "''x''"] show ?thesis unfolding e [symmetric]
    by (simp only: append.assoc phr.distinct not_False_eq_True simp_thms)
qed

text \<open>
  C36. Memory safety of the result: the method, the path and every header name and value that
  \<open>phr_parse_request\<close> stores are views that lie inside the part of the buffer it reports as
  consumed and show the bytes of that part; the method and path are not empty, the method is a token, the path
  has no control byte and no space; there are at most \<open>max_headers\<close> headers, and no name or value contains
  CR, LF or another control byte except HT, so a header cannot smuggle a second line.
\<close>

theorem request_views:
  assumes "phr_parse_request mx s 0 = Done (x, n)"
  shows "view_shows (take n s) (method_ptr x) (rq_method x) \<and> view_shows (take n s) (path_ptr x) (rq_path x)
    \<and> rq_method x \<noteq> [] \<and> token (rq_method x)
    \<and> rq_path x \<noteq> [] \<and> (\<forall>c \<in> set (rq_path x). \<not> is_ctl c \<and> c \<noteq> SP)
    \<and> length (rq_headers x) \<le> mx \<and> (\<forall>h \<in> set (rq_headers x). field_ok (take n s) h)"
proof -
  from assms obtain p r where "s = p @ r" "n = length p" "request_head mx p x"
    unfolding phr_parse_request_def rq.entry_Done by blast
  with request_line_views request_head_views show ?thesis by simp
qed

theorem request_views_witness:
  "view_shows (LF # ''GET  / HTTP/1.1'' @ [LF] @ ''a: b'' @ [LF, LF]) 6 ''/''
   \<and> field_ok (LF # ''GET  / HTTP/1.1'' @ [LF] @ ''a: b'' @ [LF, LF])
       \<lparr>name_ptr = Some 17, name = ''a'', value_ptr = 20, field_value = ''b''\<rparr>"
proof -
  have d: "phr_parse_request 4 (LF # ''GET  / HTTP/1.1'' @ [LF] @ ''a: b'' @ [LF, LF]) 0
     = Done (\<lparr>rq_method = ''GET'', rq_path = ''/'', rq_minor = 1, rq_headers =
         [\<lparr>name_ptr = Some 17, name = ''a'', value_ptr = 20, field_value = ''b''\<rparr>],
         method_ptr = 1, path_ptr = 6\<rparr>, 23)"
    by code_simp
  from request_views [OF d] show ?thesis by simp
qed

text \<open>
  C37. Round trip: a request written with any method token, path and list of clean header
  fields, followed by anything, is parsed back to the same method, path and fields, and the
  parser consumes exactly the bytes written.
\<close>

theorem request_roundtrip:
  assumes "method \<noteq> []" and "token method" and "clean_path path"
    and "\<forall>f \<in> set fs. clean_field f" and "length fs \<le> mx"
  shows "\<exists>hs. phr_parse_request mx (render_request method path fs @ rest) 0
      = Done (\<lparr>rq_method = method, rq_path = path, rq_minor = 1, rq_headers = hs,
             method_ptr = 0, path_ptr = length method + 1\<rparr>,
              length (render_request method path fs))
    \<and> map (\<lambda>h. (name h, field_value h)) hs = fs"
proof -
  have "map (\<lambda>h. (name h, field_value h)) (fields_at i fs) = fs" for i
    by (induction fs arbitrary: i) simp_all
  moreover have "phr_parse_request mx (render_request method path fs @ rest) 0
      = Done (\<lparr>rq_method = method, rq_path = path, rq_minor = 1,
          rq_headers = fields_at (length method + length path + 12) fs, method_ptr = 0, path_ptr = length method + 1\<rparr>,
          length (render_request method path fs))"
    unfolding phr_parse_request_def rq.entry_Done using render_request_head [OF assms] by blast
  ultimately show ?thesis by blast
qed

theorem request_roundtrip_witness:
  "\<exists>hs. phr_parse_request 100 (render_request ''GET'' ''/'' [(''Host'', ''a'')] @ ''rest'') 0
      = Done (\<lparr>rq_method = ''GET'', rq_path = ''/'', rq_minor = 1, rq_headers = hs,
             method_ptr = 0, path_ptr = length ''GET'' + 1\<rparr>,
              length (render_request ''GET'' ''/'' [(''Host'', ''a'')]))
    \<and> map (\<lambda>h. (name h, field_value h)) hs = [(''Host'', ''a'')]"
proof (rule request_roundtrip)
  show "token ''GET''" by code_simp
  show "clean_path ''/''" by code_simp
  show "\<forall>f \<in> set [(''Host'', ''a'')]. clean_field f" by code_simp
qed simp_all

end
