(* ===== verification/Pico_Sse.thy ===== *)
theory Pico_Sse
  imports Pico_Http
begin

text \<open>
  The SSE4.2 build of \<^verbatim>\<open>Http/picohttpparser.c\<close>: \<open>findchar_fast\<close> compares sixteen bytes at a time with up
  to eight ranges of characters, and the three scanners that call it go on byte by byte from
  where it stops. They give the same results as the scanners of \<open>Pico_Lexer\<close>, the other build.

  The instruction \<open>pcmpestri\<close>, in the mode \<open>LEAST_SIGNIFICANT | CMP_RANGES | UBYTE_OPS\<close>, is the
  parameter \<open>cmpestri\<close> of the scanners.
\<close>

section \<open>The instruction\<close>

text \<open>The first operand is read as pairs of bounds, both included.\<close>

fun in_ranges :: "bytes \<Rightarrow> char \<Rightarrow> bool" where
  "in_ranges (lo # hi # rs) c \<longleftrightarrow> lo \<le> c \<and> c \<le> hi \<or> in_ranges rs c"
| "in_ranges _ c \<longleftrightarrow> False"

text \<open>
  The documented result on registers of sixteen bytes: the index of the first byte in one of the
  ranges, or 16.
\<close>

definition range_compare :: "(bytes \<Rightarrow> bytes \<Rightarrow> nat) \<Rightarrow> bool" where
  "range_compare cmpestri \<longleftrightarrow> (\<forall>ranges b16. length ranges \<le> 16 \<longrightarrow> length b16 = 16 \<longrightarrow>
     cmpestri ranges b16 = length (takeWhile (\<lambda>c. \<not> in_ranges ranges c) b16))"

section \<open>The scanners of this build\<close>

text \<open>
  The loop over blocks: \<open>left\<close> is a multiple of sixteen. The result tells whether a byte was found, and
  the cursor.
\<close>

function findchar_loop :: "(bytes \<Rightarrow> bytes \<Rightarrow> nat) \<Rightarrow> bytes \<Rightarrow> nat \<Rightarrow> bytes \<Rightarrow> bool \<times> bytes" where
  "findchar_loop cmpestri ranges left s =
     (let r = cmpestri ranges (take 16 s) in
      if r \<noteq> 16 then (True, drop r s)
      else
        let s1 = drop 16 s; left1 = left - 16
        in if left1 \<noteq> 0 then findchar_loop cmpestri ranges left1 s1 else (False, s1))"
  by auto
termination by (relation "measure (\<lambda>(_, _, left, _). left)") auto

declare findchar_loop.simps [simp del]

definition findchar_fast :: "(bytes \<Rightarrow> bytes \<Rightarrow> nat) \<Rightarrow> bytes \<Rightarrow> bytes \<Rightarrow> bool \<times> bytes" where
  "findchar_fast cmpestri ranges s =
     (if 16 \<le> length s then findchar_loop cmpestri ranges (16 * (length s div 16)) s else (False, s))"

definition ranges1 :: bytes where
  "ranges1 = [CHR 0x00, CHR 0x08, CHR 0x0A, CHR 0x1F, CHR 0x7F, CHR 0x7F]"

definition ranges2 :: bytes where
  "ranges2 = [CHR 0x00, CHR 0x20, CHR 0x7F, CHR 0x7F]"

definition token_ranges :: bytes where
  "token_ranges = [CHR 0x00, CHR 0x20, CHR 0x22, CHR 0x22, CHR ''('', CHR '')'', CHR '','', CHR '','',
     CHR ''/'', CHR ''/'', CHR '':'', CHR ''@'', CHR ''['', CHR '']'', CHR ''{'', CHR 0xFF]"

definition sse_find_eol :: "(bytes \<Rightarrow> bytes \<Rightarrow> nat) \<Rightarrow> bytes \<Rightarrow> bytes option" where
  "sse_find_eol cmpestri s =
     (case findchar_fast cmpestri ranges1 s of (found, r) \<Rightarrow> if found then Some r else eol_slow r)"

definition sse_get_token_to_eol :: "(bytes \<Rightarrow> bytes \<Rightarrow> nat) \<Rightarrow> bytes \<Rightarrow> (bytes \<times> bytes) phr" where
  "sse_get_token_to_eol cmpestri s =
     (case sse_find_eol cmpestri s of
        None \<Rightarrow> Partial
      | Some r \<Rightarrow>
          if hd r = CR then
            (case tl r of
               [] \<Rightarrow> Partial
             | d # ds \<Rightarrow> if d = LF then Done (upto s r, ds) else Bad)
          else if hd r = LF then Done (upto s r, tl r)
          else Bad)"

text \<open>\<open>CHECK_EOF\<close> is skipped when a byte was found; the loop then reads it.\<close>

definition sse_scan :: "(bytes \<Rightarrow> bytes \<Rightarrow> nat) \<Rightarrow> bytes \<Rightarrow> (bytes \<Rightarrow> bytes phr) \<Rightarrow> bytes \<Rightarrow> (bytes \<times> bytes) phr" where
  "sse_scan cmpestri ranges slow s =
     (case findchar_fast cmpestri ranges s of (found, r) \<Rightarrow>
        if \<not> found \<and> r = [] then Partial
        else phr_bind (slow r) (\<lambda>r'. Done (upto s r', r')))"

definition sse_parse_token :: "(bytes \<Rightarrow> bytes \<Rightarrow> nat) \<Rightarrow> char \<Rightarrow> bytes \<Rightarrow> (bytes \<times> bytes) phr" where
  "sse_parse_token cmpestri next_char s = sse_scan cmpestri token_ranges (token_scan next_char) s"

definition sse_advance_token :: "(bytes \<Rightarrow> bytes \<Rightarrow> nat) \<Rightarrow> bytes \<Rightarrow> (bytes \<times> bytes) phr" where
  "sse_advance_token cmpestri s = sse_scan cmpestri ranges2 advance_scan s"

section \<open>What the fast scan skips\<close>

lemma block_result:
  "range_compare cmpestri \<Longrightarrow> length ranges \<le> 16 \<Longrightarrow> 16 \<le> length s \<Longrightarrow>
     cmpestri ranges (take 16 s) = length (takeWhile (\<lambda>c. \<not> in_ranges ranges c) (take 16 s))"
  by (simp add: range_compare_def)

lemma takeWhile_block:
  assumes "length (takeWhile P (take n s)) < n" and "n \<le> length s"
  shows "take (length (takeWhile P (take n s))) s = takeWhile P (take n s)"
    and "drop (length (takeWhile P (take n s))) s \<noteq> []"
    and "\<not> P (hd (drop (length (takeWhile P (take n s))) s))"
proof -
  let ?k = "length (takeWhile P (take n s))"
  have "take ?k s = take ?k (take n s)" using assms(1) by simp
  also have "\<dots> = takeWhile P (take n s)" by (rule takeWhile_eq_take [symmetric])
  finally show "take ?k s = takeWhile P (take n s)" .
  show "drop ?k s \<noteq> []" using assms by simp
  have "\<not> P (take n s ! ?k)" using nth_length_takeWhile [of P "take n s"] assms by simp
  then show "\<not> P (hd (drop ?k s))" using assms by (simp add: hd_drop_conv_nth)
qed

text \<open>A block without a hit, and one with a hit.\<close>

lemma block_clean:
  assumes "range_compare cmpestri" "length ranges \<le> 16" "16 \<le> length s" "cmpestri ranges (take 16 s) = 16"
  shows "\<forall>c \<in> set (take 16 s). \<not> in_ranges ranges c"
proof -
  have "length (takeWhile (\<lambda>c. \<not> in_ranges ranges c) (take 16 s)) = length (take 16 s)"
    using block_result [OF assms(1-3)] assms(3,4) by simp
  then have "takeWhile (\<lambda>c. \<not> in_ranges ranges c) (take 16 s) = take 16 s"
    by (metis takeWhile_eq_take take_all_iff order_refl)
  then show ?thesis by (simp add: takeWhile_eq_all_conv)
qed

lemma block_hit:
  assumes "range_compare cmpestri" "length ranges \<le> 16" "16 \<le> length s" "cmpestri ranges (take 16 s) = r" "r \<noteq> 16"
  shows "(\<forall>c \<in> set (take r s). \<not> in_ranges ranges c) \<and> drop r s \<noteq> [] \<and> in_ranges ranges (hd (drop r s))"
proof -
  let ?P = "\<lambda>c. \<not> in_ranges ranges c"
  have r: "r = length (takeWhile ?P (take 16 s))" using block_result [OF assms(1-3)] assms(4) by simp
  then have "r < 16" using assms(3,5) length_takeWhile_le [of ?P "take 16 s"] by simp
  then have "length (takeWhile ?P (take 16 s)) < 16" using r by simp
  from takeWhile_block [OF this assms(3)] show ?thesis unfolding r by (auto dest: set_takeWhileD)
qed

lemma findchar_loop_step:
  "findchar_loop cmpestri ranges (16 * Suc n) s =
     (if cmpestri ranges (take 16 s) \<noteq> 16 then (True, drop (cmpestri ranges (take 16 s)) s)
      else if n \<noteq> 0 then findchar_loop cmpestri ranges (16 * n) (drop 16 s) else (False, drop 16 s))"
  by (simp add: findchar_loop.simps [of _ _ "16 + 16 * n"] Let_def)

lemma findchar_loop_skips:
  assumes c: "range_compare cmpestri" "length ranges \<le> 16"
  shows "16 * Suc k \<le> length s \<Longrightarrow> findchar_loop cmpestri ranges (16 * Suc k) s = (found, r) \<Longrightarrow>
    \<exists>p. s = p @ r \<and> (\<forall>x \<in> set p. \<not> in_ranges ranges x) \<and> (found \<longrightarrow> r \<noteq> [] \<and> in_ranges ranges (hd r))"
proof (induction k arbitrary: s)
  case (0 s)
  then have n: "16 \<le> length s" by simp
  show ?case
  proof (cases "cmpestri ranges (take 16 s) = 16")
    case True
    with 0 block_clean [OF c n True] show ?thesis
      by (intro exI [of _ "take 16 s"]) (auto simp: findchar_loop_step simp del: mult_Suc_right)
  next
    case False
    with 0 block_hit [OF c n refl False] show ?thesis
      by (intro exI [of _ "take (cmpestri ranges (take 16 s)) s"])
        (auto simp: findchar_loop_step simp del: mult_Suc_right)
  qed
next
  case (Suc k)
  then have n: "16 \<le> length s" by simp
  show ?case
  proof (cases "cmpestri ranges (take 16 s) = 16")
    case True
    with Suc.prems have "findchar_loop cmpestri ranges (16 * Suc k) (drop 16 s) = (found, r)" "16 * Suc k \<le> length (drop 16 s)"
      by (simp_all add: findchar_loop_step [of _ _ "Suc k"] del: mult_Suc_right) simp_all
    from Suc.IH [OF this(2,1)] obtain p where p: "drop 16 s = p @ r" "\<forall>x \<in> set p. \<not> in_ranges ranges x"
      "found \<longrightarrow> r \<noteq> [] \<and> in_ranges ranges (hd r)" by blast
    have "s = (take 16 s @ p) @ r" using p(1) append_take_drop_id [of 16 s] by simp
    with p(2,3) block_clean [OF c n True] show ?thesis by (intro exI [of _ "take 16 s @ p"]) auto
  next
    case False
    with Suc.prems block_hit [OF c n refl False] show ?thesis
      by (intro exI [of _ "take (cmpestri ranges (take 16 s)) s"])
        (auto simp: findchar_loop_step simp del: mult_Suc_right)
  qed
qed

lemma findchar_fast_skips:
  assumes c: "range_compare cmpestri" "length ranges \<le> 16" and f: "findchar_fast cmpestri ranges s = (found, r)"
  shows "\<exists>p. s = p @ r \<and> (\<forall>x \<in> set p. \<not> in_ranges ranges x) \<and> (found \<longrightarrow> r \<noteq> [] \<and> in_ranges ranges (hd r))"
proof (cases "16 \<le> length s")
  case True
  then obtain k where k: "length s div 16 = Suc k" by (cases "length s div 16") auto
  then have "16 * Suc k \<le> length s" by (metis times_div_less_eq_dividend)
  moreover have "findchar_loop cmpestri ranges (16 * Suc k) s = (found, r)"
    using f True k by (simp add: findchar_fast_def)
  ultimately show ?thesis by (rule findchar_loop_skips [OF c])
next
  case False
  with f show ?thesis by (auto simp: findchar_fast_def)
qed

section \<open>The ranges\<close>

lemma char_range: "lo \<le> c \<and> c \<le> hi \<longleftrightarrow> of_char lo \<le> (of_char c :: nat) \<and> of_char c \<le> (of_char hi :: nat)"
  by (simp add: less_eq_char_def)

lemma ranges1_lines: "in_ranges ranges1 c \<longleftrightarrow> ends_line c"
proof -
  have "c = DEL \<longleftrightarrow> of_char c = (of_char DEL :: nat)" "c = HTAB \<longleftrightarrow> of_char c = (of_char HTAB :: nat)"
    by (simp_all only: of_char_eq_iff)
  then show ?thesis by (auto simp: ranges1_def char_range ends_line_def less_char_def)
qed

lemma ranges2_words: "in_ranges ranges2 c \<longleftrightarrow> is_ctl c \<or> c = SP"
proof -
  have "c = SP \<longleftrightarrow> of_char c = (of_char SP :: nat)" by (simp only: of_char_eq_iff)
  then show ?thesis by (auto simp: ranges2_def char_range ctl_range)
qed

text \<open>Outside the eight ranges are only token characters (\<^verbatim>\<open>|\<close> and \<^verbatim>\<open>~\<close> are token characters within them).\<close>

definition outside_ranges :: "nat list" where
  "outside_ranges = [33, 35, 36, 37, 38, 39, 42, 43, 45, 46] @ [48..<58] @ [65..<91] @ [94..<123]"

lemma outside_token_ranges: "\<forall>n \<in> set outside_ranges. token_char_map ! n \<noteq> 0"
  by code_simp

lemma token_ranges_tokens: "\<not> in_ranges token_ranges c \<Longrightarrow> is_token_char c"
proof -
  assume "\<not> in_ranges token_ranges c"
  then have "(of_char c :: nat) \<in> set outside_ranges"
    using of_char_lt_256 [of c] by (simp add: token_ranges_def char_range outside_ranges_def) presburger
  with outside_token_ranges have "token_char_map ! of_char c \<noteq> 0" by blast
  then show ?thesis by (simp add: is_token_char_def)
qed

section \<open>The two builds agree\<close>

lemma sse_scan_slow:
  assumes c: "range_compare cmpestri" "length ranges \<le> 16" and nil: "slow [] = Partial"
    and skip: "\<And>c cs. \<not> in_ranges ranges c \<Longrightarrow> slow (c # cs) = slow cs"
  shows "sse_scan cmpestri ranges slow s = phr_bind (slow s) (\<lambda>r. Done (upto s r, r))"
proof -
  obtain found r where f: "findchar_fast cmpestri ranges s = (found, r)" by fastforce
  from findchar_fast_skips [OF c f] obtain p where p: "s = p @ r" "\<forall>x \<in> set p. \<not> in_ranges ranges x"
    "found \<longrightarrow> r \<noteq> []" by blast
  have "slow (p @ r) = slow r" using p(2) by (induction p) (simp_all add: skip)
  with f p(1,3) nil show ?thesis by (auto simp: sse_scan_def)
qed

lemma sse_find_eol_eq: "range_compare cmpestri \<Longrightarrow> sse_find_eol cmpestri s = find_eol s"
proof -
  assume c: "range_compare cmpestri"
  obtain found r where f: "findchar_fast cmpestri ranges1 s = (found, r)" by fastforce
  from findchar_fast_skips [OF c _ f] obtain p where p: "s = p @ r" "line_free p"
    "found \<longrightarrow> r \<noteq> [] \<and> ends_line (hd r)" by (auto simp: ranges1_lines line_free_def) (auto simp: ranges1_def)
  have "eol_slow s = eol_slow r" unfolding p(1) by (rule eol_slow_skip [OF p(2)])
  moreover have "eol_slow r = Some r" if found using that p(3) eol_slow_stop by (cases r) auto
  ultimately show ?thesis using f by (simp add: sse_find_eol_def find_eol_eq_slow)
qed

section \<open>Properties\<close>

text \<open>C33. The build with SSE4.2 and the build without it parse alike: where the instruction does what its
  documentation says, the three scanners that use it (to the end of a line, over a token that ends in a space or
  a colon, over the request target) return what the scanners of the other build return, with the same
  bytes and the same cursor, for every input.\<close>

theorem sse_builds_agree:
  assumes "range_compare cmpestri" and "next_char = SP \<or> next_char = CHR '':''"
  shows "sse_get_token_to_eol cmpestri s = get_token_to_eol s
    \<and> sse_parse_token cmpestri next_char s = parse_token next_char s
    \<and> sse_advance_token cmpestri s = advance_token s"
proof (intro conjI)
  show "sse_get_token_to_eol cmpestri s = get_token_to_eol s"
    by (simp add: sse_get_token_to_eol_def get_token_to_eol_def sse_find_eol_eq [OF assms(1)])
  have "in_ranges token_ranges next_char" using assms(2) by (auto simp: token_ranges_def char_range)
  then have "token_scan next_char (c # cs) = token_scan next_char cs" if "\<not> in_ranges token_ranges c" for c cs
    using that token_ranges_tokens [OF that] by auto
  then show "sse_parse_token cmpestri next_char s = parse_token next_char s"
    unfolding sse_parse_token_def parse_token_def
    by (intro sse_scan_slow [OF assms(1)]) (simp_all add: token_ranges_def)
  have "advance_scan (c # cs) = advance_scan cs" if "\<not> in_ranges ranges2 c" for c cs
    using that by (simp add: ranges2_words)
  then show "sse_advance_token cmpestri s = advance_token s"
    unfolding sse_advance_token_def advance_token_def
    by (intro sse_scan_slow [OF assms(1)]) (simp_all add: ranges2_def)
qed

definition pcmpestri :: "bytes \<Rightarrow> bytes \<Rightarrow> nat" where
  "pcmpestri ranges b16 = length (takeWhile (\<lambda>c. \<not> in_ranges ranges c) b16)"

lemma pcmpestri_compares: "range_compare pcmpestri"
  by (simp add: range_compare_def pcmpestri_def)

theorem sse_builds_agree_witness:
  "sse_get_token_to_eol pcmpestri (''a value of more than 16 bytes'' @ [CR, LF, CHR ''x''])
     = Done (''a value of more than 16 bytes'', ''x'')
   \<and> sse_parse_token pcmpestri CHR '':'' ''Content-Length-Or-Type: 21'' = Done (''Content-Length-Or-Type'', '': 21'')
   \<and> sse_advance_token pcmpestri ''/index.html?q=12345 HTTP/1.1'' = Done (''/index.html?q=12345'', '' HTTP/1.1'')"
proof -
  note eq = sse_builds_agree [OF pcmpestri_compares, of "CHR '':''"]
  have "get_token_to_eol (''a value of more than 16 bytes'' @ [CR, LF, CHR ''x''])
     = Done (''a value of more than 16 bytes'', ''x'')" by code_simp
  moreover have "parse_token CHR '':'' ''Content-Length-Or-Type: 21'' = Done (''Content-Length-Or-Type'', '': 21'')"
    by code_simp
  moreover have "advance_token ''/index.html?q=12345 HTTP/1.1'' = Done (''/index.html?q=12345'', '' HTTP/1.1'')"
    by code_simp
  ultimately show ?thesis using eq by simp
qed

end
