(* ===== verification/Http_Parser.thy ===== *)
theory Http_Parser
  imports Byte_Buffer Pico_Http
begin

text \<open>
  \<open>HttpParser\<close> of \<^verbatim>\<open>Http/HttpParser.h\<close> and \<^verbatim>\<open>Http/HttpParser.cc\<close>: the state machine that
  finds the boundaries of HTTP messages in a connection's input buffer. It calls
  \<open>phr_parse_request\<close> and \<open>phr_parse_response\<close> with room for 100 headers and \<open>last_len = 0\<close>,
  looks for \<open>Content-Length\<close> and \<open>Transfer-Encoding\<close>, and counts the body bytes its caller
  consumes.

  The request keeps \<open>std::string_view\<close>s of its headers: a view is an offset into the storage of
  the buffer and a length, and means what the storage holds when it is read.
\<close>

section \<open>State\<close>

type_synonym view = "nat \<times> nat"

definition read_view :: "buffer \<Rightarrow> view \<Rightarrow> bytes" where
  "read_view b v = take (snd v) (drop (fst v) (storage b))"

record http_request =
  req_method :: bytes
  req_path :: bytes
  req_headers :: "(view \<times> view) list"

datatype parser_state = ExpectHeaders | ExpectBody | GotAll

record http_parser =
  hp_header :: http_request
  got_all :: bool
  header_len :: nat
  resp_status :: nat
  resp_is_chunked :: bool
  content_length :: nat
  body_bytes_read :: nat
  hp_state :: parser_state
  is_req :: bool

definition empty_request :: http_request where
  "empty_request = \<lparr>req_method = [], req_path = [], req_headers = []\<rparr>"

definition parser_new :: http_parser where
  "parser_new = \<lparr>hp_header = empty_request, got_all = False, header_len = 0, resp_status = 0,
     resp_is_chunked = False, content_length = 0, body_bytes_read = 0,
     hp_state = ExpectHeaders, is_req = True\<rparr>"

definition gotAll :: "http_parser \<Rightarrow> bool" where
  "gotAll p \<longleftrightarrow> hp_state p = GotAll"

definition isExpectingBody :: "http_parser \<Rightarrow> bool" where
  "isExpectingBody p \<longleftrightarrow> hp_state p = ExpectBody"

definition isExpectingHeader :: "http_parser \<Rightarrow> bool" where
  "isExpectingHeader p \<longleftrightarrow> hp_state p = ExpectHeaders"

text \<open>\<open>size_t\<close> subtraction.\<close>

definition bytesRemaining :: "http_parser \<Rightarrow> nat" where
  "bytesRemaining p = (content_length p + (2 ^ 64 - body_bytes_read p)) mod 2 ^ 64"

section \<open>Framing headers\<close>

text \<open>\<open>std::from_chars\<close> into a \<open>size_t\<close>: the longest run of digits at the start; \<open>None\<close> when there
  is none or the value does not fit, and then the target keeps its value.\<close>

definition dec_value :: "bytes \<Rightarrow> nat" where
  "dec_value w = fold (\<lambda>c n. n * 10 + digit_val c) w 0"

definition from_chars :: "bytes \<Rightarrow> nat option" where
  "from_chars s =
     (let w = takeWhile is_digit s
      in if w = [] then None else if dec_value w < 2 ^ 64 then Some (dec_value w) else None)"

definition is_content_length :: "bytes \<Rightarrow> bool" where
  "is_content_length key \<longleftrightarrow> length key = 14 \<and> equals_ignore_case key ''content-length''"

definition is_transfer_encoding :: "bytes \<Rightarrow> bool" where
  "is_transfer_encoding key \<longleftrightarrow> length key = 17 \<and> equals_ignore_case key ''transfer-encoding''"

definition is_chunked_value :: "bytes \<Rightarrow> bool" where
  "is_chunked_value val \<longleftrightarrow> length val = 7 \<and> equals_ignore_case val ''chunked''"

text \<open>The header loops: \<open>has_body\<close>, \<open>content_length\<close> and, for responses, \<open>is_chunked\<close>.\<close>

fun request_framing :: "phr_header list \<Rightarrow> bool \<times> nat \<Rightarrow> bool \<times> nat" where
  "request_framing [] (has_body, cl) = (has_body, cl)"
| "request_framing (h # hs) (has_body, cl) =
     (if is_content_length (name h) then
        (let cl' = (case from_chars (field_value h) of Some n \<Rightarrow> n | None \<Rightarrow> cl)
         in request_framing hs (0 < cl', cl'))
      else request_framing hs (has_body, cl))"

fun response_framing :: "phr_header list \<Rightarrow> bool \<times> nat \<times> bool \<Rightarrow> bool \<times> nat \<times> bool" where
  "response_framing [] (has_body, cl, chunked) = (has_body, cl, chunked)"
| "response_framing (h # hs) (has_body, cl, chunked) =
     (let cl' = (if is_content_length (name h)
                 then (case from_chars (field_value h) of Some n \<Rightarrow> n | None \<Rightarrow> cl) else cl);
          has1 = (if is_content_length (name h) \<and> 0 < cl' then True else has_body);
          te = is_transfer_encoding (name h) \<and> is_chunked_value (field_value h)
      in response_framing hs (has1 \<or> te, cl', chunked \<or> te))"

section \<open>Operations\<close>

definition max_headers :: nat where
  "max_headers = 100"

text \<open>Offsets of the parser become offsets into the storage; a null name is an empty view.\<close>

definition header_views :: "buffer \<Rightarrow> phr_header \<Rightarrow> view \<times> view" where
  "header_views b h =
     ((case name_ptr h of None \<Rightarrow> (0, 0) | Some j \<Rightarrow> (readerIndex b + j, length (name h))),
      (readerIndex b + value_ptr h, length (field_value h)))"

definition parseRequest :: "buffer \<Rightarrow> http_parser \<Rightarrow> bool \<times> http_parser \<times> buffer" where
  "parseRequest b p0 =
     (let p = p0\<lparr>is_req := True\<rparr>
      in case phr_parse_request max_headers (readable b) 0 of
        Done (x, n) \<Rightarrow>
          (case request_framing (rq_headers x) (False, 0) of (has_body, cl) \<Rightarrow>
            let p1 = p\<lparr>header_len := n,
                       hp_header := \<lparr>req_method = rq_method x, req_path = rq_path x,
                         req_headers = map (header_views b) (rq_headers x)\<rparr>\<rparr>
            in (True,
                if has_body
                then p1\<lparr>content_length := cl, hp_state := ExpectBody, got_all := False\<rparr>
                else p1\<lparr>hp_state := GotAll, got_all := True\<rparr>,
                b))
      | Partial \<Rightarrow> (False, p\<lparr>got_all := False\<rparr>, b)
      | Bad \<Rightarrow> (False, p, retrieveAll b))"

definition parseResponse :: "buffer \<Rightarrow> http_parser \<Rightarrow> bool \<times> http_parser" where
  "parseResponse b p0 =
     (let p = p0\<lparr>is_req := False\<rparr>
      in case phr_parse_response max_headers (readable b) 0 of
        Done (x, n) \<Rightarrow>
          (case response_framing (rs_headers x) (False, 0, False) of (has_body, cl, chunked) \<Rightarrow>
            let p1 = p\<lparr>header_len := n, resp_status := rs_status x,
                       content_length := cl, resp_is_chunked := chunked\<rparr>
            in (True,
                if has_body then p1\<lparr>hp_state := ExpectBody, got_all := False\<rparr>
                else p1\<lparr>hp_state := GotAll, got_all := True\<rparr>))
      | Partial \<Rightarrow> (False, p\<lparr>got_all := False\<rparr>)
      | Bad \<Rightarrow> (False, p))"

definition retrieveHeader :: "http_parser \<Rightarrow> buffer \<Rightarrow> buffer" where
  "retrieveHeader p b = (if 0 < header_len p then retrieve (header_len p) b else b)"

definition consumeBody :: "nat \<Rightarrow> http_parser \<Rightarrow> buffer \<Rightarrow> http_parser \<times> buffer" where
  "consumeBody n p b =
     (let p1 = p\<lparr>body_bytes_read := body_bytes_read p + n\<rparr>
      in (if content_length p1 \<le> body_bytes_read p1
          then p1\<lparr>hp_state := GotAll, got_all := True\<rparr> else p1,
          retrieve n b))"

definition reset :: "http_parser \<Rightarrow> http_parser" where
  "reset p = p\<lparr>hp_header := empty_request, got_all := False, body_bytes_read := 0, header_len := 0,
     content_length := 0, resp_is_chunked := False, resp_status := 0, hp_state := ExpectHeaders\<rparr>"

section \<open>Facts the callers use\<close>

text \<open>The parser has announced a body and counted part of it.\<close>

definition body_inv :: "http_parser \<Rightarrow> bool" where
  "body_inv p \<longleftrightarrow> body_bytes_read p \<le> content_length p \<and> content_length p < 2 ^ 64"

lemma bytesRemaining_exact: "body_inv p \<Longrightarrow> bytesRemaining p = content_length p - body_bytes_read p"
proof -
  assume p: "body_inv p"
  then have "content_length p + (2 ^ 64 - body_bytes_read p)
      = (content_length p - body_bytes_read p) + 2 ^ 64"
    by (simp add: body_inv_def)
  moreover from p have "content_length p - body_bytes_read p < 2 ^ 64"
    by (auto simp: body_inv_def)
  ultimately show ?thesis by (simp only: bytesRemaining_def mod_add_self2 mod_less)
qed

lemma from_chars_bound: "from_chars s = Some n \<Longrightarrow> n < 2 ^ 64"
  by (auto simp: from_chars_def Let_def split: if_splits)

lemma request_framing_body:
  "request_framing hs (hb, cl) = (hb', cl') \<Longrightarrow> (hb \<longleftrightarrow> 0 < cl) \<Longrightarrow> hb' \<longleftrightarrow> 0 < cl'"
  by (induction hs "(hb, cl)" arbitrary: hb cl rule: request_framing.induct)
    (auto simp: Let_def split: if_splits)

lemma request_framing_bound:
  "request_framing hs (hb, cl) = (hb', cl') \<Longrightarrow> cl < 2 ^ 64 \<Longrightarrow> cl' < 2 ^ 64"
  by (induction hs "(hb, cl)" arbitrary: hb cl rule: request_framing.induct)
    (auto simp: Let_def dest: from_chars_bound split: if_splits option.splits)

lemma response_framing_bound:
  "response_framing hs (hb, cl, ch) = (hb', cl', ch') \<Longrightarrow> cl < 2 ^ 64 \<Longrightarrow> cl' < 2 ^ 64"
  by (induction hs "(hb, cl, ch)" arbitrary: hb cl ch rule: response_framing.induct)
    (auto simp: Let_def dest: from_chars_bound split: if_splits option.splits)

text \<open>The announced length of a request: the value of the last \<open>Content-Length\<close> header that
  starts with a number, 0 without one.\<close>

definition declared_length :: "phr_header list \<Rightarrow> nat" where
  "declared_length hs =
     (case filter (\<lambda>h. is_content_length (name h) \<and> from_chars (field_value h) \<noteq> None) (rev hs) of
        [] \<Rightarrow> 0 | h # _ \<Rightarrow> the (from_chars (field_value h)))"

lemma request_framing_last:
  "snd (request_framing hs (hb, cl)) =
     (case filter (\<lambda>h. is_content_length (name h) \<and> from_chars (field_value h) \<noteq> None) (rev hs) of
        [] \<Rightarrow> cl | h # _ \<Rightarrow> the (from_chars (field_value h)))"
  by (induction hs "(hb, cl)" arbitrary: hb cl rule: request_framing.induct)
    (auto simp: Let_def filter_append split: list.splits option.splits)

lemma request_framing_declared:
  "request_framing hs (False, 0) = (0 < declared_length hs, declared_length hs)"
proof -
  obtain hb cl where r: "request_framing hs (False, 0) = (hb, cl)" by force
  with request_framing_last [of hs False 0] have "cl = declared_length hs"
    by (simp add: declared_length_def)
  with r request_framing_body [OF r] show ?thesis by simp
qed

lemma declared_length_bound: "declared_length hs < 2 ^ 64"
  using request_framing_bound [of hs False 0] request_framing_declared [of hs] by auto

lemma response_framing_lengths:
  "snd (response_framing hs (hb, cl, ch)) =
     ((case filter (\<lambda>h. is_content_length (name h) \<and> from_chars (field_value h) \<noteq> None) (rev hs) of
        [] \<Rightarrow> cl | h # _ \<Rightarrow> the (from_chars (field_value h))),
      ch \<or> (\<exists>h \<in> set hs. is_transfer_encoding (name h) \<and> is_chunked_value (field_value h)))"
  by (induction hs "(hb, cl, ch)" arbitrary: hb cl ch rule: response_framing.induct)
    (auto simp: Let_def filter_append split: list.splits option.splits)

text \<open>Parsing on a well-formed buffer: three outcomes.\<close>

lemma parseRequest_partial:
  "phr_parse_request max_headers (readable b) 0 = Partial \<Longrightarrow>
     parseRequest b p = (False, p\<lparr>is_req := True, got_all := False\<rparr>, b)"
  by (simp add: parseRequest_def Let_def)

lemma parseRequest_bad:
  "phr_parse_request max_headers (readable b) 0 = Bad \<Longrightarrow>
     parseRequest b p = (False, p\<lparr>is_req := True\<rparr>, retrieveAll b)"
  by (simp add: parseRequest_def Let_def)

definition parsed_request :: "buffer \<Rightarrow> http_parser \<Rightarrow> phr_request \<Rightarrow> nat \<Rightarrow> http_parser" where
  "parsed_request b p x n =
     (let p1 = p\<lparr>is_req := True, header_len := n,
        hp_header := \<lparr>req_method = rq_method x, req_path = rq_path x,
          req_headers = map (header_views b) (rq_headers x)\<rparr>\<rparr>
      in if declared_length (rq_headers x) = 0
         then p1\<lparr>hp_state := GotAll, got_all := True\<rparr>
         else p1\<lparr>content_length := declared_length (rq_headers x), hp_state := ExpectBody,
                got_all := False\<rparr>)"

lemma parseRequest_done:
  "phr_parse_request max_headers (readable b) 0 = Done (x, n) \<Longrightarrow>
     parseRequest b p = (True, parsed_request b p x n, b)"
  by (simp add: parseRequest_def Let_def request_framing_declared parsed_request_def)

text \<open>What a header view shows while the storage is as it was.\<close>

definition shown_header :: "phr_header \<Rightarrow> bytes \<times> bytes" where
  "shown_header h = (name h, field_value h)"

definition read_header :: "buffer \<Rightarrow> view \<times> view \<Rightarrow> bytes \<times> bytes" where
  "read_header b v = (read_view b (fst v), read_view b (snd v))"

lemma read_view_readable:
  assumes "buf_inv b" and "storage b' = storage b" and "off + n \<le> readableBytes b"
  shows "read_view b' (readerIndex b + off, n) = view_of (readable b) off n"
proof -
  have "view_of (readable b) off n = take (min n (readableBytes b - off))
      (drop off (drop (readerIndex b) (storage b)))"
    by (simp add: view_of_def readable_def drop_take)
  also have "min n (readableBytes b - off) = n" using assms(3) by simp
  finally show ?thesis by (simp add: read_view_def assms(2) add.commute)
qed

lemma view_of_take: "off + n \<le> k \<Longrightarrow> view_of (take k s) off n = view_of s off n"
  by (simp add: view_of_def drop_take min_absorb1)

lemma read_view_prefix:
  assumes "buf_inv b" and "storage b' = storage b" and "off + n \<le> length (take k (readable b))"
  shows "read_view b' (readerIndex b + off, n) = view_of (take k (readable b)) off n"
proof -
  have "off + n \<le> k" "off + n \<le> readableBytes b" using assms(1,3) by simp_all
  with read_view_readable [OF assms(1,2)] show ?thesis by (simp add: view_of_take)
qed

lemma read_header_shown:
  assumes "buf_inv b" and "storage b' = storage b" and "field_ok (take k (readable b)) h"
  shows "read_header b' (header_views b h) = shown_header h"
proof -
  note view = read_view_prefix [OF assms(1,2), of _ _ k]
  have "read_view b' (readerIndex b + value_ptr h, length (field_value h)) = field_value h"
    using assms(3) view [of "value_ptr h" "length (field_value h)"] by (simp only: field_ok_def)
  moreover have "read_view b' (fst (header_views b h)) = name h"
  proof (cases "name_ptr h")
    case None
    with assms(3) show ?thesis by (simp add: field_ok_def header_views_def read_view_def)
  next
    case (Some j)
    with assms(3) have "j + length (name h) < length (take k (readable b))"
      "view_of (take k (readable b)) j (length (name h)) = name h"
      by (simp_all add: field_ok_def del: length_take)
    with view [of j "length (name h)"] Some show ?thesis
      by (simp add: header_views_def del: length_take)
  qed
  ultimately show ?thesis by (simp add: read_header_def shown_header_def header_views_def)
qed

section \<open>Printed numbers read back\<close>

lemma digit_char: "d < 10 \<Longrightarrow> is_digit (char_of (48 + d)) \<and> digit_val (char_of (48 + d)) = d"
  by (simp add: is_digit_def digit_val_def less_eq_char_def)

lemma dec_value_snoc: "dec_value (w @ [c]) = dec_value w * 10 + digit_val c"
  by (simp add: dec_value_def)

lemma digits_of_value:
  "n < k \<Longrightarrow> digits_of k n \<noteq> [] \<and> (\<forall>c \<in> set (digits_of k n). is_digit c)
     \<and> dec_value (digits_of k n) = n"
proof (induction k n rule: digits_of.induct)
  case (2 k n)
  show ?case
  proof (cases "n < 10")
    case True
    with digit_char [of n] show ?thesis by (simp add: dec_value_def)
  next
    case False
    with 2 have "digits_of k (n div 10) \<noteq> [] \<and> (\<forall>c \<in> set (digits_of k (n div 10)). is_digit c)
       \<and> dec_value (digits_of k (n div 10)) = n div 10" by simp
    with False digit_char [of "n mod 10"] show ?thesis by (simp add: dec_value_snoc)
  qed
qed simp

lemma to_string_value:
  "to_string n \<noteq> []" "\<forall>c \<in> set (to_string n). is_digit c" "dec_value (to_string n) = n"
  using digits_of_value [of n "Suc n"] by (simp_all add: to_string_def del: digits_of.simps)

lemma from_chars_to_string: "n < 2 ^ 64 \<Longrightarrow> from_chars (to_string n) = Some n"
proof -
  have "takeWhile is_digit (to_string n) = to_string n"
    by (rule takeWhile_eq_all_conv [THEN iffD2, OF to_string_value(2)])
  then show "n < 2 ^ 64 \<Longrightarrow> from_chars (to_string n) = Some n"
    unfolding from_chars_def Let_def by (simp only: to_string_value if_False if_True simp_thms)
qed

end
