(* ===== verification/Http_Server.thy ===== *)
theory Http_Server
  imports Http_Parser
begin

text \<open>
  \<open>HttpServer\<close> of \<^verbatim>\<open>Http/HttpServer.h\<close>: one parser and one body string per connection;
  \<open>onMessage\<close> is called after each read with the connection's input buffer and calls the user's
  request callback when a request is complete.

  The callback gets the request by reference, so it sees the header views as the storage of
  the buffer is at that moment; a call is recorded with the bytes it sees. \<open>respond\<close> renders a
  response.
\<close>

section \<open>Receiving\<close>

record conn_state =
  cs_parser :: http_parser
  cs_body :: bytes

record http_call =
  call_method :: bytes
  call_path :: bytes
  call_headers :: "(bytes \<times> bytes) list"
  call_body :: bytes

text \<open>\<open>onConnection\<close> gives a new connection a fresh state.\<close>

definition onConnection :: conn_state where
  "onConnection = \<lparr>cs_parser = parser_new, cs_body = []\<rparr>"

definition the_call :: "buffer \<Rightarrow> conn_state \<Rightarrow> http_call" where
  "the_call b st =
     \<lparr>call_method = req_method (hp_header (cs_parser st)),
      call_path = req_path (hp_header (cs_parser st)),
      call_headers = map (read_header b) (req_headers (hp_header (cs_parser st))),
      call_body = cs_body st\<rparr>"

text \<open>\<open>cb\<close> says that a request callback is set.\<close>

definition dispatch :: "bool \<Rightarrow> conn_state \<Rightarrow> buffer \<Rightarrow> http_call list \<times> conn_state" where
  "dispatch cb st b =
     ((if cb then [the_call b st] else []),
      st\<lparr>cs_body := [], cs_parser := reset (cs_parser st)\<rparr>)"

definition collectBody ::
  "bool \<Rightarrow> conn_state \<Rightarrow> buffer \<Rightarrow> http_call list \<times> conn_state \<times> buffer" where
  "collectBody cb st b =
     (let n = min (bytesRemaining (cs_parser st)) (readableBytes b);
          (st1, b1) =
            (if 0 < n then
               (case consumeBody n (cs_parser st) b of (p, b') \<Rightarrow>
                 (st\<lparr>cs_body := cs_body st @ take n (readable b), cs_parser := p\<rparr>, b'))
             else (st, b))
      in if gotAll (cs_parser st1)
         then (case dispatch cb st1 b1 of (cs, st2) \<Rightarrow> (cs, st2, b1))
         else ([], st1, b1))"

definition onMessage ::
  "bool \<Rightarrow> conn_state \<Rightarrow> buffer \<Rightarrow> http_call list \<times> conn_state \<times> buffer" where
  "onMessage cb st b =
     (if isExpectingBody (cs_parser st) then collectBody cb st b
      else
        (case parseRequest b (cs_parser st) of (ok, p, b0) \<Rightarrow>
          let st1 = st\<lparr>cs_parser := p\<rparr>
          in if ok then
               let b1 = (if 0 < header_len p then retrieve (header_len p) b0 else b0)
               in if isExpectingBody p then collectBody cb st1 b1
                  else (case dispatch cb st1 b1 of (cs, st2) \<Rightarrow> (cs, st2, b1))
             else ([], st1, b0)))"

text \<open>A segment arrives: the connection appends it to the input buffer and calls back.\<close>

definition segment ::
  "bool \<Rightarrow> bytes \<Rightarrow> conn_state \<times> buffer \<Rightarrow> http_call list \<times> conn_state \<times> buffer" where
  "segment cb seg c = (case c of (st, b) \<Rightarrow> onMessage cb st (append_data seg b))"

fun segments ::
  "bool \<Rightarrow> bytes list \<Rightarrow> conn_state \<times> buffer \<Rightarrow> http_call list \<times> conn_state \<times> buffer" where
  "segments cb [] c = ([], c)"
| "segments cb (s # ss) c =
     (case segment cb s c of (cs, c1) \<Rightarrow>
       case segments cb ss c1 of (cs', c2) \<Rightarrow> (cs @ cs', c2))"

declare segments.simps(2) [simp del]

section \<open>Responding\<close>

definition reason_phrase :: "nat \<Rightarrow> bytes" where
  "reason_phrase status =
     (case map_of [(200, ''OK''), (201, ''Created''), (204, ''No Content''),
        (400, ''Bad Request''), (401, ''Unauthorized''), (404, ''Not Found''),
        (405, ''Method Not Allowed''), (500, ''Internal Server Error''),
        (503, ''Service Unavailable'')] status of
        Some r \<Rightarrow> r | None \<Rightarrow> ''Unknown'')"

definition respond :: "nat \<Rightarrow> bytes \<Rightarrow> bytes \<Rightarrow> bytes" where
  "respond status body contentType =
     ''HTTP/1.1 '' @ to_string status @ '' '' @ reason_phrase status @ crlf @
     ''Content-Type: '' @ contentType @ crlf @
     ''Content-Length: '' @ to_string (length body) @ crlf @
     ''Connection: keep-alive'' @ crlf @
     ''Access-Control-Allow-Origin: *'' @ crlf @
     ''Access-Control-Allow-Methods: GET, POST, OPTIONS'' @ crlf @
     ''Access-Control-Allow-Headers: Content-Type'' @ crlf @ crlf @
     body"

section \<open>One request at a time\<close>

lemma reset_new [simp]: "is_req p \<Longrightarrow> reset p = parser_new"
  by (cases p) (simp add: reset_def parser_new_def)

lemma parser_new_fields [simp]:
  "hp_state parser_new = ExpectHeaders" "is_req parser_new" "\<not> got_all parser_new"
  "body_bytes_read parser_new = 0" "content_length parser_new = 0" "header_len parser_new = 0"
  by (simp_all add: parser_new_def)

lemma parser_new_partial [simp]: "parser_new\<lparr>is_req := True, got_all := False\<rparr> = parser_new"
  by (simp add: parser_new_def)

lemma parser_new_bad [simp]: "parser_new\<lparr>is_req := True\<rparr> = parser_new"
  by (simp add: parser_new_def)

text \<open>The state while a body is being collected.\<close>

definition collecting :: "phr_request \<Rightarrow> bytes \<Rightarrow> conn_state \<Rightarrow> bool" where
  "collecting x body st \<longleftrightarrow>
     isExpectingBody (cs_parser st) \<and> is_req (cs_parser st) \<and> cs_body st = body
     \<and> content_length (cs_parser st) = declared_length (rq_headers x)
     \<and> body_bytes_read (cs_parser st) = length body
     \<and> length body < declared_length (rq_headers x)
     \<and> req_method (hp_header (cs_parser st)) = rq_method x
     \<and> req_path (hp_header (cs_parser st)) = rq_path x"

lemma collecting_body_inv: "collecting x body st \<Longrightarrow> body_inv (cs_parser st)"
  using declared_length_bound [of "rq_headers x"] by (simp add: collecting_def body_inv_def)

text \<open>Collecting consumes the rest of the body and no byte more; with the last byte the request
  is dispatched.\<close>

lemma collectBody_step:
  assumes c: "collecting x body st" and b: "buf_inv b"
    and n: "n = min (declared_length (rq_headers x) - length body) (readableBytes b)"
  shows "\<exists>st' b'. collectBody cb st b =
      ((if n = declared_length (rq_headers x) - length body \<and> cb
        then [\<lparr>call_method = rq_method x, call_path = rq_path x,
               call_headers = map (read_header b) (req_headers (hp_header (cs_parser st))),
               call_body = body @ take n (readable b)\<rparr>] else []), st', b')
    \<and> buf_inv b' \<and> readable b' = drop n (readable b)
    \<and> (if n = declared_length (rq_headers x) - length body then st' = onConnection
       else collecting x (body @ take n (readable b)) st')"
proof -
  have r: "bytesRemaining (cs_parser st) = declared_length (rq_headers x) - length body"
    using c bytesRemaining_exact [OF collecting_body_inv [OF c]] by (simp add: collecting_def)
  have pos: "0 < declared_length (rq_headers x) - length body" using c by (simp add: collecting_def)
  show ?thesis
  proof (cases "n = 0")
    case True
    with pos n have "collectBody cb st b = ([], st, b)"
      using c by (simp add: collectBody_def r collecting_def gotAll_def isExpectingBody_def)
    moreover have "n \<noteq> declared_length (rq_headers x) - length body" using True pos by simp
    moreover have "body @ take n (readable b) = body" "drop n (readable b) = readable b"
      using True by simp_all
    ultimately show ?thesis using c b by (simp only: if_False simp_thms) blast
  next
    case False
    have len: "length (take n (readable b)) = n" using b n by simp
    let ?p = "(cs_parser st)\<lparr>body_bytes_read := length body + n\<rparr>"
    have cons: "consumeBody n (cs_parser st) b =
        (if declared_length (rq_headers x) \<le> length body + n
         then ?p\<lparr>hp_state := GotAll, got_all := True\<rparr> else ?p, retrieve n b)"
      using c by (simp add: consumeBody_def collecting_def)
    have e: "declared_length (rq_headers x) \<le> length body + n \<longleftrightarrow>
        n = declared_length (rq_headers x) - length body"
      using n by linarith
    have views: "read_header (retrieve n b) = read_header b"
      by (intro ext) (simp add: read_header_def read_view_def retrieve_def retrieveAll_def)
    show ?thesis
    proof (cases "n = declared_length (rq_headers x) - length body")
      case last: True
      have "collectBody cb st b = ((if cb
        then [\<lparr>call_method = rq_method x, call_path = rq_path x,
               call_headers = map (read_header b) (req_headers (hp_header (cs_parser st))),
               call_body = body @ take n (readable b)\<rparr>] else []), onConnection, retrieve n b)"
        using False c cons e views n [symmetric]
        by (simp add: collectBody_def Let_def r collecting_def gotAll_def dispatch_def the_call_def
            onConnection_def isExpectingBody_def last [symmetric])
      with last b show ?thesis
        by (intro exI [of _ onConnection] exI [of _ "retrieve n b"])
          (simp add: buf_inv_retrieve readable_retrieve)
    next
      case more: False
      let ?st = "st\<lparr>cs_body := body @ take n (readable b), cs_parser := ?p\<rparr>"
      have "collectBody cb st b = ([], ?st, retrieve n b)"
        using False c cons e more n [symmetric]
        by (simp add: collectBody_def Let_def r collecting_def gotAll_def isExpectingBody_def)
      moreover have "collecting x (body @ take n (readable b)) ?st"
        using c more e len by (simp add: collecting_def isExpectingBody_def)
      ultimately show ?thesis using more b
        by (intro exI [of _ ?st] exI [of _ "retrieve n b"])
          (simp add: buf_inv_retrieve readable_retrieve)
    qed
  qed
qed

lemma onConnection_fields [simp]:
  "cs_parser onConnection = parser_new" "cs_body onConnection = []"
  by (simp_all add: onConnection_def)

lemma onMessage_collecting: "collecting x body st \<Longrightarrow> onMessage cb st b = collectBody cb st b"
  by (simp add: onMessage_def collecting_def)

lemma onMessage_partial:
  "phr_parse_request max_headers (readable b) 0 = Partial \<Longrightarrow>
     onMessage cb onConnection b = ([], onConnection, b)"
  by (simp add: onMessage_def isExpectingBody_def parseRequest_partial onConnection_def)

lemma parsed_request_fields:
  assumes "q = parsed_request b parser_new x n"
  shows "header_len q = n" "hp_header q = \<lparr>req_method = rq_method x, req_path = rq_path x,
      req_headers = map (header_views b) (rq_headers x)\<rparr>" "is_req q" "body_bytes_read q = 0"
    "isExpectingBody q \<longleftrightarrow> declared_length (rq_headers x) \<noteq> 0"
    "isExpectingBody q \<Longrightarrow> content_length q = declared_length (rq_headers x)"
  using assms by (auto simp: parsed_request_def Let_def isExpectingBody_def)

lemma retrieve_storage [simp]: "storage (retrieve n b) = storage b"
  by (simp add: retrieve_def retrieveAll_def)

lemma shown_headers:
  assumes "buf_inv b" and "storage b' = storage b" and "request_head max_headers p x"
    and "readable b = p @ r"
  shows "map (read_header b' \<circ> header_views b) (rq_headers x) = map shown_header (rq_headers x)"
proof -
  have "field_ok (take (length p) (readable b)) h" if "h \<in> set (rq_headers x)" for h
    using request_head_views [OF assms(3)] that assms(4) by simp
  then show ?thesis using read_header_shown [OF assms(1,2)] by auto
qed

definition the_request :: "phr_request \<Rightarrow> (bytes \<times> bytes) list \<Rightarrow> bytes \<Rightarrow> http_call" where
  "the_request x hdrs body =
     \<lparr>call_method = rq_method x, call_path = rq_path x, call_headers = hdrs, call_body = body\<rparr>"

text \<open>The state after a head has been parsed and its bytes retrieved.\<close>

definition head_state :: "buffer \<Rightarrow> phr_request \<Rightarrow> nat \<Rightarrow> conn_state" where
  "head_state b x n = onConnection\<lparr>cs_parser := parsed_request b parser_new x n\<rparr>"

lemma onMessage_head_eq:
  assumes "readable b = p @ r" and "request_head max_headers p x"
  shows "onMessage cb onConnection b =
      (if declared_length (rq_headers x) \<noteq> 0
       then collectBody cb (head_state b x (length p)) (retrieve (length p) b)
       else (case dispatch cb (head_state b x (length p)) (retrieve (length p) b) of
               (cs, st2) \<Rightarrow> (cs, st2, retrieve (length p) b)))"
proof -
  have "phr_parse_request max_headers (readable b) 0 = Done (x, length p)"
    unfolding phr_parse_request_def rq.entry_Done using assms by blast
  then have "parseRequest b parser_new = (True, parsed_request b parser_new x (length p), b)"
    by (rule parseRequest_done)
  moreover note f = parsed_request_fields [of _ b x "length p", OF refl]
  moreover have "0 < length p" using rq.head_not_empty [OF assms(2)] by simp
  ultimately show ?thesis
    by (simp add: onMessage_def isExpectingBody_def [of parser_new] Let_def head_state_def)
qed

lemma head_state_collecting:
  "declared_length (rq_headers x) \<noteq> 0 \<Longrightarrow> collecting x [] (head_state b x n)"
  using parsed_request_fields [of _ b x n, OF refl] by (simp add: collecting_def head_state_def)

lemma head_state_headers:
  "req_headers (hp_header (cs_parser (head_state b x n))) = map (header_views b) (rq_headers x)"
  using parsed_request_fields [of _ b x n, OF refl] by (simp add: head_state_def)

text \<open>The message that completes a request head: the head is consumed; with no body announced the
  request is dispatched, otherwise the rest goes to the body.\<close>

lemma onMessage_head:
  assumes "buf_inv b" and "readable b = p @ r" and "request_head max_headers p x"
  shows "\<exists>st b1. buf_inv b1 \<and> readable b1 = r \<and> storage b1 = storage b
    \<and> (if declared_length (rq_headers x) = 0
       then onMessage cb onConnection b
         = ((if cb then [the_request x (map shown_header (rq_headers x)) []] else []), onConnection, b1)
       else onMessage cb onConnection b = collectBody cb st b1 \<and> collecting x [] st
         \<and> map (read_header b1) (req_headers (hp_header (cs_parser st)))
             = map shown_header (rq_headers x))"
proof -
  let ?b1 = "retrieve (length p) b" and ?st = "head_state b x (length p)"
  have b1: "buf_inv ?b1" "readable ?b1 = r" "storage ?b1 = storage b"
    using assms(1,2) by (simp_all add: buf_inv_retrieve readable_retrieve)
  have sh: "map (read_header ?b1) (req_headers (hp_header (cs_parser ?st)))
      = map shown_header (rq_headers x)"
    using shown_headers [OF assms(1) b1(3) assms(3,2)] by (simp add: head_state_headers)
  note msg = onMessage_head_eq [OF assms(2,3), of cb]
  show ?thesis
  proof (cases "declared_length (rq_headers x) = 0")
    case True
    have "dispatch cb ?st ?b1
        = ((if cb then [the_request x (map shown_header (rq_headers x)) []] else []), onConnection)"
      using sh parsed_request_fields [of _ b x "length p", OF refl]
      by (simp add: dispatch_def the_call_def the_request_def head_state_def onConnection_def)
    with True b1 msg show ?thesis by (intro exI [of _ ?st] exI [of _ ?b1]) simp
  next
    case False
    with b1 msg sh head_state_collecting show ?thesis
      by (intro exI [of _ ?st] exI [of _ ?b1]) simp
  qed
qed

lemma onMessage_complete:
  assumes "buf_inv b" and "readable b = p @ body @ r" and "request_head max_headers p x"
    and "declared_length (rq_headers x) = length body"
  shows "\<exists>b'. onMessage True onConnection b =
      ([the_request x (map shown_header (rq_headers x)) body], onConnection, b')
    \<and> buf_inv b' \<and> readable b' = r"
proof -
  from onMessage_head [OF assms(1,2,3), of True] obtain st b1 where
    b1: "buf_inv b1" "readable b1 = body @ r" and
    m: "if declared_length (rq_headers x) = 0
       then onMessage True onConnection b
         = ([the_request x (map shown_header (rq_headers x)) []], onConnection, b1)
       else onMessage True onConnection b = collectBody True st b1 \<and> collecting x [] st
         \<and> map (read_header b1) (req_headers (hp_header (cs_parser st)))
             = map shown_header (rq_headers x)"
    unfolding if_True by blast
  show ?thesis
  proof (cases "body = []")
    case True
    with m assms(4) b1 show ?thesis by simp
  next
    case False
    with m assms(4) have c: "collecting x [] st" "onMessage True onConnection b = collectBody True st b1"
      "map (read_header b1) (req_headers (hp_header (cs_parser st))) = map shown_header (rq_headers x)"
      by simp_all
    have rb: "readableBytes b1 = length (body @ r)" using b1 by (metis length_readable)
    from collectBody_step [OF c(1) b1(1) refl, of True] rb assms(4) c(2,3) b1(2) show ?thesis
      by (auto simp: the_request_def)
  qed
qed

section \<open>Any number of segments\<close>

lemma segment_Cons:
  "segments cb (s # ss) (st, b) =
     (case onMessage cb st (append_data s b) of (cs, st1, b1) \<Rightarrow>
       case segments cb ss (st1, b1) of (cs', c2) \<Rightarrow> (cs @ cs', c2))"
  by (simp add: segments.simps(2) segment_def split: prod.split)

lemma empty_head_partial: "phr_parse_request mx [] 0 = Partial"
  by (simp add: phr_parse_request_def phr_entry_def parse_request_def skip_first_eol_def)

lemma append_empty_content:
  "buf_inv b \<Longrightarrow> readable b = [] \<Longrightarrow> readable (append_data s b) = s \<and> buf_inv (append_data s b)"
  by (simp add: append_data_props)

text \<open>An idle connection that receives nothing calls nobody.\<close>

lemma segments_idle:
  "concat ss = [] \<Longrightarrow> buf_inv b \<Longrightarrow> readable b = [] \<Longrightarrow>
     \<exists>b'. segments cb ss (onConnection, b) = ([], onConnection, b') \<and> buf_inv b' \<and> readable b' = []"
proof (induction ss arbitrary: b)
  case (Cons s ss)
  then have "readable (append_data s b) = []" "buf_inv (append_data s b)"
    using append_empty_content by simp_all
  moreover from this have "onMessage cb onConnection (append_data s b)
      = ([], onConnection, append_data s b)"
    by (simp add: onMessage_partial empty_head_partial)
  ultimately show ?case using Cons by (simp add: segment_Cons)
qed simp

text \<open>\<open>served x body out\<close>: the outcome of a run is one call for this request and an idle
  connection.\<close>

definition served :: "phr_request \<Rightarrow> bytes \<Rightarrow> http_call list \<times> conn_state \<times> buffer \<Rightarrow> bool" where
  "served x body out \<longleftrightarrow>
     (\<exists>hdrs b'. out = ([the_request x hdrs body], onConnection, b') \<and> buf_inv b' \<and> readable b' = [])"

lemma segments_then_idle:
  assumes "onMessage True st (append_data s b) = ([the_request x hdrs body], onConnection, b1)"
    and "buf_inv b1" and "readable b1 = []" and "concat ss = []"
  shows "served x body (segments True (s # ss) (st, b))"
  using segments_idle [OF assms(4,2,3), of True] assms(1) by (auto simp: segment_Cons served_def)

text \<open>A segment that lies within the body.\<close>

lemma collectBody_all:
  assumes "collecting x acc st" and "buf_inv b" and "readable b = s"
    and "length acc + length s \<le> declared_length (rq_headers x)"
  shows "if length acc + length s = declared_length (rq_headers x)
     then \<exists>hdrs b'. collectBody True st b = ([the_request x hdrs (acc @ s)], onConnection, b')
       \<and> buf_inv b' \<and> readable b' = []
     else \<exists>st' b'. collectBody True st b = ([], st', b') \<and> collecting x (acc @ s) st'
       \<and> buf_inv b' \<and> readable b' = []"
proof -
  let ?L = "declared_length (rq_headers x)"
  have rb: "readableBytes b = length s" using assms(2,3) by (metis length_readable)
  have n: "length s = min (?L - length acc) (readableBytes b)" using rb assms(4) by simp
  have e: "length s = ?L - length acc \<longleftrightarrow> length acc + length s = ?L" using assms(4) by linarith
  have t: "take (length s) (readable b) = s" "drop (length s) (readable b) = []"
    using assms(3) by simp_all
  show ?thesis
    using collectBody_step [OF assms(1,2) n, of True] unfolding t e
    by (cases "length acc + length s = ?L") (auto simp: the_request_def)
qed

lemma segments_collecting:
  "collecting x acc st \<Longrightarrow> buf_inv b \<Longrightarrow> readable b = [] \<Longrightarrow>
     length acc + length (concat ss) = declared_length (rq_headers x) \<Longrightarrow>
     served x (acc @ concat ss) (segments True ss (st, b))"
proof (induction ss arbitrary: acc st b)
  case Nil
  then show ?case by (simp add: collecting_def)
next
  case (Cons s ss)
  let ?b = "append_data s b" and ?L = "declared_length (rq_headers x)"
  have b: "buf_inv ?b" "readable ?b = s" using Cons.prems append_empty_content by simp_all
  note step = collectBody_all [OF Cons.prems(1) b, folded onMessage_collecting [OF Cons.prems(1)]]
  show ?case
  proof (cases "length acc + length s = ?L")
    case True
    then have "length (concat ss) = 0"
      using Cons.prems(4) unfolding concat.simps length_append by linarith
    then have "concat ss = []" by (rule length_0_conv [THEN iffD1])
    moreover from True step obtain hdrs b' where
      "onMessage True st ?b = ([the_request x hdrs (acc @ s)], onConnection, b')"
      "buf_inv b'" "readable b' = []" by auto
    ultimately have "served x (acc @ s) (segments True (s # ss) (st, b))"
      by (intro segments_then_idle)
    then show ?thesis using \<open>concat ss = []\<close> by (simp only: concat.simps append_Nil2)
  next
    case False
    with step Cons.prems(4) obtain st' b' where m: "onMessage True st ?b = ([], st', b')"
      "collecting x (acc @ s) st'" "buf_inv b'" "readable b' = []" by auto
    with Cons.IH [of "acc @ s" st' b'] Cons.prems(4)
    have "served x (acc @ s @ concat ss) (segments True ss (st', b'))" by simp
    with m(1) show ?thesis by (simp add: segment_Cons split: prod.splits)
  qed
qed

lemma onMessage_last_piece:
  assumes "buf_inv b" and "readable b = p @ r" and "request_head max_headers p x"
    and "declared_length (rq_headers x) = length r + length (concat ss)"
    and "onMessage True onConnection b = (cs, st1, b1)"
  shows "served x (r @ concat ss) (case segments True ss (st1, b1) of (cs', c2) \<Rightarrow> (cs @ cs', c2))"
proof (cases "concat ss = []")
  case True
  with onMessage_complete [of b p r "[]" x] assms
  have "cs = [the_request x (map shown_header (rq_headers x)) r]" "st1 = onConnection"
    "buf_inv b1" "readable b1 = []" by auto
  with segments_idle [OF True, of b1 True] show ?thesis
    unfolding True append_Nil2 by (auto simp: served_def)
next
  case False
  with assms(4) have pos: "declared_length (rq_headers x) \<noteq> 0" by simp
  with onMessage_head [OF assms(1-3), of True] obtain st b2 where
    b2: "buf_inv b2" "readable b2 = r" and c: "collecting x [] st"
    and m: "onMessage True onConnection b = collectBody True st b2" by auto
  have "length r < declared_length (rq_headers x)" using assms(4) False by simp
  with collectBody_all [OF c b2] m assms(5)
  have "cs = []" "buf_inv b1" "readable b1 = []" "collecting x r st1" by auto
  with segments_collecting [of x r st1 b1 ss] assms(4) show ?thesis by (simp split: prod.split)
qed

lemma segments_head:
  "request_head max_headers p x \<Longrightarrow> declared_length (rq_headers x) = length body \<Longrightarrow>
     buf_inv b \<Longrightarrow> readable b = q \<Longrightarrow> q @ concat ss = p @ body \<Longrightarrow> length q < length p \<Longrightarrow>
     served x body (segments True ss (onConnection, b))"
proof (induction ss arbitrary: b q)
  case Nil
  then show ?case by simp
next
  case (Cons s ss)
  let ?b = "append_data s b"
  have b: "buf_inv ?b" "readable ?b = q @ s" using Cons.prems by (simp_all add: append_data_props)
  have stream: "(q @ s) @ concat ss = p @ body" using Cons.prems(5) by simp
  show ?case
  proof (cases "length (q @ s) < length p")
    case True
    with stream obtain w where w: "p = (q @ s) @ w" "w \<noteq> []"
      by (metis append_eq_append_conv_if append_take_drop_id drop_eq_Nil leD less_imp_le)
    with Cons.prems(1) rq.proper_prefix_partial [of max_headers "q @ s" w x]
    have "phr_parse_request max_headers (q @ s) 0 = Partial"
      unfolding phr_parse_request_def rq.entry_Partial by simp
    then have "onMessage True onConnection ?b = ([], onConnection, ?b)"
      by (simp add: onMessage_partial b(2))
    with Cons.IH [OF Cons.prems(1,2) b stream True] show ?thesis
      by (simp add: segment_Cons split: prod.split)
  next
    case False
    from stream consider us where "q @ s = p @ us" "us @ concat ss = body"
      | us where "(q @ s) @ us = p" "concat ss = us @ body"
      unfolding append_eq_append_conv2 by blast
    then obtain r where r: "q @ s = p @ r" "body = r @ concat ss"
    proof cases
      case (2 us)
      with False have "us = []" by (metis length_append length_greater_0_conv less_add_same_cancel1)
      with 2 that [of "[]"] show ?thesis by simp
    qed (use that in blast)
    obtain cs st1 b1 where m: "onMessage True onConnection ?b = (cs, st1, b1)"
      by (cases "onMessage True onConnection ?b") auto
    from onMessage_last_piece [OF b(1) _ Cons.prems(1) _ m, of r ss] r b(2) Cons.prems(2) m
    show ?thesis by (simp add: segment_Cons)
  qed
qed

section \<open>Rendered responses\<close>

lemma digit_range: "is_digit c \<longleftrightarrow> 48 \<le> (of_char c :: nat) \<and> of_char c \<le> (57 :: nat)"
  by (simp add: is_digit_def less_eq_char_def)

lemma digit_clean: "is_digit c \<Longrightarrow> \<not> ends_line c \<and> \<not> is_blank c \<and> c \<noteq> SP"
  using ends_line_ctl [of c] by (auto simp: digit_range ctl_range is_blank_def)

lemma number_clean: "(\<forall>c \<in> set w. is_digit c) \<Longrightarrow> clean_field (''Content-Length'', w)"
proof -
  assume w: "\<forall>c \<in> set w. is_digit c"
  then have "line_free w" by (simp add: line_free_def digit_clean)
  moreover have "\<not> starts_with is_blank w" using w digit_clean by (cases w) auto
  moreover have "w \<noteq> [] \<longrightarrow> \<not> is_blank (last w)" using w digit_clean last_in_set by blast
  moreover have "token ''Content-Length''" by code_simp
  ultimately show ?thesis by (simp add: clean_field_def)
qed

lemma status_digits:
  assumes "100 \<le> n" and "n \<le> 999"
  shows "\<exists>a b c. to_string n = [a, b, c] \<and> is_digit a \<and> is_digit b \<and> is_digit c
    \<and> n = 100 * digit_val a + 10 * digit_val b + digit_val c"
proof -
  have "n = Suc (Suc (Suc (n - 3)))" using assms(1) by arith
  then obtain m where m: "n = Suc (Suc (Suc m))" by blast
  have d: "n div 10 div 10 < 10" "\<not> n div 10 < 10" "\<not> n < 10" using assms by simp_all
  then have "to_string n = [char_of (48 + n div 10 div 10), char_of (48 + n div 10 mod 10),
      char_of (48 + n mod 10)]"
    by (simp add: to_string_def m del: One_nat_def)
  moreover have "n = 100 * (n div 10 div 10) + 10 * (n div 10 mod 10) + n mod 10"
    using div_mult_mod_eq [of n 10] div_mult_mod_eq [of "n div 10" 10] by linarith
  ultimately show ?thesis
    using digit_char [of "n div 10 div 10"] digit_char [of "n div 10 mod 10"] digit_char [of "n mod 10"]
      d(1) by auto
qed

lemma reason_clean:
  "line_free (reason_phrase status) \<and> \<not> starts_with (\<lambda>c. c = SP) (reason_phrase status)"
proof -
  have "reason_phrase status \<in> set [''OK'', ''Created'', ''No Content'', ''Bad Request'',
      ''Unauthorized'', ''Not Found'', ''Method Not Allowed'', ''Internal Server Error'',
      ''Service Unavailable'', ''Unknown'']"
    by (simp add: reason_phrase_def split: option.split)
  moreover have "\<forall>w \<in> set [''OK'', ''Created'', ''No Content'', ''Bad Request'',
      ''Unauthorized'', ''Not Found'', ''Method Not Allowed'', ''Internal Server Error'',
      ''Service Unavailable'', ''Unknown'']. line_free w \<and> \<not> starts_with (\<lambda>c. c = SP) w"
    by code_simp
  ultimately show ?thesis by blast
qed

definition respond_fields :: "bytes \<Rightarrow> bytes \<Rightarrow> (bytes \<times> bytes) list" where
  "respond_fields body contentType =
     [(''Content-Type'', contentType), (''Content-Length'', to_string (length body)),
      (''Connection'', ''keep-alive''), (''Access-Control-Allow-Origin'', ''*''),
      (''Access-Control-Allow-Methods'', ''GET, POST, OPTIONS''),
      (''Access-Control-Allow-Headers'', ''Content-Type'')]"

lemma respond_split:
  "respond status body contentType =
     ''HTTP/1.'' @ [CHR ''1''] @ [SP] @ [] @ to_string status @ [SP] @ reason_phrase status @ crlf
       @ render_fields (respond_fields body contentType) @ body"
  by (simp add: respond_def render_fields_def render_field_def respond_fields_def)

lemma respond_fields_clean:
  assumes "clean_field (''Content-Type'', contentType)"
  shows "\<forall>f \<in> set (respond_fields body contentType). clean_field f"
proof -
  have "\<forall>f \<in> set [(''Connection'', ''keep-alive''), (''Access-Control-Allow-Origin'', ''*''),
      (''Access-Control-Allow-Methods'', ''GET, POST, OPTIONS''),
      (''Access-Control-Allow-Headers'', ''Content-Type'')]. clean_field f"
    by code_simp
  with assms number_clean [OF to_string_value(2)] show ?thesis by (simp add: respond_fields_def)
qed

lemma respond_head:
  assumes "100 \<le> status" and "status \<le> 999" and "clean_field (''Content-Type'', contentType)"
  shows "\<exists>p i. respond status body contentType = p @ body \<and> response_head max_headers p
      \<lparr>rs_minor = 1, rs_status = status, rs_msg = reason_phrase status,
       rs_headers = fields_at i (respond_fields body contentType), msg_ptr = 13\<rparr>"
proof -
  let ?f = "render_fields (respond_fields body contentType)"
  let ?p = "''HTTP/1.'' @ [CHR ''1''] @ [SP] @ [] @ to_string status @ [SP]
    @ reason_phrase status @ crlf @ ?f"
  let ?i = "length ?p - length ?f"
  obtain a b c where d: "to_string status = [a, b, c]" "is_digit a" "is_digit b" "is_digit c"
    "status = 100 * digit_val a + 10 * digit_val b + digit_val c"
    using status_digits [OF assms(1,2)] by blast
  have "header_block max_headers ?i ?f [] ([] @ fields_at ?i (respond_fields body contentType))"
    by (rule render_fields_block [OF respond_fields_clean [OF assms(3)]])
      (simp add: respond_fields_def max_headers_def)
  then have "response_parts max_headers ?p
      \<lparr>rs_minor = 1, rs_status = status, rs_msg = reason_phrase status,
       rs_headers = fields_at ?i (respond_fields body contentType), msg_ptr = 13\<rparr>
      (CHR ''1'') [] (to_string status) [SP] crlf ?f"
    unfolding response_parts_def using reason_clean [of status] d
    by (intro conjI) (simp_all add: is_digit_numerals)
  then have "response_head max_headers ?p
      \<lparr>rs_minor = 1, rs_status = status, rs_msg = reason_phrase status,
       rs_headers = fields_at ?i (respond_fields body contentType), msg_ptr = 13\<rparr>"
    unfolding response_head_def by blast
  moreover have "respond status body contentType = ?p @ body"
    unfolding respond_split by simp
  ultimately show ?thesis by blast
qed

lemma respond_framing:
  assumes "length body < 2 ^ 64"
  shows "response_framing (fields_at i (respond_fields body contentType)) (False, 0, False)
    = (body \<noteq> [], length body, False)"
proof -
  have n: "is_content_length ''Content-Length''" "\<not> is_content_length ''Content-Type''"
    "\<not> is_content_length ''Connection''" "\<not> is_content_length ''Access-Control-Allow-Origin''"
    "\<not> is_content_length ''Access-Control-Allow-Methods''"
    "\<not> is_content_length ''Access-Control-Allow-Headers''"
    "\<not> is_transfer_encoding ''Content-Length''" "\<not> is_transfer_encoding ''Content-Type''"
    "\<not> is_transfer_encoding ''Connection''" "\<not> is_transfer_encoding ''Access-Control-Allow-Origin''"
    "\<not> is_transfer_encoding ''Access-Control-Allow-Methods''"
    "\<not> is_transfer_encoding ''Access-Control-Allow-Headers''"
    by code_simp+
  show ?thesis by (simp add: respond_fields_def n from_chars_to_string [OF assms] Let_def)
qed

section \<open>Header views after the head has been consumed\<close>

lemma append_fresh:
  assumes "length w \<le> kInitiaSize" and "length v = kCheapPrepend + kInitiaSize"
  shows "append_data w \<lparr>storage = v, readerIndex = kCheapPrepend, writerIndex = kCheapPrepend\<rparr>
    = \<lparr>storage = copy_at kCheapPrepend w v, readerIndex = kCheapPrepend,
       writerIndex = kCheapPrepend + length w\<rparr>"
  using assms by (simp add: append_data_def ensureWriteableBytes_def writeableBytes_def Let_def)

lemma retrieve_everything:
  "retrieve n \<lparr>storage = v, readerIndex = kCheapPrepend, writerIndex = kCheapPrepend + n\<rparr>
    = \<lparr>storage = v, readerIndex = kCheapPrepend, writerIndex = kCheapPrepend\<rparr>"
  by (simp add: retrieve_def retrieveAll_def readableBytes_def)

lemma take_drop_front: "off + n \<le> length xs \<Longrightarrow> take n (drop off (xs @ ys)) = take n (drop off xs)"
  by simp

lemma view_overwritten:
  assumes "off + n \<le> length p" and "length p + k \<le> length v" and "length w + k \<le> length v"
  shows "take n (drop (k + off) (copy_at k w (copy_at k p v)))
    = view_of (w @ drop (length w) p) off n"
proof -
  let ?t = "drop (length w - length p) (drop (k + length p) v)"
  have "drop k (copy_at k w (copy_at k p v)) = (w @ drop (length w) p) @ ?t"
    using assms(2,3) by (simp add: copy_at_def add.commute add.left_commute)
  then have "drop (k + off) (copy_at k w (copy_at k p v))
      = drop off ((w @ drop (length w) p) @ ?t)"
    by (metis add.commute drop_drop)
  moreover have "off + n \<le> length (w @ drop (length w) p)" using assms(1) by simp
  ultimately show ?thesis unfolding view_of_def by (simp only: take_drop_front)
qed

text \<open>The header fields as they read when \<open>s\<close> stands where the head was.\<close>

definition seen_header :: "bytes \<Rightarrow> phr_header \<Rightarrow> bytes \<times> bytes" where
  "seen_header s h =
     ((case name_ptr h of None \<Rightarrow> [] | Some j \<Rightarrow> view_of s j (length (name h))),
      view_of s (value_ptr h) (length (field_value h)))"

lemma read_header_overwritten:
  assumes "field_ok p h" and "length p \<le> kInitiaSize" and "length w \<le> kInitiaSize"
    and "length v = kCheapPrepend + kInitiaSize"
    and "readerIndex b = kCheapPrepend"
    and "storage b' = copy_at kCheapPrepend w (copy_at kCheapPrepend p v)"
  shows "read_header b' (header_views b h) = seen_header (w @ drop (length w) p) h"
proof -
  have "read_view b' (kCheapPrepend + off, n) = view_of (w @ drop (length w) p) off n"
    if "off + n \<le> length p" for off n
    unfolding read_view_def assms(6) fst_conv snd_conv
    by (rule view_overwritten [OF that]) (use assms(2-4) in simp_all)
  with assms(1,5) show ?thesis
    by (auto simp: read_header_def header_views_def seen_header_def field_ok_def read_view_def
        split: option.splits)
qed

lemma body_in_second_segment:
  assumes h: "request_head max_headers p x" and d: "declared_length (rq_headers x) = length body"
    and nb: "body \<noteq> []" and lp: "length p \<le> kInitiaSize" and lb: "length body \<le> kInitiaSize"
  shows "\<exists>b. segments True [p, body] (onConnection, buffer_new n) =
    ([the_request x (map (seen_header (body @ drop (length body) p)) (rq_headers x)) body],
     onConnection, b)"
proof -
  let ?v = "replicate (kCheapPrepend + kInitiaSize) (CHR 0x00)"
  let ?b0 = "append_data p (buffer_new n)" and ?b1 = "retrieve (length p) (append_data p (buffer_new n))"
  let ?st = "head_state (append_data p (buffer_new n)) x (length p)"
  have b0: "?b0 = \<lparr>storage = copy_at kCheapPrepend p ?v, readerIndex = kCheapPrepend,
      writerIndex = kCheapPrepend + length p\<rparr>"
    unfolding buffer_new_def by (rule append_fresh [OF lp]) simp
  have b1: "?b1 = \<lparr>storage = copy_at kCheapPrepend p ?v, readerIndex = kCheapPrepend,
      writerIndex = kCheapPrepend\<rparr>"
    unfolding b0 by (rule retrieve_everything)
  have b2: "append_data body ?b1 = \<lparr>storage = copy_at kCheapPrepend body (copy_at kCheapPrepend p ?v),
      readerIndex = kCheapPrepend, writerIndex = kCheapPrepend + length body\<rparr>"
    unfolding b1 by (rule append_fresh [OF lb]) (use lp in simp)
  have "readable ?b0 = p @ []" by (simp add: readable_append buf_inv_new readable_new)
  note onMessage_head_eq [OF this h, of True]
  moreover have nz: "declared_length (rq_headers x) \<noteq> 0" using d nb by simp
  moreover have c: "collecting x [] ?st" by (rule head_state_collecting [OF nz])
  moreover have "collectBody True ?st ?b1 = ([], ?st, ?b1)"
    using c unfolding b1
    by (simp add: collectBody_def readableBytes_def gotAll_def collecting_def isExpectingBody_def)
  ultimately have m1: "onMessage True onConnection ?b0 = ([], ?st, ?b1)" by simp
  have i2: "buf_inv (append_data body ?b1)" "readable (append_data body ?b1) = body"
    by (simp_all add: buf_inv_append buf_inv_new buf_inv_retrieve readable_append readable_new
        readable_retrieve)
  have rb: "length body = min (declared_length (rq_headers x) - length ([] :: bytes))
      (readableBytes (append_data body ?b1))"
    using d length_readable [OF i2(1)] i2(2) by simp
  have "map (read_header (append_data body ?b1)) (req_headers (hp_header (cs_parser ?st)))
      = map (seen_header (body @ drop (length body) p)) (rq_headers x)"
    unfolding head_state_headers
    using read_header_overwritten [OF _ lp lb, of _ ?v ?b0 "append_data body ?b1"]
      request_head_views [OF h] b0 b2 by simp
  with collectBody_step [OF c i2(1) rb, of True] d i2(2)
  obtain st' b' where "onMessage True ?st (append_data body ?b1) =
      ([the_request x (map (seen_header (body @ drop (length body) p)) (rq_headers x)) body], st', b')"
    "st' = onConnection"
    by (auto simp: the_request_def onMessage_collecting [OF c])
  with m1 show ?thesis by (simp add: segment_Cons)
qed

section \<open>Properties\<close>

text \<open>
  C1. However the network cuts a request into segments (within the request line, a header name
  or the body), the server calls the request callback exactly once, with the method, the
  path and the whole body, and returns to the state of a new connection with an empty
  buffer: the body length is the one of the last numeric \<open>Content-Length\<close>.
\<close>

theorem request_served_once:
  assumes "request_head max_headers p x" and "declared_length (rq_headers x) = length body"
    and "concat segs = p @ body"
  shows "\<exists>hdrs b. segments True segs (onConnection, buffer_new n)
      = ([the_request x hdrs body], onConnection, b) \<and> buf_inv b \<and> readable b = []"
proof -
  have "0 < length p" using rq.head_not_empty [OF assms(1)] by simp
  with segments_head [OF assms(1,2) buf_inv_new readable_new, of segs n] assms(3)
  show ?thesis by (simp add: served_def)
qed

text \<open>
  A call of \<open>onMessage\<close> handles one request. When the buffer holds a complete request, the
  callback sees its method, path, headers and body as they were sent, and everything behind
  the request stays in the buffer: a second, pipelined request that is already there
  complete is not dispatched until the peer sends more.
\<close>

theorem one_request_per_message:
  assumes "buf_inv b" and "readable b = p @ body @ r" and "request_head max_headers p x"
    and "declared_length (rq_headers x) = length body"
  shows "\<exists>b'. onMessage True onConnection b =
      ([the_request x (map shown_header (rq_headers x)) body], onConnection, b')
    \<and> buf_inv b' \<and> readable b' = r"
  using assms by (rule onMessage_complete)

text \<open>
  What \<open>respond\<close> writes is a response the proxy's own parser accepts: status and reason
  phrase are the ones given, the framing is the body's length (no body means no body
  expected), and the body is what follows the head.
\<close>

theorem respond_parses:
  assumes "100 \<le> status" and "status \<le> 999" and "length body < 2 ^ 64"
    and "clean_field (''Content-Type'', contentType)"
    and "buf_inv b" and "readable b = respond status body contentType @ rest"
  shows "\<exists>q. parseResponse b p = (True, q) \<and> resp_status q = status
    \<and> content_length q = length body \<and> \<not> resp_is_chunked q
    \<and> hp_state q = (if body = [] then GotAll else ExpectBody)
    \<and> readable (retrieveHeader q b) = body @ rest"
proof -
  obtain h i where h: "respond status body contentType = h @ body" "response_head max_headers h
      \<lparr>rs_minor = 1, rs_status = status, rs_msg = reason_phrase status,
       rs_headers = fields_at i (respond_fields body contentType), msg_ptr = 13\<rparr>"
    using respond_head [OF assms(1,2,4)] by blast
  then have "phr_parse_response max_headers (readable b) 0 =
      Done (\<lparr>rs_minor = 1, rs_status = status, rs_msg = reason_phrase status,
        rs_headers = fields_at i (respond_fields body contentType), msg_ptr = 13\<rparr>, length h)"
    unfolding phr_parse_response_def rs.entry_Done assms(6) by auto
  moreover have "0 < length h" using rs.head_not_empty [OF h(2)] by simp
  moreover have "drop (length h) (readable b) = body @ rest" unfolding assms(6) h(1) by simp
  ultimately show ?thesis
    by (simp add: parseResponse_def Let_def respond_framing [OF assms(3)] retrieveHeader_def
        readable_retrieve [OF assms(5)])
qed

text \<open>
  The header views are dangling when the body arrives after the head: the head has been
  retrieved, the read indices have gone back to the start, and the body bytes are written
  over it. The callback then reads, where it should find header names and values, the body
  laid over the head, so the peer chooses the headers the application sees after they
  have been parsed.
\<close>

theorem header_views_overwritten:
  assumes "request_head max_headers p x" and "declared_length (rq_headers x) = length body"
    and "body \<noteq> []" and "length p \<le> kInitiaSize" and "length body \<le> kInitiaSize"
  shows "\<exists>b. segments True [p, body] (onConnection, buffer_new n) =
    ([the_request x (map (seen_header (body @ drop (length body) p)) (rq_headers x)) body],
     onConnection, b)"
  using assms by (rule body_in_second_segment)

text \<open>A request with the header \<open>a: b\<close> and a body of 21 bytes.\<close>

definition sample_fields :: "(bytes \<times> bytes) list" where
  "sample_fields = [(''a'', ''b''), (''Content-Length'', ''21'')]"

definition sample_head :: bytes where
  "sample_head = render_request ''POST'' ''/'' sample_fields"

definition sample_request :: phr_request where
  "sample_request = \<lparr>rq_method = ''POST'', rq_path = ''/'', rq_minor = 1,
     rq_headers = fields_at (length ''POST'' + length ''/'' + 12) sample_fields,
     method_ptr = 0, path_ptr = length ''POST'' + 1\<rparr>"

definition sample_body :: bytes where
  "sample_body = replicate 21 (CHR ''x'')"

lemma sample_ok: "request_head max_headers sample_head sample_request"
  unfolding sample_head_def sample_request_def
proof (rule render_request_head)
  show "token ''POST''" by code_simp
  show "clean_path ''/''" by code_simp
  show "\<forall>f \<in> set sample_fields. clean_field f" by code_simp
qed (simp_all add: sample_fields_def max_headers_def)

lemma sample_length: "declared_length (rq_headers sample_request) = length sample_body"
proof -
  have "is_content_length ''Content-Length''" "\<not> is_content_length ''a''" by code_simp+
  moreover have "takeWhile is_digit ''21'' = ''21''" "dec_value ''21'' = 21" by code_simp+
  then have "from_chars ''21'' = Some 21" by (simp add: from_chars_def)
  ultimately show ?thesis
    by (simp add: declared_length_def sample_request_def sample_fields_def sample_body_def)
qed

theorem header_views_overwritten_witness:
  "\<exists>b hs. segments True [sample_head, sample_body] (onConnection, buffer_new 0) =
    ([the_request sample_request ((''x'', ''x'') # hs) sample_body], onConnection, b)"
proof -
  have "hd (map (seen_header (sample_body @ drop (length sample_body) sample_head))
      (rq_headers sample_request)) = (''x'', ''x'')"
    by code_simp
  then obtain hs where "map (seen_header (sample_body @ drop (length sample_body) sample_head))
      (rq_headers sample_request) = (''x'', ''x'') # hs"
    by (simp add: sample_request_def sample_fields_def)
  moreover have "sample_body \<noteq> []" "length sample_head \<le> kInitiaSize"
    "length sample_body \<le> kInitiaSize" by code_simp+
  ultimately show ?thesis
    using header_views_overwritten [OF sample_ok sample_length, of 0] by metis
qed

theorem request_served_once_witness:
  "\<exists>hdrs b. segments True [take 9 sample_head, drop 9 sample_head @ take 4 sample_body, drop 4 sample_body]
      (onConnection, buffer_new 0)
    = ([the_request sample_request hdrs sample_body], onConnection, b) \<and> buf_inv b \<and> readable b = []"
  by (rule request_served_once [OF sample_ok sample_length]) simp

theorem one_request_per_message_witness:
  "\<exists>b'. onMessage True onConnection (append_data (sample_head @ sample_body @ sample_head) (buffer_new 0))
    = ([the_request sample_request (map shown_header (rq_headers sample_request)) sample_body],
       onConnection, b') \<and> buf_inv b' \<and> readable b' = sample_head"
  by (rule one_request_per_message [OF _ _ sample_ok sample_length])
    (simp_all add: buf_inv_append buf_inv_new readable_append readable_new)

theorem respond_parses_witness:
  "\<exists>q. parseResponse (append_data (respond 404 ''{}'' ''application/json'' @ ''next'') (buffer_new 0))
      parser_new = (True, q) \<and> resp_status q = 404
    \<and> content_length q = length ''{}'' \<and> \<not> resp_is_chunked q
    \<and> hp_state q = (if ''{}'' = [] then GotAll else ExpectBody)
    \<and> readable (retrieveHeader q
        (append_data (respond 404 ''{}'' ''application/json'' @ ''next'') (buffer_new 0)))
      = ''{}'' @ ''next''"
proof (rule respond_parses)
  show "clean_field (''Content-Type'', ''application/json'')" by code_simp
qed (simp_all add: buf_inv_append buf_inv_new readable_append readable_new)

end
