(* ===== verification/Event_Poller.thy ===== *)
theory Event_Poller
  imports Prelude
begin

unbundle bit_operations_syntax

text \<open>
  Channels and the epoll poller: \<^verbatim>\<open>src/Channel.h\<close>, \<^verbatim>\<open>src/Channel.cc\<close>, \<^verbatim>\<open>src/Poller.h\<close>,
  \<^verbatim>\<open>src/Poller.cc\<close>, \<^verbatim>\<open>src/EPollPoller.h\<close> and \<^verbatim>\<open>src/EPollPoller.cc\<close>.

  A channel is an object that a pointer (a natural number) stands for; \<open>chans\<close> is the store of
  channel objects. The poller keeps the map \<open>channels_\<close> from descriptors to channels and talks to
  the kernel by \<open>epoll_ctl\<close>; every call it makes is recorded in \<open>ctl_calls\<close>. Whether a call fails
  is decided by the parameter \<open>fails\<close>, which sees the calls made before. The set of events the
  kernel watches is the documented effect of the recorded calls, \<open>watched\<close>.
\<close>

section \<open>Channels\<close>

definition EPOLLIN :: u32 where "EPOLLIN = 1"
definition EPOLLPRI :: u32 where "EPOLLPRI = 2"
definition EPOLLOUT :: u32 where "EPOLLOUT = 4"
definition EPOLLERR :: u32 where "EPOLLERR = 8"
definition EPOLLHUP :: u32 where "EPOLLHUP = 16"

definition kNoneEvent :: u32 where "kNoneEvent = 0"
definition kReadEvent :: u32 where "kReadEvent = EPOLLIN OR EPOLLPRI"
definition kWriteEvent :: u32 where "kWriteEvent = EPOLLOUT"

lemmas event_defs = EPOLLIN_def EPOLLPRI_def EPOLLOUT_def EPOLLERR_def EPOLLHUP_def
  kNoneEvent_def kReadEvent_def kWriteEvent_def

datatype handler = On_Read | On_Write | On_Close | On_Error

text \<open>The callbacks a channel has are the set \<open>callbacks\<close>: an unset \<open>std::function\<close> is not in it.\<close>

record channel =
  chan_fd :: int
  events :: u32
  revents :: u32
  index :: int
  tied :: bool
  callbacks :: "handler list"

definition channel_new :: "int \<Rightarrow> channel" where
  "channel_new fd =
     \<lparr>chan_fd = fd, events = kNoneEvent, revents = 0, index = - 1, tied = False, callbacks = []\<rparr>"

definition set_callback :: "handler \<Rightarrow> channel \<Rightarrow> channel" where
  "set_callback h c = c\<lparr>callbacks := h # callbacks c\<rparr>"

definition tie :: "channel \<Rightarrow> channel" where
  "tie c = c\<lparr>tied := True\<rparr>"

definition IsReadEnabled :: "channel \<Rightarrow> bool" where
  "IsReadEnabled c \<longleftrightarrow> events c AND kReadEvent \<noteq> 0"

definition IsWriteEnabled :: "channel \<Rightarrow> bool" where
  "IsWriteEnabled c \<longleftrightarrow> events c AND kWriteEvent \<noteq> 0"

definition IsNoneEvent :: "channel \<Rightarrow> bool" where
  "IsNoneEvent c \<longleftrightarrow> events c = kNoneEvent"

text \<open>Which callbacks run, in order. No callback changes \<open>revents_\<close>, which only \<open>poll\<close> sets.\<close>

definition handleEventWithGuard :: "channel \<Rightarrow> handler list" where
  "handleEventWithGuard c =
     (if revents c AND EPOLLHUP \<noteq> 0 \<and> revents c AND EPOLLIN = 0 \<and> On_Close \<in> set (callbacks c)
      then [On_Close] else [])
   @ (if revents c AND EPOLLERR \<noteq> 0 \<and> On_Error \<in> set (callbacks c) then [On_Error] else [])
   @ (if revents c AND (EPOLLIN OR EPOLLPRI) \<noteq> 0 \<and> On_Read \<in> set (callbacks c)
      then [On_Read] else [])
   @ (if revents c AND EPOLLOUT \<noteq> 0 \<and> On_Write \<in> set (callbacks c) then [On_Write] else [])"

text \<open>\<open>alive\<close> tells whether \<open>tie_.lock()\<close> gives a pointer.\<close>

definition handleEvent :: "bool \<Rightarrow> channel \<Rightarrow> handler list" where
  "handleEvent alive c =
     (if tied c then (if alive then handleEventWithGuard c else []) else handleEventWithGuard c)"

section \<open>The poller\<close>

definition kNew :: int where "kNew = - 1"
definition kAdded :: int where "kAdded = 0"
definition kDeleted :: int where "kDeleted = 1"

datatype epoll_op = EPOLL_CTL_ADD | EPOLL_CTL_MOD | EPOLL_CTL_DEL

text \<open>A call: operation, descriptor, and the \<open>epoll_event\<close> with its events and its pointer.\<close>

type_synonym epoll_call = "epoll_op \<times> int \<times> u32 \<times> nat"

record poller =
  chans :: "nat \<Rightarrow> channel"
  channels_map :: "int \<Rightarrow> nat option"
  ctl_calls :: "epoll_call list"
  event_list_size :: nat
  exited :: bool

definition kInitEventListSize :: nat where
  "kInitEventListSize = 16"

definition poller_new :: "(nat \<Rightarrow> channel) \<Rightarrow> poller" where
  "poller_new cs =
     \<lparr>chans = cs, channels_map = Map.empty, ctl_calls = [], event_list_size = kInitEventListSize,
      exited = False\<rparr>"

text \<open>\<open>update\<close>: a failed \<open>EPOLL_CTL_DEL\<close> is logged, any other failure ends the process.\<close>

definition update_poller ::
  "(epoll_call list \<Rightarrow> epoll_call \<Rightarrow> bool) \<Rightarrow> epoll_op \<Rightarrow> nat \<Rightarrow> poller \<Rightarrow> poller" where
  "update_poller fails operation p w =
     (let c = chans w p;
          call = (operation, chan_fd c, events c, p);
          w1 = w\<lparr>ctl_calls := ctl_calls w @ [call]\<rparr>
      in if fails (ctl_calls w) call
         then (if operation = EPOLL_CTL_DEL then w1 else w1\<lparr>exited := True\<rparr>)
         else w1)"

definition set_index :: "nat \<Rightarrow> int \<Rightarrow> poller \<Rightarrow> poller" where
  "set_index p i w = w\<lparr>chans := (chans w)(p := (chans w p)\<lparr>index := i\<rparr>)\<rparr>"

definition updateChannel ::
  "(epoll_call list \<Rightarrow> epoll_call \<Rightarrow> bool) \<Rightarrow> nat \<Rightarrow> poller \<Rightarrow> poller" where
  "updateChannel fails p w =
     (let i = index (chans w p) in
      if i = kNew \<or> i = kDeleted then
        let w1 = (if i = kNew
                  then w\<lparr>channels_map := (channels_map w)(chan_fd (chans w p) \<mapsto> p)\<rparr> else w)
        in update_poller fails EPOLL_CTL_ADD p (set_index p kAdded w1)
      else if IsNoneEvent (chans w p)
      then set_index p kDeleted (update_poller fails EPOLL_CTL_DEL p w)
      else update_poller fails EPOLL_CTL_MOD p w)"

definition removeChannel ::
  "(epoll_call list \<Rightarrow> epoll_call \<Rightarrow> bool) \<Rightarrow> nat \<Rightarrow> poller \<Rightarrow> poller" where
  "removeChannel fails p w =
     (let w1 = w\<lparr>channels_map := (channels_map w)(chan_fd (chans w p) := None)\<rparr>;
          w2 = (if index (chans w p) = kAdded then update_poller fails EPOLL_CTL_DEL p w1 else w1)
      in set_index p kNew w2)"

definition hasChannel :: "nat \<Rightarrow> poller \<Rightarrow> bool" where
  "hasChannel p w \<longleftrightarrow> channels_map w (chan_fd (chans w p)) = Some p"

text \<open>\<open>fillActiveChannels\<close>: store the events in the channels and list them.\<close>

fun fillActiveChannels :: "(u32 \<times> nat) list \<Rightarrow> poller \<Rightarrow> nat list \<times> poller" where
  "fillActiveChannels [] w = ([], w)"
| "fillActiveChannels ((ev, p) # es) w =
     (case fillActiveChannels es (w\<lparr>chans := (chans w)(p := (chans w p)\<lparr>revents := ev\<rparr>)\<rparr>) of
        (active, w1) \<Rightarrow> (p # active, w1))"

text \<open>
  \<open>poll\<close>: the result of \<open>epoll_wait\<close> is an error number or the events it stored, at most
  \<open>events_.size()\<close>; a full list is doubled for the next call.
\<close>

definition poll :: "int + (u32 \<times> nat) list \<Rightarrow> poller \<Rightarrow> nat list \<times> poller" where
  "poll r w =
     (case r of
        Inl e \<Rightarrow> ([], w)
      | Inr [] \<Rightarrow> ([], w)
      | Inr evs \<Rightarrow>
          (case fillActiveChannels evs w of (active, w1) \<Rightarrow>
            (active, if length evs = event_list_size w1
                     then w1\<lparr>event_list_size := event_list_size w1 * 2\<rparr> else w1)))"

section \<open>Operations of a channel\<close>

definition set_events :: "nat \<Rightarrow> u32 \<Rightarrow> poller \<Rightarrow> poller" where
  "set_events p ev w = w\<lparr>chans := (chans w)(p := (chans w p)\<lparr>events := ev\<rparr>)\<rparr>"

datatype channel_op = Enable_Reading nat | Disable_Reading nat | Enable_Writing nat
  | Disable_Writing nat | Disable_All nat | Remove nat

fun channel_step ::
  "(epoll_call list \<Rightarrow> epoll_call \<Rightarrow> bool) \<Rightarrow> channel_op \<Rightarrow> poller \<Rightarrow> poller" where
  "channel_step fails (Enable_Reading p) w =
     updateChannel fails p (set_events p (events (chans w p) OR kReadEvent) w)"
| "channel_step fails (Disable_Reading p) w =
     updateChannel fails p (set_events p (events (chans w p) AND NOT kReadEvent) w)"
| "channel_step fails (Enable_Writing p) w =
     updateChannel fails p (set_events p (events (chans w p) OR kWriteEvent) w)"
| "channel_step fails (Disable_Writing p) w =
     updateChannel fails p (set_events p (events (chans w p) AND NOT kWriteEvent) w)"
| "channel_step fails (Disable_All p) w = updateChannel fails p (set_events p kNoneEvent w)"
| "channel_step fails (Remove p) w = removeChannel fails p w"

fun target :: "channel_op \<Rightarrow> nat" where
  "target (Enable_Reading p) = p"
| "target (Disable_Reading p) = p"
| "target (Enable_Writing p) = p"
| "target (Disable_Writing p) = p"
| "target (Disable_All p) = p"
| "target (Remove p) = p"

section \<open>What the kernel watches\<close>

text \<open>
  The documented meaning of \<open>epoll_ctl\<close>: a descriptor is added when it is not there, changed or
  deleted when it is; anything else is an error without effect.
\<close>

type_synonym interest = "int \<Rightarrow> (u32 \<times> nat) option"

definition call_ok :: "interest \<Rightarrow> epoll_call \<Rightarrow> bool" where
  "call_ok s call = (case call of (operation, fd, _) \<Rightarrow>
     (if operation = EPOLL_CTL_ADD then s fd = None else s fd \<noteq> None))"

definition call_effect :: "interest \<Rightarrow> epoll_call \<Rightarrow> interest" where
  "call_effect s call =
     (if call_ok s call
      then (case call of (operation, fd, ev, p) \<Rightarrow>
              if operation = EPOLL_CTL_DEL then s(fd := None) else s(fd \<mapsto> (ev, p)))
      else s)"

definition watched :: "epoll_call list \<Rightarrow> interest" where
  "watched calls = fold (\<lambda>c s. call_effect s c) calls Map.empty"

lemma watched_snoc: "watched (cs @ [c]) = call_effect (watched cs) c"
  by (simp add: watched_def)

text \<open>Every call was legal in the state the calls before it had left.\<close>

definition legal_calls :: "epoll_call list \<Rightarrow> bool" where
  "legal_calls cs \<longleftrightarrow> (\<forall>i < length cs. call_ok (watched (take i cs)) (cs ! i))"

lemma legal_snoc: "legal_calls (cs @ [c]) \<longleftrightarrow> legal_calls cs \<and> call_ok (watched cs) c"
  by (auto simp: legal_calls_def nth_append less_Suc_eq)

text \<open>A kernel that follows its documentation lets legal calls succeed.\<close>

definition documented_kernel :: "(epoll_call list \<Rightarrow> epoll_call \<Rightarrow> bool) \<Rightarrow> bool" where
  "documented_kernel fails \<longleftrightarrow> (\<forall>log call. call_ok (watched log) call \<longrightarrow> \<not> fails log call)"

text \<open>The kernel's view of one channel: its events while the poller counts it as added.\<close>

definition chan_view :: "nat \<Rightarrow> channel \<Rightarrow> (u32 \<times> nat) option" where
  "chan_view p c = (if index c = kAdded then Some (events c, p) else None)"

definition in_step :: "poller \<Rightarrow> nat \<Rightarrow> bool" where
  "in_step w p \<longleftrightarrow>
     (let c = chans w p in
      index c \<in> {kNew, kAdded, kDeleted}
      \<and> watched (ctl_calls w) (chan_fd c) = chan_view p c
      \<and> channels_map w (chan_fd c) = (if index c = kNew then None else Some p))"

definition poller_inv :: "nat set \<Rightarrow> poller \<Rightarrow> bool" where
  "poller_inv P w \<longleftrightarrow> \<not> exited w \<and> legal_calls (ctl_calls w)
     \<and> inj_on (\<lambda>p. chan_fd (chans w p)) P \<and> (\<forall>p \<in> P. in_step w p)"

lemmas poller_simps = kNew_def kAdded_def kDeleted_def update_poller_def set_index_def
  set_events_def Let_def watched_snoc call_effect_def call_ok_def chan_view_def

text \<open>An operation on one channel keeps the others as they are.\<close>

lemma in_step_other:
  assumes "chans w' q = chans w q"
    and "\<And>fd. fd \<noteq> chan_fd (chans w p) \<Longrightarrow>
      channels_map w' fd = channels_map w fd \<and> watched (ctl_calls w') fd = watched (ctl_calls w) fd"
    and "chan_fd (chans w q) \<noteq> chan_fd (chans w p)" and "in_step w q"
  shows "in_step w' q"
  using assms by (simp add: in_step_def Let_def)

definition touches_only :: "nat \<Rightarrow> poller \<Rightarrow> poller \<Rightarrow> bool" where
  "touches_only p w w' \<longleftrightarrow>
     (\<forall>q. chan_fd (chans w' q) = chan_fd (chans w q))
     \<and> (\<forall>q. q \<noteq> p \<longrightarrow> chans w' q = chans w q)
     \<and> (\<forall>fd. fd \<noteq> chan_fd (chans w p) \<longrightarrow>
          channels_map w' fd = channels_map w fd
          \<and> watched (ctl_calls w') fd = watched (ctl_calls w) fd)"

lemma poller_inv_step:
  assumes "poller_inv P w" and "p \<in> P" and "touches_only p w w'" and "in_step w' p" and "\<not> exited w'"
    and "legal_calls (ctl_calls w')"
  shows "poller_inv P w'"
proof -
  have inj: "inj_on (\<lambda>p. chan_fd (chans w' p)) P" "inj_on (\<lambda>p. chan_fd (chans w p)) P"
    using assms(1,3) by (simp_all add: poller_inv_def touches_only_def)
  have "in_step w' q" if "q \<in> P" for q
  proof (cases "q = p")
    case False
    then have "chan_fd (chans w q) \<noteq> chan_fd (chans w p)"
      using inj(2) that assms(2) unfolding inj_on_def by blast
    with in_step_other [of w' q w p] assms False that show ?thesis
      by (simp add: poller_inv_def touches_only_def)
  qed (use assms(4) in simp)
  with inj assms(5,6) show ?thesis by (simp add: poller_inv_def)
qed

lemma step_touches_only: "touches_only (target x) w (channel_step fails x w)"
  by (cases x)
    (auto simp: touches_only_def updateChannel_def removeChannel_def poller_simps split: prod.splits)

lemma update_in_step:
  assumes k: "documented_kernel fails" and "\<not> exited w" and l: "legal_calls (ctl_calls w)"
    and i: "index (chans w p) \<in> {kNew, kAdded, kDeleted}"
    and w: "watched (ctl_calls w) (chan_fd (chans w p))
      = (if index (chans w p) = kAdded then Some (ev, p) else None)"
    and m: "channels_map w (chan_fd (chans w p)) = (if index (chans w p) = kNew then None else Some p)"
  shows "in_step (updateChannel fails p w) p \<and> \<not> exited (updateChannel fails p w)
    \<and> legal_calls (ctl_calls (updateChannel fails p w))"
proof -
  have ok: "\<not> fails (ctl_calls w) c" if "call_ok (watched (ctl_calls w)) c" for c
    using k that unfolding documented_kernel_def by blast
  show ?thesis
    using i w m l assms(2) ok
    by (auto simp: updateChannel_def in_step_def poller_simps legal_snoc IsNoneEvent_def split: if_splits)
qed

lemma remove_in_step:
  assumes "documented_kernel fails" and "\<not> exited w" and "in_step w p" and "legal_calls (ctl_calls w)"
  shows "in_step (removeChannel fails p w) p \<and> \<not> exited (removeChannel fails p w)
    \<and> legal_calls (ctl_calls (removeChannel fails p w))"
proof -
  have ok: "\<not> fails (ctl_calls w) c" if "call_ok (watched (ctl_calls w)) c" for c
    using assms(1) that unfolding documented_kernel_def by blast
  show ?thesis
    using assms(2-4) ok by (auto simp: removeChannel_def in_step_def poller_simps legal_snoc split: if_splits)
qed

lemma channel_step_inv:
  assumes "documented_kernel fails" and "poller_inv P w" and "target x \<in> P"
  shows "poller_inv P (channel_step fails x w)"
proof -
  have s: "in_step w (target x)" "\<not> exited w" "legal_calls (ctl_calls w)" using assms(2,3) by (simp_all add: poller_inv_def)
  have "in_step (updateChannel fails (target x) (set_events (target x) ev w)) (target x)
      \<and> \<not> exited (updateChannel fails (target x) (set_events (target x) ev w))
      \<and> legal_calls (ctl_calls (updateChannel fails (target x) (set_events (target x) ev w)))" for ev
    by (rule update_in_step [OF assms(1), where ev = "events (chans w (target x))"])
      (use s in \<open>simp_all add: set_events_def in_step_def Let_def chan_view_def\<close>)
  with remove_in_step [OF assms(1) s(2,1,3)]
  have "in_step (channel_step fails x w) (target x) \<and> \<not> exited (channel_step fails x w)
      \<and> legal_calls (ctl_calls (channel_step fails x w))"
    by (cases x) simp_all
  then show ?thesis using poller_inv_step [OF assms(2,3) step_touches_only] by blast
qed

lemma poller_run_inv:
  assumes "documented_kernel fails" and "poller_inv P w" and "\<forall>x \<in> set ops. target x \<in> P"
  shows "poller_inv P (fold (channel_step fails) ops w)"
  using assms(2,3) by (induction ops arbitrary: w) (simp_all add: channel_step_inv [OF assms(1)])

lemma poller_new_inv:
  assumes "inj_on (\<lambda>p. chan_fd (cs p)) P" and "\<forall>p \<in> P. index (cs p) = kNew"
  shows "poller_inv P (poller_new cs)"
  using assms by (simp add: poller_inv_def poller_new_def in_step_def poller_simps watched_def legal_calls_def)

text \<open>
  A channel that is disabled twice is registered again, for no events: the second call sees
  \<open>kDeleted\<close> and adds it.
\<close>

lemma disable_twice:
  assumes "index (chans w p) = kAdded"
  shows "last (ctl_calls (channel_step fails (Disable_All p) (channel_step fails (Disable_All p) w)))
    = (EPOLL_CTL_ADD, chan_fd (chans w p), 0, p)"
  using assms
  by (simp add: updateChannel_def poller_simps IsNoneEvent_def event_defs)

lemma chans_update_poller [simp]: "chans (update_poller fails operation p w) = chans w"
  by (simp add: update_poller_def Let_def)

section \<open>Properties\<close>

text \<open>
  C22. The poller and the kernel stay in step: whatever sequence of enabling, disabling and
  removing is applied to channels with different descriptors, every \<open>epoll_ctl\<close> call the poller
  makes is legal at the time it is made (\<open>legal_calls\<close>: a descriptor is added only when the kernel does
  not watch it, changed or deleted only when it does), the process never exits, the kernel watches exactly the channels the
  poller counts as added, each with its current events and its own pointer, and \<open>hasChannel\<close> is
  true exactly for the channels that were added and not removed.
\<close>

theorem poller_in_step_with_kernel:
  assumes "documented_kernel fails" and "inj_on (\<lambda>p. chan_fd (cs p)) P"
    and "\<forall>p \<in> P. index (cs p) = kNew" and "\<forall>x \<in> set ops. target x \<in> P"
  shows "let w = fold (channel_step fails) ops (poller_new cs) in
    \<not> exited w \<and> legal_calls (ctl_calls w)
    \<and> (\<forall>p \<in> P. watched (ctl_calls w) (chan_fd (cs p))
         = (if index (chans w p) = kAdded then Some (events (chans w p), p) else None)
       \<and> (hasChannel p w \<longleftrightarrow> index (chans w p) \<noteq> kNew))"
proof -
  let ?w = "fold (channel_step fails) ops (poller_new cs)"
  have fd: "chan_fd (chans ?w p) = chan_fd (cs p)" for p
  proof (induction ops rule: rev_induct)
    case (snoc x xs)
    with step_touches_only [of x "fold (channel_step fails) xs (poller_new cs)" fails]
    show ?case by (simp add: touches_only_def)
  qed (simp add: poller_new_def)
  have "poller_inv P ?w"
    by (rule poller_run_inv [OF assms(1) poller_new_inv [OF assms(2,3)] assms(4)])
  then show ?thesis
    by (auto simp: poller_inv_def in_step_def Let_def chan_view_def hasChannel_def fd)
qed

theorem poller_in_step_with_kernel_witness:
  "let w = fold (channel_step (\<lambda>log call. \<not> call_ok (watched log) call))
       [Enable_Reading 0, Enable_Writing 1, Enable_Writing 0, Disable_All 1, Remove 1]
       (poller_new (\<lambda>p. channel_new (int p + 5)))
   in \<not> exited w \<and> legal_calls (ctl_calls w) \<and> watched (ctl_calls w) 5 = Some (7, 0) \<and> watched (ctl_calls w) 6 = None"
proof -
  let ?fails = "\<lambda>log call. \<not> call_ok (watched log) call"
  let ?w = "fold (channel_step ?fails)
      [Enable_Reading 0, Enable_Writing 1, Enable_Writing 0, Disable_All 1, Remove 1]
      (poller_new (\<lambda>p. channel_new (int p + 5)))"
  have "documented_kernel ?fails" by (simp add: documented_kernel_def)
  moreover have "inj_on (\<lambda>p. chan_fd (channel_new (int p + 5))) {0, 1}"
    by (simp add: channel_new_def)
  moreover have "\<forall>p \<in> {0, 1 :: nat}. index (channel_new (int p + 5)) = kNew"
    by (simp add: channel_new_def kNew_def)
  ultimately have "\<not> exited ?w \<and> legal_calls (ctl_calls ?w) \<and> (\<forall>p \<in> {0, 1}. watched (ctl_calls ?w) (chan_fd (channel_new (int p + 5)))
      = (if index (chans ?w p) = kAdded then Some (events (chans ?w p), p) else None))"
    using poller_in_step_with_kernel [of ?fails "\<lambda>p. channel_new (int p + 5)" "{0, 1}"
        "[Enable_Reading 0, Enable_Writing 1, Enable_Writing 0, Disable_All 1, Remove 1]"]
    by (simp add: Let_def)
  moreover have "index (chans ?w 0) = kAdded" "events (chans ?w 0) = 7" "index (chans ?w 1) = kNew"
    by (simp_all add: updateChannel_def removeChannel_def set_index_def set_events_def Let_def
        poller_new_def channel_new_def IsNoneEvent_def event_defs kNew_def kAdded_def kDeleted_def)
  ultimately show ?thesis by (simp add: channel_new_def kAdded_def kNew_def Let_def)
qed

end
