(* ===== verification/Tcp_Connection.thy ===== *)
theory Tcp_Connection
  imports Byte_Buffer Event_Poller
begin

unbundle bit_operations_syntax

text \<open>
  One TCP connection: \<open>TcpConnection\<close> of \<^verbatim>\<open>src/TcpConnection.h\<close> and \<^verbatim>\<open>src/TcpConnection.cc\<close>.

  The state holds the members of the class, with the events of its channel; the effects outside
  it are recorded: \<open>wire\<close> are the bytes the kernel accepted from \<open>write\<close>, \<open>fin_sent\<close> tells that the write side was shut
  down, \<open>notified\<close> lists the callbacks that ran and \<open>tasks\<close> the functors the connection queued in
  its loop, oldest first. The result of a \<open>write\<close> or \<open>readv\<close> is an argument. The argument
  \<open>in_loop\<close> is \<open>loop_->isInLoopThread()\<close>.
\<close>

section \<open>State\<close>

datatype state_e = kDisconnected | kConnecting | kConnected | kDisconnecting

datatype notification = Connection_Cb bool | Message_Cb | Close_Cb | Write_Complete_Cb
  | High_Water_Cb nat | Error_Logged

datatype conn_task = Send_Task bytes | Shutdown_Task | Force_Close_Task | Write_Complete_Task
  | High_Water_Task nat

record tcp_connection =
  state :: state_e
  channel_events :: u32
  channel_tied :: bool
  channel_removed :: bool
  inputBuffer :: buffer
  outputBuffer :: buffer
  highWaterMark :: nat
  has_write_complete :: bool
  has_high_water :: bool
  lastReceiveTime :: int
  tasks :: "conn_task list"
  notified :: "notification list"
  wire :: bytes
  fin_sent :: bool

definition tcp_connection_new :: "int \<Rightarrow> tcp_connection" where
  "tcp_connection_new now =
     \<lparr>state = kConnecting, channel_events = kNoneEvent, channel_tied = False, channel_removed = False,
      inputBuffer = buffer_new 0, outputBuffer = buffer_new 0, highWaterMark = 64 * 1024 * 1024,
      has_write_complete = False, has_high_water = False, lastReceiveTime = now,
      tasks = [], notified = [], wire = [], fin_sent = False\<rparr>"

definition connected :: "tcp_connection \<Rightarrow> bool" where
  "connected c \<longleftrightarrow> state c = kConnected"

definition write_enabled :: "tcp_connection \<Rightarrow> bool" where
  "write_enabled c \<longleftrightarrow> channel_events c AND kWriteEvent \<noteq> 0"

definition enable_writing :: "tcp_connection \<Rightarrow> tcp_connection" where
  "enable_writing c = c\<lparr>channel_events := channel_events c OR kWriteEvent\<rparr>"

definition disable_writing :: "tcp_connection \<Rightarrow> tcp_connection" where
  "disable_writing c = c\<lparr>channel_events := channel_events c AND NOT kWriteEvent\<rparr>"

definition enable_reading :: "tcp_connection \<Rightarrow> tcp_connection" where
  "enable_reading c = c\<lparr>channel_events := channel_events c OR kReadEvent\<rparr>"

definition disable_all :: "tcp_connection \<Rightarrow> tcp_connection" where
  "disable_all c = c\<lparr>channel_events := kNoneEvent\<rparr>"

definition queue_task :: "conn_task \<Rightarrow> tcp_connection \<Rightarrow> tcp_connection" where
  "queue_task t c = c\<lparr>tasks := tasks c @ [t]\<rparr>"

definition notify :: "notification \<Rightarrow> tcp_connection \<Rightarrow> tcp_connection" where
  "notify n c = c\<lparr>notified := notified c @ [n]\<rparr>"

section \<open>Closing\<close>

definition handleClose :: "tcp_connection \<Rightarrow> tcp_connection" where
  "handleClose c =
     notify Close_Cb (notify (Connection_Cb False) (disable_all (c\<lparr>state := kDisconnected\<rparr>)))"

definition handleError :: "tcp_connection \<Rightarrow> tcp_connection" where
  "handleError c = notify Error_Logged c"

definition shutdownInLoop :: "tcp_connection \<Rightarrow> tcp_connection" where
  "shutdownInLoop c = (if \<not> write_enabled c then c\<lparr>fin_sent := True\<rparr> else c)"

definition shutdown :: "bool \<Rightarrow> tcp_connection \<Rightarrow> tcp_connection" where
  "shutdown in_loop c =
     (if state c = kConnected then
        (let c1 = c\<lparr>state := kDisconnecting\<rparr>
         in if in_loop then shutdownInLoop c1 else queue_task Shutdown_Task c1)
      else c)"

definition forceCloseInLoop :: "tcp_connection \<Rightarrow> tcp_connection" where
  "forceCloseInLoop c =
     (if state c = kConnected \<or> state c = kDisconnecting then handleClose c else c)"

definition forceClose :: "bool \<Rightarrow> tcp_connection \<Rightarrow> tcp_connection" where
  "forceClose in_loop c =
     (if state c = kConnected \<or> state c = kDisconnecting then
        (let c1 = c\<lparr>state := kDisconnecting\<rparr>
         in if in_loop then forceCloseInLoop c1 else queue_task Force_Close_Task c1)
      else c)"

definition connectEstablished :: "tcp_connection \<Rightarrow> tcp_connection" where
  "connectEstablished c =
     notify (Connection_Cb True) (enable_reading (c\<lparr>state := kConnected, channel_tied := True\<rparr>))"

definition connectDestroyed :: "tcp_connection \<Rightarrow> tcp_connection" where
  "connectDestroyed c =
     (let c1 = (if state c = kConnected
                then notify (Connection_Cb False) (disable_all (c\<lparr>state := kDisconnected\<rparr>)) else c)
      in c1\<lparr>channel_removed := True\<rparr>)"

section \<open>Sending\<close>

text \<open>The result of \<open>write\<close>: the number of bytes the kernel took, or \<open>errno\<close>.\<close>

datatype write_result = Wrote nat | Write_Err int

definition EWOULDBLOCK :: int where "EWOULDBLOCK = 11"
definition EPIPE :: int where "EPIPE = 32"
definition ECONNRESET :: int where "ECONNRESET = 104"

definition faultError :: "write_result \<Rightarrow> bool" where
  "faultError r = (case r of
       Wrote n \<Rightarrow> False
     | Write_Err e \<Rightarrow> e \<noteq> EWOULDBLOCK \<and> (e = EPIPE \<or> e = ECONNRESET))"

definition sendInLoop :: "bytes \<Rightarrow> write_result \<Rightarrow> tcp_connection \<Rightarrow> tcp_connection" where
  "sendInLoop data r c =
     (if state c = kDisconnected then c
      else
        let direct = (\<not> write_enabled c \<and> readableBytes (outputBuffer c) = 0);
            nwrote = (if direct then (case r of Wrote n \<Rightarrow> n | Write_Err e \<Rightarrow> 0) else 0);
            fault = (direct \<and> faultError r);
            remaining = length data - nwrote;
            c1 = c\<lparr>wire := wire c @ take nwrote data\<rparr>;
            c2 = (if direct \<and> r = Wrote nwrote \<and> remaining = 0 \<and> has_write_complete c
                  then queue_task Write_Complete_Task c1 else c1)
        in if \<not> fault \<and> 0 < remaining then
             (let oldlen = readableBytes (outputBuffer c2);
                  c3 = (if highWaterMark c2 \<le> oldlen + remaining \<and> oldlen < highWaterMark c2
                           \<and> has_high_water c2
                        then queue_task (High_Water_Task (oldlen + remaining)) c2 else c2);
                  c4 = c3\<lparr>outputBuffer := append_data (drop nwrote data) (outputBuffer c3)\<rparr>
              in if \<not> write_enabled c4 then enable_writing c4 else c4)
           else c2)"

text \<open>
  \<open>send(const std::string &)\<close> and \<open>send(const char *, size_t)\<close>: both copy the bytes into the
  functor when they are called from another thread.
\<close>

definition send :: "bool \<Rightarrow> bytes \<Rightarrow> write_result \<Rightarrow> tcp_connection \<Rightarrow> tcp_connection" where
  "send in_loop data r c =
     (if state c = kConnected
      then (if in_loop then sendInLoop data r c else queue_task (Send_Task data) c) else c)"

text \<open>\<open>send(Buffer *)\<close> empties the buffer it is given, if connected.\<close>

definition send_buffer ::
  "bool \<Rightarrow> buffer \<Rightarrow> write_result \<Rightarrow> tcp_connection \<Rightarrow> (buffer \<times> tcp_connection) option" where
  "send_buffer in_loop b r c =
     (if state c = kConnected then
        (if in_loop then
           map_option (\<lambda>data. (retrieveAll b, sendInLoop data r c)) (peek_bytes (readableBytes b) b)
         else map_option (\<lambda>(data, b1). (b1, send in_loop data r c)) (retrieveAllAsString b))
      else Some (b, c))"

section \<open>Handlers of the channel\<close>

definition handleWrite :: "write_result \<Rightarrow> tcp_connection \<Rightarrow> tcp_connection" where
  "handleWrite r c =
     (if write_enabled c then
        (case r of
           Wrote n \<Rightarrow>
             if 0 < n then
               (let c1 = c\<lparr>wire := wire c @ take n (readable (outputBuffer c)),
                           outputBuffer := retrieve n (outputBuffer c)\<rparr>
                in if readableBytes (outputBuffer c1) = 0 then
                     (let c2 = disable_writing c1;
                          c3 = (if has_write_complete c2 then queue_task Write_Complete_Task c2 else c2)
                      in if state c3 = kDisconnecting then shutdownInLoop c3 else c3)
                   else c1)
             else notify Error_Logged c
         | Write_Err e \<Rightarrow> notify Error_Logged c)
      else notify Error_Logged c)"

text \<open>\<open>handleRead\<close>; the result of \<open>readFd\<close> is stored in a \<open>ssize_t\<close>.\<close>

definition handleRead :: "readv_result \<Rightarrow> int \<Rightarrow> tcp_connection \<Rightarrow> tcp_connection option" where
  "handleRead r now c =
     (case readFd r (inputBuffer c) of
        None \<Rightarrow> None
      | Some (n, saved_error, b) \<Rightarrow>
          let c1 = c\<lparr>inputBuffer := b\<rparr> in
          Some (if 0 <s n then notify Message_Cb (c1\<lparr>lastReceiveTime := now\<rparr>)
                else if n = 0 then handleClose c1
                else handleError c1))"

text \<open>The oldest functor of the connection runs in the loop.\<close>

definition run_task :: "write_result \<Rightarrow> tcp_connection \<Rightarrow> tcp_connection" where
  "run_task r c =
     (case tasks c of
        [] \<Rightarrow> c
      | t # ts \<Rightarrow>
          (let c1 = c\<lparr>tasks := ts\<rparr> in
           case t of
             Send_Task data \<Rightarrow> sendInLoop data r c1
           | Shutdown_Task \<Rightarrow> shutdownInLoop c1
           | Force_Close_Task \<Rightarrow> forceCloseInLoop c1
           | Write_Complete_Task \<Rightarrow> notify Write_Complete_Cb c1
           | High_Water_Task n \<Rightarrow> notify (High_Water_Cb n) c1))"

section \<open>Histories\<close>

datatype conn_event = Send bool bytes write_result | Shutdown bool | Force_Close bool
  | Writable write_result | Peer_Closed | Run_Task write_result | Destroyed

fun conn_step :: "conn_event \<Rightarrow> tcp_connection \<Rightarrow> tcp_connection" where
  "conn_step (Send in_loop data r) c = send in_loop data r c"
| "conn_step (Shutdown in_loop) c = shutdown in_loop c"
| "conn_step (Force_Close in_loop) c = forceClose in_loop c"
| "conn_step (Writable r) c = handleWrite r c"
| "conn_step Peer_Closed c = handleClose c"
| "conn_step (Run_Task r) c = run_task r c"
| "conn_step Destroyed c = connectDestroyed c"

text \<open>The bytes an event hands to the connection's output, by \<open>sendInLoop\<close> while it is open.\<close>

definition offered :: "conn_event \<Rightarrow> tcp_connection \<Rightarrow> bytes" where
  "offered e c = (case e of
       Send in_loop data r \<Rightarrow> if state c = kConnected \<and> in_loop then data else []
     | Run_Task r \<Rightarrow> (case tasks c of Send_Task data # ts \<Rightarrow>
           if state c = kDisconnected then [] else data | _ \<Rightarrow> [])
     | _ \<Rightarrow> [])"

fun accepted :: "conn_event list \<Rightarrow> tcp_connection \<Rightarrow> bytes" where
  "accepted [] c = []"
| "accepted (e # es) c = offered e c @ accepted es (conn_step e c)"

text \<open>
  The kernel takes at most the bytes it is offered. \<open>no_reset\<close> says that the peer has not reset the
  connection (then \<open>sendInLoop\<close> drops the message).
\<close>

definition honest :: "conn_event \<Rightarrow> tcp_connection \<Rightarrow> bool" where
  "honest e c = (case e of
       Send in_loop data r \<Rightarrow> (case r of Wrote n \<Rightarrow> n \<le> length data | Write_Err x \<Rightarrow> \<not> faultError r)
     | Run_Task r \<Rightarrow> (case r of Wrote n \<Rightarrow> n \<le> length (offered e c) | Write_Err x \<Rightarrow> \<not> faultError r)
     | Writable r \<Rightarrow> (write_enabled c \<longrightarrow>
         (case r of Wrote n \<Rightarrow> n \<le> readableBytes (outputBuffer c) | Write_Err x \<Rightarrow> True))
     | _ \<Rightarrow> True)"

fun honest_history :: "conn_event list \<Rightarrow> tcp_connection \<Rightarrow> bool" where
  "honest_history [] c \<longleftrightarrow> True"
| "honest_history (e # es) c \<longleftrightarrow> honest e c \<and> honest_history es (conn_step e c)"

definition conn_run :: "conn_event list \<Rightarrow> tcp_connection \<Rightarrow> tcp_connection" where
  "conn_run es c = fold conn_step es c"

section \<open>The output invariant\<close>

lemma write_enabled_simps [simp]:
  "write_enabled (enable_writing c)"
  "\<not> write_enabled (disable_writing c)"
  "\<not> write_enabled (disable_all c)"
  "write_enabled (enable_reading c) = write_enabled c"
  by (simp_all add: write_enabled_def enable_writing_def disable_writing_def disable_all_def
      enable_reading_def event_defs word_ao_dist word_bw_assocs)

text \<open>Open connections wait for writability exactly while output is pending.\<close>

definition out_inv :: "tcp_connection \<Rightarrow> bool" where
  "out_inv c \<longleftrightarrow> buf_inv (outputBuffer c)
     \<and> (state c \<noteq> kDisconnected \<longrightarrow> (write_enabled c \<longleftrightarrow> readable (outputBuffer c) \<noteq> []))"

definition stream :: "tcp_connection \<Rightarrow> bytes" where
  "stream c = wire c @ readable (outputBuffer c)"

lemma write_enabled_frame [simp]:
  "write_enabled (c\<lparr>state := s\<rparr>) = write_enabled c"
  "write_enabled (c\<lparr>wire := w\<rparr>) = write_enabled c"
  "write_enabled (c\<lparr>outputBuffer := b\<rparr>) = write_enabled c"
  "write_enabled (c\<lparr>tasks := ts\<rparr>) = write_enabled c"
  "write_enabled (c\<lparr>fin_sent := f\<rparr>) = write_enabled c"
  "write_enabled (c\<lparr>channel_removed := r\<rparr>) = write_enabled c"
  "write_enabled (queue_task t c) = write_enabled c"
  "write_enabled (notify n c) = write_enabled c"
  by (simp_all add: write_enabled_def queue_task_def notify_def)

lemmas conn_fields = queue_task_def notify_def enable_writing_def disable_writing_def disable_all_def

lemma frame_fields [simp]:
  "state (queue_task t c) = state c" "outputBuffer (queue_task t c) = outputBuffer c"
  "wire (queue_task t c) = wire c" "fin_sent (queue_task t c) = fin_sent c"
  "highWaterMark (queue_task t c) = highWaterMark c" "has_high_water (queue_task t c) = has_high_water c"
  "state (notify n c) = state c" "outputBuffer (notify n c) = outputBuffer c"
  "wire (notify n c) = wire c" "fin_sent (notify n c) = fin_sent c" "tasks (notify n c) = tasks c"
  "state (enable_writing c) = state c" "outputBuffer (enable_writing c) = outputBuffer c"
  "wire (enable_writing c) = wire c" "fin_sent (enable_writing c) = fin_sent c"
  "tasks (enable_writing c) = tasks c"
  "state (disable_writing c) = state c" "outputBuffer (disable_writing c) = outputBuffer c"
  "wire (disable_writing c) = wire c" "fin_sent (disable_writing c) = fin_sent c"
  "has_write_complete (disable_writing c) = has_write_complete c" "tasks (disable_writing c) = tasks c"
  "state (disable_all c) = state c" "outputBuffer (disable_all c) = outputBuffer c"
  "wire (disable_all c) = wire c" "fin_sent (disable_all c) = fin_sent c" "tasks (disable_all c) = tasks c"
  by (simp_all add: conn_fields)

lemma readableBytes_empty: "buf_inv b \<Longrightarrow> readableBytes b = 0 \<longleftrightarrow> readable b = []"
  by (metis length_0_conv length_readable)

text \<open>\<open>sendInLoop\<close> adds its bytes to the stream, on the wire or in the buffer.\<close>

lemma sendInLoop_effect:
  assumes inv: "out_inv c" and open_: "state c \<noteq> kDisconnected"
    and r: "case r of Wrote n \<Rightarrow> n \<le> length data | Write_Err x \<Rightarrow> \<not> faultError r"
  shows "out_inv (sendInLoop data r c) \<and> stream (sendInLoop data r c) = stream c @ data
    \<and> state (sendInLoop data r c) = state c \<and> fin_sent (sendInLoop data r c) = fin_sent c"
proof -
  have b: "buf_inv (outputBuffer c)" using inv by (simp add: out_inv_def)
  show ?thesis
  proof (cases "\<not> write_enabled c \<and> readableBytes (outputBuffer c) = 0")
    case direct: True
    then have e: "readable (outputBuffer c) = []" using readableBytes_empty [OF b] by simp
    let ?n = "case r of Wrote n \<Rightarrow> n | Write_Err x \<Rightarrow> 0"
    have nf: "\<not> faultError r" using r by (cases r) (simp_all add: faultError_def)
    show ?thesis
    proof (cases "0 < length data - ?n")
      case True
      then show ?thesis using direct e b open_ nf
        by (cases r) (auto simp: sendInLoop_def Let_def out_inv_def stream_def content_simp inv_intro)
    next
      case False
      with r have "take ?n data = data" by (cases r) auto
      with False direct e b open_ nf inv show ?thesis
        by (cases r) (auto simp: sendInLoop_def Let_def out_inv_def stream_def)
    qed
  next
    case False
    then have "write_enabled c" "readable (outputBuffer c) \<noteq> []"
      using inv open_ readableBytes_empty [OF b] by (auto simp: out_inv_def)
    with False b open_ inv show ?thesis
      by (cases "data = []") (auto simp: sendInLoop_def Let_def out_inv_def stream_def content_simp inv_intro)
  qed
qed

lemma handleWrite_effect:
  assumes inv: "out_inv c" and open_: "state c \<noteq> kDisconnected"
    and r: "write_enabled c \<longrightarrow>
      (case r of Wrote n \<Rightarrow> n \<le> readableBytes (outputBuffer c) | Write_Err x \<Rightarrow> True)"
  shows "out_inv (handleWrite r c) \<and> stream (handleWrite r c) = stream c
    \<and> state (handleWrite r c) = state c
    \<and> (fin_sent (handleWrite r c) \<longrightarrow> fin_sent c
         \<or> readable (outputBuffer (handleWrite r c)) = [] \<and> state c = kDisconnecting)"
proof -
  have b: "buf_inv (outputBuffer c)" using inv by (simp add: out_inv_def)
  show ?thesis
  proof (cases "write_enabled c \<and> (\<exists>n. r = Wrote n \<and> 0 < n)")
    case True
    then obtain n where n: "r = Wrote n" "0 < n" "write_enabled c" by blast
    let ?b = "retrieve n (outputBuffer c)"
    have rb: "buf_inv ?b" "readable ?b = drop n (readable (outputBuffer c))"
      using b by (simp_all add: inv_intro content_simp)
    have z: "readableBytes ?b = 0 \<longleftrightarrow> readable ?b = []" by (rule readableBytes_empty [OF rb(1)])
    have s: "take n (readable (outputBuffer c)) @ readable ?b = readable (outputBuffer c)"
      using rb(2) by simp
    show ?thesis
    proof (cases "readable ?b = []")
      case True
      with n rb(1) s z show ?thesis
        by (auto simp: handleWrite_def Let_def out_inv_def stream_def shutdownInLoop_def)
    next
      case False
      with n rb(1) s z inv open_ show ?thesis
        by (auto simp: handleWrite_def Let_def out_inv_def stream_def)
    qed
  next
    case False
    then have "handleWrite r c = notify Error_Logged c"
      by (auto simp: handleWrite_def split: write_result.splits)
    with inv show ?thesis by (simp add: out_inv_def stream_def)
  qed
qed

lemma handleWrite_closed:
  assumes "state c = kDisconnected" and "\<not> write_enabled c"
  shows "handleWrite r c = notify Error_Logged c"
  using assms by (simp add: handleWrite_def)

text \<open>A closed connection watches nothing.\<close>

definition conn_inv :: "tcp_connection \<Rightarrow> bool" where
  "conn_inv c \<longleftrightarrow> out_inv c \<and> (state c = kDisconnected \<longrightarrow> \<not> write_enabled c)"

lemma handleClose_inv: "conn_inv c \<Longrightarrow> conn_inv (handleClose c) \<and> stream (handleClose c) = stream c"
  by (simp add: handleClose_def conn_inv_def out_inv_def stream_def)

lemma conn_inv_frame [simp]:
  "conn_inv (notify n c) = conn_inv c" "stream (notify n c) = stream c"
  "conn_inv (queue_task t c) = conn_inv c" "stream (queue_task t c) = stream c"
  "conn_inv (c\<lparr>tasks := ts\<rparr>) = conn_inv c" "stream (c\<lparr>tasks := ts\<rparr>) = stream c"
  "conn_inv (c\<lparr>fin_sent := f\<rparr>) = conn_inv c" "stream (c\<lparr>fin_sent := f\<rparr>) = stream c"
  "conn_inv (c\<lparr>channel_removed := r\<rparr>) = conn_inv c" "stream (c\<lparr>channel_removed := r\<rparr>) = stream c"
  "stream (c\<lparr>state := s\<rparr>) = stream c" "stream (disable_all c) = stream c"
  by (simp_all add: conn_inv_def out_inv_def stream_def)

lemma conn_inv_disconnecting:
  "conn_inv c \<Longrightarrow> state c \<noteq> kDisconnected \<Longrightarrow> conn_inv (c\<lparr>state := kDisconnecting\<rparr>)"
  by (simp add: conn_inv_def out_inv_def)

lemma sendInLoop_inv:
  assumes "conn_inv c" and "case r of Wrote n \<Rightarrow> n \<le> length data | Write_Err x \<Rightarrow> \<not> faultError r"
    and "state c \<noteq> kDisconnected"
  shows "conn_inv (sendInLoop data r c) \<and> stream (sendInLoop data r c) = stream c @ data"
  using sendInLoop_effect [OF _ assms(3,2)] assms(1,3) by (simp add: conn_inv_def)

lemma conn_step_inv:
  assumes inv: "conn_inv c" and h: "honest e c"
  shows "conn_inv (conn_step e c) \<and> stream (conn_step e c) = stream c @ offered e c"
proof (cases e)
  case (Send in_loop data r)
  with inv h sendInLoop_inv [of c data r] show ?thesis
    by (simp add: send_def offered_def honest_def)
next
  case (Shutdown in_loop)
  with inv conn_inv_disconnecting [OF inv] show ?thesis
    by (simp add: shutdown_def shutdownInLoop_def offered_def Let_def)
next
  case (Force_Close in_loop)
  with inv handleClose_inv [OF conn_inv_disconnecting [OF inv]] conn_inv_disconnecting [OF inv]
  show ?thesis by (auto simp: forceClose_def forceCloseInLoop_def offered_def Let_def)
next
  case (Writable r)
  show ?thesis
  proof (cases "state c = kDisconnected")
    case True
    moreover from this inv have "handleWrite r c = notify Error_Logged c"
      by (intro handleWrite_closed) (simp_all add: conn_inv_def)
    ultimately show ?thesis using Writable inv by (simp add: offered_def)
  next
    case False
    with Writable inv h handleWrite_effect [of c r] show ?thesis
      by (simp add: offered_def conn_inv_def honest_def)
  qed
next
  case Peer_Closed
  with handleClose_inv [OF inv] show ?thesis by (simp add: offered_def)
next
  case (Run_Task r)
  show ?thesis
  proof (cases "tasks c")
    case Nil
    with Run_Task inv show ?thesis by (simp add: run_task_def offered_def)
  next
    case (Cons t ts)
    let ?c = "c\<lparr>tasks := ts\<rparr>"
    have i: "conn_inv ?c" using inv by simp
    show ?thesis
    proof (cases t)
      case (Send_Task data)
      show ?thesis
      proof (cases "state c = kDisconnected")
        case True
        with Run_Task Cons Send_Task inv show ?thesis
          by (simp add: run_task_def offered_def sendInLoop_def)
      next
        case False
        have "offered (Run_Task r) c = data" using Cons Send_Task False by (simp add: offered_def)
        then have "case r of Wrote n \<Rightarrow> n \<le> length data | Write_Err x \<Rightarrow> \<not> faultError r"
          using h Run_Task by (cases r) (simp_all add: honest_def)
        from sendInLoop_inv [OF i this] Run_Task Cons Send_Task False show ?thesis
          by (simp add: run_task_def offered_def)
      qed
    qed (use Run_Task Cons inv handleClose_inv [OF i] in
      \<open>simp_all add: run_task_def offered_def shutdownInLoop_def forceCloseInLoop_def Let_def\<close>)
  qed
next
  case Destroyed
  with inv show ?thesis
    by (auto simp: connectDestroyed_def offered_def Let_def conn_inv_def out_inv_def)
qed

lemma conn_run_inv:
  "conn_inv c \<Longrightarrow> honest_history es c \<Longrightarrow>
     conn_inv (conn_run es c) \<and> stream (conn_run es c) = stream c @ accepted es c"
  by (induction es arbitrary: c) (auto simp: conn_run_def dest: conn_step_inv)

section \<open>Shutting down\<close>

text \<open>Calls from the loop thread only.\<close>

definition on_loop_thread :: "conn_event \<Rightarrow> bool" where
  "on_loop_thread e = (case e of Send in_loop data r \<Rightarrow> in_loop | Shutdown in_loop \<Rightarrow> in_loop
     | Force_Close in_loop \<Rightarrow> in_loop | _ \<Rightarrow> True)"

definition fin_inv :: "tcp_connection \<Rightarrow> bool" where
  "fin_inv c \<longleftrightarrow> conn_inv c
     \<and> (\<forall>t \<in> set (tasks c). t = Write_Complete_Task \<or> (\<exists>n. t = High_Water_Task n))
     \<and> (fin_sent c \<longrightarrow> readable (outputBuffer c) = [] \<and> state c \<noteq> kConnected)"

lemma sendInLoop_tasks:
  "set (tasks (sendInLoop data r c)) \<subseteq> set (tasks c) \<union> {Write_Complete_Task} \<union> range High_Water_Task"
  by (auto simp: sendInLoop_def Let_def queue_task_def)

lemma handleWrite_tasks:
  "set (tasks (handleWrite r c)) \<subseteq> set (tasks c) \<union> {Write_Complete_Task}"
  by (auto simp: handleWrite_def Let_def queue_task_def shutdownInLoop_def split: write_result.splits)

lemma fin_step_inv:
  assumes inv: "fin_inv c" and h: "honest e c" and l: "on_loop_thread e"
  shows "fin_inv (conn_step e c)"
proof -
  have ci: "conn_inv c" and ts: "\<forall>t \<in> set (tasks c). t = Write_Complete_Task \<or> (\<exists>n. t = High_Water_Task n)"
    and f: "fin_sent c \<longrightarrow> readable (outputBuffer c) = [] \<and> state c \<noteq> kConnected"
    using inv by (simp_all add: fin_inv_def)
  note step = conn_step_inv [OF ci h]
  show ?thesis
  proof (cases e)
    case (Send in_loop data r)
    with l have e: "e = Send True data r" by (simp add: on_loop_thread_def)
    show ?thesis
    proof (cases "state c = kConnected")
      case True
      have "case r of Wrote n \<Rightarrow> n \<le> length data | Write_Err x \<Rightarrow> \<not> faultError r"
        using h e by (simp add: honest_def)
      with True ci sendInLoop_effect [of c data r]
      have "fin_sent (sendInLoop data r c) = fin_sent c" by (simp add: conn_inv_def)
      with True e f ts step sendInLoop_tasks [of data r c] show ?thesis
        by (auto simp: fin_inv_def send_def)
    qed (use e inv in \<open>simp add: send_def\<close>)
  next
    case (Shutdown in_loop)
    with l ci ts f step show ?thesis
      by (auto simp: on_loop_thread_def fin_inv_def shutdown_def shutdownInLoop_def Let_def conn_inv_def out_inv_def)
  next
    case (Force_Close in_loop)
    with l ts f step show ?thesis
      by (auto simp: on_loop_thread_def fin_inv_def forceClose_def forceCloseInLoop_def handleClose_def Let_def)
  next
    case (Writable r)
    have "fin_sent (handleWrite r c) \<longrightarrow> readable (outputBuffer (handleWrite r c)) = []
        \<and> state (handleWrite r c) \<noteq> kConnected"
    proof (cases "state c = kDisconnected")
      case True
      moreover from this ci have "handleWrite r c = notify Error_Logged c"
        by (intro handleWrite_closed) (simp_all add: conn_inv_def)
      ultimately show ?thesis using f by simp
    next
      case False
      have o: "out_inv c" using ci by (simp add: conn_inv_def)
      have hr: "write_enabled c \<longrightarrow>
      (case r of Wrote n \<Rightarrow> n \<le> readableBytes (outputBuffer c) | Write_Err x \<Rightarrow> True)"
        using h Writable by (simp add: honest_def)
      have n: "handleWrite r c = notify Error_Logged c" if "fin_sent c"
        using that f o False by (simp add: out_inv_def handleWrite_def)
      from handleWrite_effect [OF o False hr] n f show ?thesis by (cases "fin_sent c") auto
    qed
    with Writable ts step handleWrite_tasks [of r c] show ?thesis by (auto simp: fin_inv_def)
  next
    case Peer_Closed
    with ts f step show ?thesis by (auto simp: fin_inv_def handleClose_def)
  next
    case (Run_Task r)
    with ts f step inv show ?thesis
      by (cases "tasks c") (auto simp: fin_inv_def run_task_def)
  next
    case Destroyed
    with ts f step show ?thesis
      by (auto simp: fin_inv_def connectDestroyed_def Let_def)
  qed
qed

lemma fin_run_inv:
  "fin_inv c \<Longrightarrow> honest_history es c \<Longrightarrow> \<forall>e \<in> set es. on_loop_thread e \<Longrightarrow> fin_inv (conn_run es c)"
  by (induction es arbitrary: c) (auto simp: conn_run_def dest: fin_step_inv)

lemma established_inv:
  "fin_inv (connectEstablished (tcp_connection_new now))"
  "conn_inv (connectEstablished (tcp_connection_new now))"
  "stream (connectEstablished (tcp_connection_new now)) = []"
  by (simp_all add: fin_inv_def conn_inv_def out_inv_def stream_def connectEstablished_def notify_def
      enable_reading_def tcp_connection_new_def inv_intro content_simp write_enabled_def event_defs)

text \<open>Draining: every accepted byte brings a disconnecting connection closer to its FIN.\<close>

lemma drain:
  assumes "conn_inv c" and "state c = kDisconnecting" and "readable (outputBuffer c) = [] \<longrightarrow> fin_sent c"
    and "honest_history (map Writable rs) c" and "\<forall>r \<in> set rs. \<exists>n > 0. r = Wrote n"
    and "readableBytes (outputBuffer c) \<le> length rs"
  shows "fin_sent (conn_run (map Writable rs) c) \<and> wire (conn_run (map Writable rs) c) = stream c"
  using assms
proof (induction rs arbitrary: c)
  case Nil
  then have b: "buf_inv (outputBuffer c)" by (simp add: conn_inv_def out_inv_def)
  from Nil.prems(6) readableBytes_empty [OF b] have "readable (outputBuffer c) = []" by simp
  with Nil.prems(3) show ?case by (simp add: conn_run_def stream_def)
next
  case (Cons r rs)
  from Cons.prems(5) obtain n where n: "r = Wrote n" "0 < n" by auto
  have o: "out_inv c" using Cons.prems(1) by (simp add: conn_inv_def)
  then have b: "buf_inv (outputBuffer c)" by (simp add: out_inv_def)
  have h: "honest (Writable r) c" and hs: "honest_history (map Writable rs) (handleWrite r c)"
    using Cons.prems(4) by simp_all
  have hr: "write_enabled c \<longrightarrow>
      (case r of Wrote n \<Rightarrow> n \<le> readableBytes (outputBuffer c) | Write_Err x \<Rightarrow> True)"
    using h by (simp add: honest_def)
  have ns: "state c \<noteq> kDisconnected" using Cons.prems(2) by simp
  note eff = handleWrite_effect [OF o ns hr]
  have inv: "conn_inv (handleWrite r c)" "stream (handleWrite r c) = stream c"
    using conn_step_inv [OF Cons.prems(1) h] by (simp_all add: offered_def)
  have b': "buf_inv (outputBuffer (handleWrite r c))" using inv(1) by (simp add: conn_inv_def out_inv_def)
  have step: "(readable (outputBuffer (handleWrite r c)) = [] \<longrightarrow> fin_sent (handleWrite r c))
      \<and> readableBytes (outputBuffer (handleWrite r c)) \<le> length rs"
  proof (cases "readable (outputBuffer c) = []")
    case True
    then have "\<not> write_enabled c" using o ns by (simp add: out_inv_def)
    then have "handleWrite r c = notify Error_Logged c" by (simp add: handleWrite_def)
    with True Cons.prems(3) readableBytes_empty [OF b] show ?thesis by simp
  next
    case False
    then have w: "write_enabled c" using o ns by (simp add: out_inv_def)
    let ?b = "retrieve n (outputBuffer c)"
    have rb: "buf_inv ?b" "readable ?b = drop n (readable (outputBuffer c))"
      using b by (simp_all add: inv_intro content_simp)
    have ob: "outputBuffer (handleWrite r c) = ?b"
      using n w by (simp add: handleWrite_def Let_def shutdownInLoop_def)
    have "readableBytes ?b = readableBytes (outputBuffer c) - n"
      using rb b by (metis length_drop length_readable)
    then have "readableBytes ?b \<le> length rs" using n(2) Cons.prems(6) by simp
    moreover have "fin_sent (handleWrite r c)" if "readable ?b = []"
      using that readableBytes_empty [OF rb(1)] n w Cons.prems(2)
      by (simp add: handleWrite_def Let_def shutdownInLoop_def)
    ultimately show ?thesis using ob by simp
  qed
  have "fin_sent (conn_run (map Writable rs) (handleWrite r c))
      \<and> wire (conn_run (map Writable rs) (handleWrite r c)) = stream (handleWrite r c)"
    by (rule Cons.IH) (use inv eff step hs Cons.prems(2,5) in simp_all)
  then show ?case using inv(2) by (simp add: conn_run_def)
qed

section \<open>Open connections used in their loop\<close>

text \<open>An open connection that has been given \<open>out\<close>; an endpoint has also consumed its input.\<close>

definition live :: "bytes \<Rightarrow> tcp_connection \<Rightarrow> bool" where
  "live out c \<longleftrightarrow> fin_inv c \<and> connected c \<and> stream c = out"

definition endpoint :: "bytes \<Rightarrow> tcp_connection \<Rightarrow> bool" where
  "endpoint out c \<longleftrightarrow> live out c \<and> buf_inv (inputBuffer c) \<and> readable (inputBuffer c) = []"

text \<open>A \<open>write\<close> of \<open>n\<close> bytes takes at most \<open>n\<close>, and the peer has not reset the connection.\<close>

definition took :: "write_result \<Rightarrow> nat \<Rightarrow> bool" where
  "took r n \<longleftrightarrow> (case r of Wrote k \<Rightarrow> k \<le> n | Write_Err x \<Rightarrow> \<not> faultError r)"

lemma sendInLoop_keeps [simp]:
  "inputBuffer (sendInLoop d r c) = inputBuffer c" "state (sendInLoop d r c) = state c"
  by (simp_all add: sendInLoop_def Let_def conn_fields)

lemma handleWrite_keeps [simp]:
  "inputBuffer (handleWrite r c) = inputBuffer c" "state (handleWrite r c) = state c"
  by (auto simp: handleWrite_def Let_def conn_fields shutdownInLoop_def split: write_result.split)

lemma run_task_keeps:
  "fin_inv c \<Longrightarrow> inputBuffer (run_task r c) = inputBuffer c \<and> state (run_task r c) = state c"
  by (auto simp: run_task_def fin_inv_def notify_def Let_def split: list.split conn_task.split)

lemma live_step:
  assumes c: "live out c" and h: "honest e c"
    and e: "(\<exists>d r. e = Send True d r) \<or> (\<exists>r. e = Writable r) \<or> (\<exists>r. e = Run_Task r)"
  shows "live (out @ offered e c) (conn_step e c)" "inputBuffer (conn_step e c) = inputBuffer c"
proof -
  from c have i: "fin_inv c" "conn_inv c" and s: "state c = kConnected" "stream c = out"
    by (auto simp: live_def fin_inv_def connected_def)
  have l: "on_loop_thread e" using e by (auto simp: on_loop_thread_def)
  have k: "state (conn_step e c) = kConnected \<and> inputBuffer (conn_step e c) = inputBuffer c"
    using e s(1) run_task_keeps [OF i(1)] by (auto simp: send_def)
  with fin_step_inv [OF i(1) h l] conn_step_inv [OF i(2) h] s(2)
  show "live (out @ offered e c) (conn_step e c)" by (simp add: live_def connected_def)
  from k show "inputBuffer (conn_step e c) = inputBuffer c" by simp
qed

lemma live_send:
  assumes "live out c" "took r (length d)"
  shows "live (out @ d) (send True d r c)" "inputBuffer (send True d r c) = inputBuffer c"
  using live_step [OF assms(1), of "Send True d r"] assms
  by (simp_all add: honest_def took_def offered_def live_def connected_def)

lemma live_writable: "live out c \<Longrightarrow> honest (Writable r) c \<Longrightarrow> live out (handleWrite r c)"
  using live_step(1) [of out c "Writable r"] by (simp add: offered_def)

lemma live_task:
  "live out c \<Longrightarrow> honest (Run_Task r) c \<Longrightarrow>
     live out (run_task r c) \<and> inputBuffer (run_task r c) = inputBuffer c"
  using live_step [of out c "Run_Task r"]
  by (auto simp: offered_def live_def fin_inv_def split: list.splits conn_task.splits)

lemma live_input: "live out (c\<lparr>inputBuffer := b\<rparr>) = live out c"
  by (simp add: live_def fin_inv_def conn_inv_def out_inv_def stream_def connected_def write_enabled_def)

lemma live_new: "live [] (connectEstablished ((tcp_connection_new now)\<lparr>has_write_complete := w\<rparr>))"
  by (simp add: live_def fin_inv_def conn_inv_def out_inv_def stream_def connected_def
      connectEstablished_def notify_def enable_reading_def tcp_connection_new_def inv_intro content_simp
      write_enabled_def event_defs)

lemma endpoint_send: "endpoint out c \<Longrightarrow> took r (length d) \<Longrightarrow> endpoint (out @ d) (send True d r c)"
  using live_send [of out c r d] by (simp add: endpoint_def)

lemma endpoint_writable: "endpoint out c \<Longrightarrow> honest (Writable r) c \<Longrightarrow> endpoint out (handleWrite r c)"
  by (simp add: endpoint_def live_writable)

lemma endpoint_task: "endpoint out c \<Longrightarrow> honest (Run_Task r) c \<Longrightarrow> endpoint out (run_task r c)"
  using live_task [of out c r] by (simp add: endpoint_def)

lemma endpoint_input: "endpoint out c \<Longrightarrow> buf_inv b \<Longrightarrow> readable b = [] \<Longrightarrow> endpoint out (c\<lparr>inputBuffer := b\<rparr>)"
  by (simp add: endpoint_def live_input)

lemma endpoint_new: "endpoint [] (connectEstablished ((tcp_connection_new now)\<lparr>has_write_complete := w\<rparr>))"
  by (simp add: endpoint_def live_new)
    (simp add: connectEstablished_def notify_def enable_reading_def tcp_connection_new_def inv_intro content_simp)

lemma endpoint_fields:
  "endpoint out c \<Longrightarrow> conn_inv c \<and> state c = kConnected \<and> stream c = out \<and> fin_inv c"
  by (auto simp: endpoint_def live_def fin_inv_def connected_def)

text \<open>A message in \<open>b\<close> is sent on and consumed.\<close>

lemma relay_message:
  assumes "endpoint out c" "buf_inv b" "took r (length (readable b))"
  shows "send_buffer True b r c = Some (retrieveAll b, send True (readable b) r c)"
  using assms peek_readable [of b "readableBytes b"]
  by (simp add: send_buffer_def endpoint_def live_def connected_def send_def)

text \<open>Enough successful writes for all that is pending.\<close>

definition draining :: "write_result list \<Rightarrow> tcp_connection \<Rightarrow> bool" where
  "draining rs k \<longleftrightarrow> honest_history (map Writable rs) k \<and> (\<forall>r \<in> set rs. \<exists>n > 0. r = Wrote n)
     \<and> readableBytes (outputBuffer k) \<le> length rs"

lemma shutdown_drains:
  assumes k: "endpoint out k"
  shows "state (shutdown True k) = kDisconnecting
    \<and> (draining rs (shutdown True k) \<longrightarrow> fin_sent (conn_run (map Writable rs) (shutdown True k))
         \<and> wire (conn_run (map Writable rs) (shutdown True k)) = out)"
proof -
  from endpoint_fields [OF k] have c: "conn_inv k" "state k = kConnected" "stream k = out" by simp_all
  from c(1) have i: "conn_inv (shutdown True k) \<and> stream (shutdown True k) = stream k"
    using conn_step_inv [of k "Shutdown True"] by (simp add: honest_def offered_def)
  have o: "state (shutdown True k) = kDisconnecting" "outputBuffer (shutdown True k) = outputBuffer k"
    using c(2) by (simp_all add: shutdown_def shutdownInLoop_def Let_def)
  have "readable (outputBuffer (shutdown True k)) = [] \<longrightarrow> fin_sent (shutdown True k)"
    using c(1,2) o(2) by (simp add: shutdown_def shutdownInLoop_def Let_def conn_inv_def out_inv_def)
  from drain [OF conjunct1 [OF i] o(1) this, of rs] i c(3) o show ?thesis by (simp add: draining_def)
qed

section \<open>Properties\<close>

text \<open>
  C15. No byte is lost, repeated or reordered: as long as the peer does not reset the connection,
  after any history of sends (from the loop or from other threads), partial writes, shutdowns
  and closes, the bytes on the wire followed by those in the output buffer are exactly the
  bytes accepted for sending, in order; and an open connection waits for writability exactly
  while output is pending.
\<close>

theorem connection_stream:
  assumes "honest_history es (connectEstablished (tcp_connection_new now))"
  shows "let c = conn_run es (connectEstablished (tcp_connection_new now)) in
    wire c @ readable (outputBuffer c) = accepted es (connectEstablished (tcp_connection_new now))
    \<and> (state c \<noteq> kDisconnected \<longrightarrow> (write_enabled c \<longleftrightarrow> readable (outputBuffer c) \<noteq> []))"
  using conn_run_inv [OF established_inv(2) assms] established_inv(3) [of now]
  by (simp add: stream_def conn_inv_def out_inv_def Let_def)

lemmas conn_eval = honest_def offered_def faultError_def connectEstablished_def tcp_connection_new_def
  send_def sendInLoop_def Let_def notify_def enable_reading_def enable_writing_def disable_writing_def
  queue_task_def handleWrite_def run_task_def write_enabled_def event_defs readableBytes_def
  buffer_new_def append_data_def ensureWriteableBytes_def writeableBytes_def copy_at_def
  retrieve_def retrieveAll_def kCheapPrepend_def kInitiaSize_def shutdown_def shutdownInLoop_def

definition sample_history :: "conn_event list" where
  "sample_history = [Send True ''hello '' (Wrote 2), Send False ''world'' (Wrote 0),
     Writable (Wrote 4), Run_Task (Wrote 5), Shutdown True]"

lemma sample_history_honest:
  "honest_history sample_history (connectEstablished (tcp_connection_new 0))"
  by (simp add: sample_history_def conn_eval)

theorem connection_stream_witness:
  "wire (conn_run sample_history (connectEstablished (tcp_connection_new 0)))
     @ readable (outputBuffer (conn_run sample_history (connectEstablished (tcp_connection_new 0))))
   = accepted sample_history (connectEstablished (tcp_connection_new 0))"
  using connection_stream [OF sample_history_honest] by (simp add: Let_def)

text \<open>
  C29. Graceful shutdown: when the connection is used from its loop thread, FIN is sent only
  after every accepted byte is on the wire. And it is sent: after \<open>shutdown\<close> of a connected
  connection, as many successful writes as there are pending bytes put all of them on the
  wire and then send FIN, however few bytes each write takes.
\<close>

theorem graceful_shutdown:
  assumes "honest_history es (connectEstablished (tcp_connection_new now))"
    and "\<forall>e \<in> set es. on_loop_thread e"
    and "c = conn_run es (connectEstablished (tcp_connection_new now))"
  shows "(fin_sent c \<longrightarrow> wire c = accepted es (connectEstablished (tcp_connection_new now)))
    \<and> (\<forall>rs. state c = kConnected \<longrightarrow> (\<forall>r \<in> set rs. \<exists>n > 0. r = Wrote n)
         \<longrightarrow> readableBytes (outputBuffer c) \<le> length rs
         \<longrightarrow> honest_history (map Writable rs) (shutdown True c)
         \<longrightarrow> fin_sent (conn_run (Shutdown True # map Writable rs) c)
           \<and> wire (conn_run (Shutdown True # map Writable rs) c)
             = accepted es (connectEstablished (tcp_connection_new now)))"
proof -
  let ?a = "accepted es (connectEstablished (tcp_connection_new now))"
  have inv: "fin_inv c" using fin_run_inv [OF established_inv(1) assms(1,2)] assms(3) by simp
  have st: "stream c = ?a"
    using conn_run_inv [OF established_inv(2) assms(1)] established_inv(3) assms(3) by simp
  have "wire c = ?a" if "fin_sent c" using that inv st by (simp add: fin_inv_def stream_def)
  moreover have "fin_sent (conn_run (Shutdown True # map Writable rs) c)
      \<and> wire (conn_run (Shutdown True # map Writable rs) c) = ?a"
    if rs: "state c = kConnected" "\<forall>r \<in> set rs. \<exists>n > 0. r = Wrote n"
      "readableBytes (outputBuffer c) \<le> length rs" "honest_history (map Writable rs) (shutdown True c)" for rs
  proof -
    have ci: "conn_inv c" using inv by (simp add: fin_inv_def)
    then have si: "conn_inv (shutdown True c) \<and> stream (shutdown True c) = stream c"
      using conn_step_inv [of c "Shutdown True"] by (simp add: honest_def offered_def)
    have o: "state (shutdown True c) = kDisconnecting" "outputBuffer (shutdown True c) = outputBuffer c"
      using rs(1) by (simp_all add: shutdown_def shutdownInLoop_def Let_def)
    have f: "readable (outputBuffer (shutdown True c)) = [] \<longrightarrow> fin_sent (shutdown True c)"
      using rs(1) ci o(2) by (simp add: shutdown_def shutdownInLoop_def Let_def conn_inv_def out_inv_def)
    from drain [OF conjunct1 [OF si] o(1) f rs(4,2)] rs(3) o(2) si st show ?thesis
      by (simp add: conn_run_def)
  qed
  ultimately show ?thesis by blast
qed

text \<open>Three bytes, of which the kernel takes one at once and the others when the socket is writable.\<close>

theorem graceful_shutdown_witness:
  "fin_sent (conn_run (Shutdown True # map Writable [Wrote 2, Wrote 1])
     (conn_run [Send True ''abc'' (Wrote 1)] (connectEstablished (tcp_connection_new 0))))
   \<and> wire (conn_run (Shutdown True # map Writable [Wrote 2, Wrote 1])
     (conn_run [Send True ''abc'' (Wrote 1)] (connectEstablished (tcp_connection_new 0)))) = ''abc''"
proof -
  let ?start = "connectEstablished (tcp_connection_new 0)"
  let ?c = "conn_run [Send True ''abc'' (Wrote 1)] ?start"
  have h: "honest_history [Send True ''abc'' (Wrote 1)] ?start" by (simp add: honest_def)
  have l: "\<forall>e \<in> set [Send True ''abc'' (Wrote 1)]. on_loop_thread e"
    by (simp add: on_loop_thread_def)
  have "state ?c = kConnected \<longrightarrow> (\<forall>r \<in> set [Wrote 2, Wrote 1]. \<exists>n > 0. r = Wrote n)
      \<longrightarrow> readableBytes (outputBuffer ?c) \<le> length [Wrote 2, Wrote 1]
      \<longrightarrow> honest_history (map Writable [Wrote 2, Wrote 1]) (shutdown True ?c)
      \<longrightarrow> fin_sent (conn_run (Shutdown True # map Writable [Wrote 2, Wrote 1]) ?c)
        \<and> wire (conn_run (Shutdown True # map Writable [Wrote 2, Wrote 1]) ?c)
          = accepted [Send True ''abc'' (Wrote 1)] ?start"
    by (rule spec [OF conjunct2 [OF graceful_shutdown [OF h l refl]], where x = "[Wrote 2, Wrote 1]"])
  moreover have "state ?c = kConnected" "readableBytes (outputBuffer ?c) = 2"
    "accepted [Send True ''abc'' (Wrote 1)] ?start = ''abc''"
    by (simp_all add: conn_run_def conn_eval)
  moreover have "honest_history (map Writable [Wrote 2, Wrote 1]) (shutdown True ?c)"
  proof -
    have w: "write_enabled ?c" by (simp add: conn_run_def conn_eval)
    let ?d = "shutdown True ?c"
    have d: "outputBuffer ?d = outputBuffer ?c" "write_enabled ?d"
      using w by (simp_all add: shutdown_def shutdownInLoop_def Let_def)
    have "readableBytes (retrieve 2 (outputBuffer ?c)) = 0"
      using \<open>readableBytes (outputBuffer ?c) = 2\<close>
      by (simp add: retrieve_def retrieveAll_def) (simp add: readableBytes_def)
    then have "\<not> write_enabled (handleWrite (Wrote 2) ?d)"
      using d by (simp add: handleWrite_def Let_def shutdownInLoop_def)
    then show ?thesis using d \<open>readableBytes (outputBuffer ?c) = 2\<close> by (simp add: honest_def)
  qed
  moreover have "\<forall>r \<in> set [Wrote 2, Wrote 1]. \<exists>n > 0. r = Wrote n" by simp
  ultimately show ?thesis by simp
qed

end
