(* ===== verification/Service.thy ===== *)
theory Service
  imports Tcp_Connection
begin

text \<open>
  A server program on its connection: the message callback that \<open>TcpConnection::handleRead\<close> calls
  after each segment, with what it calls on the connection (\<open>send\<close>, \<open>shutdown\<close>), the writes of
  \<open>handleWrite\<close>, queued functors, and timers that may shut the connection down from the thread of
  another loop.

  The locale \<open>stream_service\<close> is the contract of a callback whose answers do not depend on how the
  bytes are cut into segments; \<open>Echo_Server\<close> provides it. \<open>Http_Exchange\<close> uses the run of a
  service without it: \<open>HttpServer\<close> handles one request for each segment.
\<close>

section \<open>A callback and its connection\<close>

datatype action = Answer bytes | Close

text \<open>A callback maps its state and the input buffer to its calls and the state and buffer after it.\<close>

type_synonym 'st message_callback = "'st \<Rightarrow> buffer \<Rightarrow> action list \<times> 'st \<times> buffer"

record 'st service_conn =
  sv_conn :: tcp_connection
  sv_state :: 'st

text \<open>The results are those of the \<open>write\<close> that each \<open>send\<close> may try; when they run out the socket is full.\<close>

fun perform :: "write_result list \<Rightarrow> action list \<Rightarrow> tcp_connection \<Rightarrow> tcp_connection" where
  "perform rs [] k = k"
| "perform rs (Close # as) k = perform rs as (shutdown True k)"
| "perform [] (Answer d # as) k = perform [] as (send True d (Write_Err EWOULDBLOCK) k)"
| "perform (r # rs) (Answer d # as) k = perform rs as (send True d r k)"

definition service_message ::
  "'st message_callback \<Rightarrow> write_result list \<Rightarrow> 'st service_conn \<Rightarrow> 'st service_conn" where
  "service_message cb rs h =
     (case cb (sv_state h) (inputBuffer (sv_conn h)) of
        (as, st, b) \<Rightarrow> h\<lparr>sv_state := st, sv_conn := perform rs as ((sv_conn h)\<lparr>inputBuffer := b\<rparr>)\<rparr>)"

datatype service_event = Arrives int bytes "write_result list" | Writes write_result
  | Runs write_result | Elapses int

definition arrive :: "int \<Rightarrow> bytes \<Rightarrow> tcp_connection \<Rightarrow> tcp_connection" where
  "arrive now s k = k\<lparr>inputBuffer := append_data s (inputBuffer k), lastReceiveTime := now\<rparr>"

text \<open>\<open>timer now k\<close>: whether the timer of the program shuts the connection down.\<close>

fun service_step ::
  "'st message_callback \<Rightarrow> (int \<Rightarrow> tcp_connection \<Rightarrow> bool) \<Rightarrow> service_event
     \<Rightarrow> 'st service_conn \<Rightarrow> 'st service_conn" where
  "service_step cb timer (Arrives now s rs) h = service_message cb rs (h\<lparr>sv_conn := arrive now s (sv_conn h)\<rparr>)"
| "service_step cb timer (Writes r) h = h\<lparr>sv_conn := handleWrite r (sv_conn h)\<rparr>"
| "service_step cb timer (Runs r) h = h\<lparr>sv_conn := run_task r (sv_conn h)\<rparr>"
| "service_step cb timer (Elapses now) h =
     (if timer now (sv_conn h) then h\<lparr>sv_conn := shutdown False (sv_conn h)\<rparr> else h)"

definition service_run ::
  "'st message_callback \<Rightarrow> (int \<Rightarrow> tcp_connection \<Rightarrow> bool) \<Rightarrow> service_event list
     \<Rightarrow> 'st service_conn \<Rightarrow> 'st service_conn" where
  "service_run cb timer es h = fold (service_step cb timer) es h"

definition service_new :: "int \<Rightarrow> 'st \<Rightarrow> 'st service_conn" where
  "service_new now st = \<lparr>sv_conn = connectEstablished (tcp_connection_new now), sv_state = st\<rparr>"

text \<open>What an event makes the program call.\<close>

definition calls_of ::
  "'st message_callback \<Rightarrow> (int \<Rightarrow> tcp_connection \<Rightarrow> bool) \<Rightarrow> service_event
     \<Rightarrow> 'st service_conn \<Rightarrow> action list" where
  "calls_of cb timer e h = (case e of
       Arrives now s rs \<Rightarrow> fst (cb (sv_state h) (append_data s (inputBuffer (sv_conn h))))
     | Elapses now \<Rightarrow> (if timer now (sv_conn h) then [Close] else [])
     | _ \<Rightarrow> [])"

fun trace ::
  "'st message_callback \<Rightarrow> (int \<Rightarrow> tcp_connection \<Rightarrow> bool) \<Rightarrow> service_event list
     \<Rightarrow> 'st service_conn \<Rightarrow> action list" where
  "trace cb timer [] h = []"
| "trace cb timer (e # es) h = calls_of cb timer e h @ trace cb timer es (service_step cb timer e h)"

text \<open>The kernel takes at most what it is offered, and the peer does not reset the connection.\<close>

fun took_all :: "write_result list \<Rightarrow> action list \<Rightarrow> bool" where
  "took_all rs [] \<longleftrightarrow> True"
| "took_all rs (Close # as) \<longleftrightarrow> took_all rs as"
| "took_all [] (Answer d # as) \<longleftrightarrow> True"
| "took_all (r # rs) (Answer d # as) \<longleftrightarrow> took r (length d) \<and> took_all rs as"

definition service_honest ::
  "'st message_callback \<Rightarrow> (int \<Rightarrow> tcp_connection \<Rightarrow> bool) \<Rightarrow> service_event
     \<Rightarrow> 'st service_conn \<Rightarrow> bool" where
  "service_honest cb timer e h = (case e of
       Arrives now s rs \<Rightarrow> took_all rs (calls_of cb timer e h)
     | Writes r \<Rightarrow> honest (Writable r) (sv_conn h)
     | _ \<Rightarrow> True)"

fun service_history ::
  "'st message_callback \<Rightarrow> (int \<Rightarrow> tcp_connection \<Rightarrow> bool) \<Rightarrow> service_event list
     \<Rightarrow> 'st service_conn \<Rightarrow> bool" where
  "service_history cb timer [] h \<longleftrightarrow> True"
| "service_history cb timer (e # es) h \<longleftrightarrow>
     service_honest cb timer e h \<and> service_history cb timer es (service_step cb timer e h)"

definition arrivals :: "service_event list \<Rightarrow> bytes list" where
  "arrivals es = concat (map (\<lambda>e. case e of Arrives now s rs \<Rightarrow> [s] | _ \<Rightarrow> []) es)"

lemma arrivals_simps [simp]:
  "arrivals [] = []" "arrivals (Arrives now s rs # es) = s # arrivals es"
  "arrivals (Writes r # es) = arrivals es" "arrivals (Runs r # es) = arrivals es"
  "arrivals (Elapses now # es) = arrivals es"
  by (simp_all add: arrivals_def)

lemma service_run_simps [simp]:
  "service_run cb timer [] h = h"
  "service_run cb timer (e # es) h = service_run cb timer es (service_step cb timer e h)"
  by (simp_all add: service_run_def)

section \<open>What the calls amount to\<close>

text \<open>The bytes sent before the connection is shut down, and whether it is.\<close>

type_synonym outcome = "bytes \<times> bool"

fun outcome :: "action list \<Rightarrow> outcome" where
  "outcome [] = ([], False)"
| "outcome (Close # as) = ([], True)"
| "outcome (Answer d # as) = (case outcome as of (out, c) \<Rightarrow> (d @ out, c))"

definition then_out :: "outcome \<Rightarrow> outcome \<Rightarrow> outcome" where
  "then_out o1 o2 = (case o1 of (out, c) \<Rightarrow> if c then (out, True) else (case o2 of (out', c') \<Rightarrow> (out @ out', c')))"

lemma then_out_assoc [simp]: "then_out (then_out a b) c = then_out a (then_out b c)"
  by (simp add: then_out_def split: prod.splits)

lemma then_out_nil [simp]: "then_out o1 ([], False) = o1" "then_out ([], False) o1 = o1"
  by (simp_all add: then_out_def split: prod.splits)

lemma outcome_append: "outcome (as @ bs) = then_out (outcome as) (outcome bs)"
  by (induction as rule: outcome.induct) (auto simp: then_out_def split: prod.splits)

lemma outcome_Cons:
  "outcome (Close # as) = then_out ([], True) (outcome as)"
  "outcome (Answer d # as) = then_out (d, False) (outcome as)"
  by (simp_all add: then_out_def)

text \<open>A connection that has been given \<open>o1\<close>. FIN goes out when all is on the wire, unless the functor that
  sends it still waits in the loop.\<close>

definition serving :: "outcome \<Rightarrow> tcp_connection \<Rightarrow> bool" where
  "serving o1 k \<longleftrightarrow> conn_inv k \<and> stream k = fst o1
     \<and> state k = (if snd o1 then kDisconnecting else kConnected)
     \<and> (\<forall>t \<in> set (tasks k). t = Write_Complete_Task \<or> (\<exists>n. t = High_Water_Task n) \<or> t = Shutdown_Task)
     \<and> (Shutdown_Task \<in> set (tasks k) \<longrightarrow> snd o1)
     \<and> (fin_sent k \<longrightarrow> snd o1 \<and> readable (outputBuffer k) = [])
     \<and> (snd o1 \<and> readable (outputBuffer k) = [] \<longrightarrow> fin_sent k \<or> Shutdown_Task \<in> set (tasks k))"

lemma serving_fields:
  assumes "serving o1 k"
  shows "conn_inv k" "out_inv k" "stream k = fst o1" "state k \<noteq> kDisconnected" "buf_inv (outputBuffer k)"
    "state k = kConnected \<longleftrightarrow> \<not> snd o1" "fin_sent k \<Longrightarrow> snd o1 \<and> readable (outputBuffer k) = []"
  using assms by (auto simp: serving_def conn_inv_def out_inv_def)

lemma serving_send:
  assumes s: "serving o1 k" and r: "took r (length d)"
  shows "serving (then_out o1 (d, False)) (send True d r k)"
proof (cases "snd o1")
  case True
  then show ?thesis using s by (cases o1) (simp add: serving_def send_def then_out_def)
next
  case False
  have c: "state k = kConnected" using False serving_fields(6) [OF s] by simp
  have r': "case r of Wrote n \<Rightarrow> n \<le> length d | Write_Err x \<Rightarrow> \<not> faultError r"
    using r by (simp add: took_def)
  have e: "conn_inv (sendInLoop d r k)" "stream (sendInLoop d r k) = fst o1 @ d"
    "fin_sent (sendInLoop d r k) = fin_sent k"
    using sendInLoop_inv [OF serving_fields(1) [OF s] r'] sendInLoop_effect [OF serving_fields(2) [OF s] _ r']
      serving_fields(3) [OF s] c by simp_all
  have "then_out o1 (d, False) = (fst o1 @ d, False)" using False by (cases o1) (simp add: then_out_def)
  moreover have "\<not> fin_sent k" "Shutdown_Task \<notin> set (tasks k)" using s False by (auto simp: serving_def)
  moreover have "\<forall>t \<in> set (tasks k). t = Write_Complete_Task \<or> (\<exists>n. t = High_Water_Task n) \<or> t = Shutdown_Task"
    using s by (simp add: serving_def)
  ultimately show ?thesis using e c sendInLoop_tasks [of d r k] by (auto simp: serving_def send_def)
qed

lemma serving_shutdown:
  assumes s: "serving o1 k"
  shows "serving (then_out o1 ([], True)) (shutdown in_loop k)"
proof (cases "snd o1")
  case True
  then show ?thesis using s by (cases o1) (simp add: serving_def shutdown_def then_out_def)
next
  case False
  note f = serving_fields [OF s]
  have c: "state k = kConnected" using False f(6) by simp
  have "then_out o1 ([], True) = (fst o1, True)" using False by (cases o1) (simp add: then_out_def)
  moreover have "conn_inv (shutdown in_loop k) \<and> stream (shutdown in_loop k) = fst o1"
    using conn_step_inv [OF f(1), of "Shutdown in_loop"] f(3) by (simp add: honest_def offered_def)
  ultimately show ?thesis using s c f(2)
    by (auto simp: serving_def shutdown_def shutdownInLoop_def Let_def queue_task_def out_inv_def)
qed

lemma serving_write:
  assumes s: "serving o1 k" and h: "honest (Writable r) k"
  shows "serving o1 (handleWrite r k)"
proof -
  note f = serving_fields [OF s]
  have r: "write_enabled k \<longrightarrow> (case r of Wrote n \<Rightarrow> n \<le> readableBytes (outputBuffer k) | Write_Err x \<Rightarrow> True)"
    using h by (simp add: honest_def)
  have i: "conn_inv (handleWrite r k)" "stream (handleWrite r k) = stream k"
    using conn_step_inv [OF f(1) h] by (simp_all add: offered_def)
  have fin: "fin_sent (handleWrite r k) \<longrightarrow> snd o1 \<and> readable (outputBuffer (handleWrite r k)) = []"
  proof (cases "fin_sent k")
    case True
    then have "\<not> write_enabled k" using f(2,4,7) by (simp add: out_inv_def)
    with True f(7) show ?thesis by (simp add: handleWrite_def)
  next
    case False
    with handleWrite_effect [OF f(2,4) r] f(6) show ?thesis by auto
  qed
  have last: "fin_sent (handleWrite r k) \<or> Shutdown_Task \<in> set (tasks (handleWrite r k))"
    if "snd o1" "readable (outputBuffer (handleWrite r k)) = []"
    using that s f(2,5) readableBytes_empty [OF buf_inv_retrieve [OF f(5)]]
    by (auto simp: handleWrite_def serving_def Let_def shutdownInLoop_def out_inv_def queue_task_def
        split: write_result.splits if_splits)
  from s have "\<forall>t \<in> set (tasks k). t = Write_Complete_Task \<or> (\<exists>n. t = High_Water_Task n) \<or> t = Shutdown_Task"
    "Shutdown_Task \<in> set (tasks k) \<longrightarrow> snd o1" "state k = (if snd o1 then kDisconnecting else kConnected)"
    by (simp_all add: serving_def)
  with i f(3) fin last handleWrite_tasks [of r k] show ?thesis by (auto simp: serving_def)
qed

lemma serving_task:
  assumes s: "serving o1 k"
  shows "serving o1 (run_task r k)"
proof (cases "tasks k")
  case Nil
  with s show ?thesis by (simp add: run_task_def)
next
  case (Cons t ts)
  note f = serving_fields [OF s]
  from s Cons have t: "t = Write_Complete_Task \<or> (\<exists>n. t = High_Water_Task n) \<or> t = Shutdown_Task"
    by (auto simp: serving_def)
  have r: "run_task r k = (if t = Shutdown_Task then shutdownInLoop (k\<lparr>tasks := ts\<rparr>)
      else notify (if t = Write_Complete_Task then Write_Complete_Cb
        else High_Water_Cb (case t of High_Water_Task n \<Rightarrow> n | _ \<Rightarrow> 0)) (k\<lparr>tasks := ts\<rparr>))"
    using t Cons by (auto simp: run_task_def)
  have w: "write_enabled k \<longleftrightarrow> readable (outputBuffer k) \<noteq> []" using f(2,4) by (simp add: out_inv_def)
  show ?thesis
  proof (cases "t = Shutdown_Task")
    case True
    with s Cons r w show ?thesis by (simp add: serving_def shutdownInLoop_def)
  next
    case False
    with s Cons r show ?thesis by (simp add: serving_def)
  qed
qed

lemma serving_input: "serving o1 (k\<lparr>inputBuffer := b\<rparr>) = serving o1 k" "serving o1 (k\<lparr>lastReceiveTime := t\<rparr>) = serving o1 k"
  by (simp_all add: serving_def conn_inv_def out_inv_def stream_def write_enabled_def)

lemma serving_new: "serving ([], False) (connectEstablished (tcp_connection_new now))"
  using established_inv [of now]
  by (simp add: serving_def) (simp add: connectEstablished_def notify_def enable_reading_def tcp_connection_new_def)

lemma took_all_nil [simp]: "took_all [] as"
  by (induction "[] :: write_result list" as rule: took_all.induct) simp_all

lemma serving_perform: "serving o1 k \<Longrightarrow> took_all rs as \<Longrightarrow> serving (then_out o1 (outcome as)) (perform rs as k)"
proof (induction rs as k arbitrary: o1 rule: perform.induct)
  case (2 rs as k)
  from 2(1) [OF serving_shutdown [OF 2(2)]] 2(3) show ?case by (simp add: outcome_Cons del: outcome.simps)
next
  case (3 d as k)
  have "took (Write_Err EWOULDBLOCK) (length d)" by (simp add: took_def faultError_def)
  from 3(1) [OF serving_send [OF 3(2) this] took_all_nil] show ?case by (simp add: outcome_Cons del: outcome.simps)
next
  case (4 r rs d as k)
  from 4(3) have "took r (length d)" "took_all rs as" by simp_all
  from 4(1) [OF serving_send [OF 4(2) this(1)] this(2)] show ?case by (simp add: outcome_Cons del: outcome.simps)
qed simp

text \<open>Every history: the connection has been given the outcome of all calls.\<close>

lemma service_step_serving:
  assumes s: "serving o1 (sv_conn h)" and e: "service_honest cb timer e h"
  shows "serving (then_out o1 (outcome (calls_of cb timer e h))) (sv_conn (service_step cb timer e h))"
proof (cases e)
  case (Arrives now d rs)
  obtain as st b where m: "cb (sv_state h) (append_data d (inputBuffer (sv_conn h))) = (as, st, b)"
    by (rule prod_cases3)
  have "serving o1 ((arrive now d (sv_conn h))\<lparr>inputBuffer := b\<rparr>)"
    using s by (simp add: arrive_def serving_input)
  from serving_perform [OF this, of rs as] e Arrives m show ?thesis
    by (simp add: service_honest_def calls_of_def service_message_def arrive_def)
next
  case (Writes r)
  with serving_write [OF s] e show ?thesis by (simp add: service_honest_def calls_of_def)
next
  case (Runs r)
  with serving_task [OF s] show ?thesis by (simp add: calls_of_def)
next
  case (Elapses now)
  with s serving_shutdown [OF s, of False] show ?thesis by (simp add: calls_of_def)
qed

lemma service_run_serving:
  "serving o1 (sv_conn h) \<Longrightarrow> service_history cb timer es h \<Longrightarrow>
     serving (then_out o1 (outcome (trace cb timer es h))) (sv_conn (service_run cb timer es h))"
proof (induction es arbitrary: o1 h)
  case (Cons e es)
  from Cons.prems(2) have e: "service_honest cb timer e h" "service_history cb timer es (service_step cb timer e h)"
    by simp_all
  from Cons.IH [OF service_step_serving [OF Cons.prems(1) e(1)] e(2)] show ?case by (simp add: outcome_append)
qed simp

lemma perform_input [simp]: "inputBuffer (perform rs as k) = inputBuffer k"
  by (induction rs as k rule: perform.induct)
    (simp_all add: shutdown_def shutdownInLoop_def Let_def send_def)

lemma quiet_input [simp]:
  "inputBuffer (run_task r k) = inputBuffer k" "inputBuffer (shutdown in_loop k) = inputBuffer k"
  by (simp_all add: run_task_def Let_def notify_def shutdown_def shutdownInLoop_def forceCloseInLoop_def
      handleClose_def disable_all_def queue_task_def split: list.split conn_task.split)

lemma service_step_input:
  "sv_state (service_step cb timer (Arrives now s rs) h) = fst (snd (cb (sv_state h) (append_data s (inputBuffer (sv_conn h)))))"
  "inputBuffer (sv_conn (service_step cb timer (Arrives now s rs) h))
     = snd (snd (cb (sv_state h) (append_data s (inputBuffer (sv_conn h)))))"
  by (simp_all add: service_message_def arrive_def split: prod.split)

section \<open>Services that read a stream\<close>

text \<open>
  The contract of a callback that reads a stream: what it sends, its state and the bytes it leaves in
  the buffer are a function \<open>decode\<close> of its state and the bytes it sees, and do not depend on where the
  stream is cut.
\<close>

locale stream_service =
  fixes cb :: "'st \<Rightarrow> buffer \<Rightarrow> action list \<times> 'st \<times> buffer"
    and decode :: "'st \<Rightarrow> bytes \<Rightarrow> outcome \<times> 'st \<times> bytes"
  assumes reads: "buf_inv b \<Longrightarrow> cb st b = (as, st', b') \<Longrightarrow>
      buf_inv b' \<and> decode st (readable b) = (outcome as, st', readable b')"
    and decode_nil: "decode st [] = (([], False), st, [])"
    and decode_append: "decode st s = (o1, st1, r) \<Longrightarrow> decode st1 (r @ t) = (o2, st2, r') \<Longrightarrow>
      decode st (s @ t) = (then_out o1 o2, st2, r')"
begin

text \<open>\<open>heard\<close>: what arrives before a timer shuts the connection down.\<close>

lemma step_decodes:
  assumes d: "decode st0 s0 = (o1, sv_state h, readable (inputBuffer (sv_conn h)))"
    and b: "buf_inv (inputBuffer (sv_conn h))"
  shows "decode st0 (s0 @ s) = (then_out o1 (outcome (calls_of cb timer (Arrives now s rs) h)),
      sv_state (service_step cb timer (Arrives now s rs) h),
      readable (inputBuffer (sv_conn (service_step cb timer (Arrives now s rs) h))))
    \<and> buf_inv (inputBuffer (sv_conn (service_step cb timer (Arrives now s rs) h)))"
proof -
  let ?b = "append_data s (inputBuffer (sv_conn h))"
  obtain as st b' where m: "cb (sv_state h) ?b = (as, st, b')" by (rule prod_cases3)
  have "buf_inv ?b" "readable ?b = readable (inputBuffer (sv_conn h)) @ s"
    using b by (simp_all add: buf.wf_put buf.content_put)
  with reads [OF this(1) m] decode_append [OF d, of s] m show ?thesis
    by (simp add: calls_of_def service_step_input del: service_step.simps)
qed

end

text \<open>The bytes that arrive before a timer shuts the connection down, and whether one does.\<close>

fun heard ::
  "'st message_callback \<Rightarrow> (int \<Rightarrow> tcp_connection \<Rightarrow> bool) \<Rightarrow> service_event list
     \<Rightarrow> 'st service_conn \<Rightarrow> bytes \<times> bool" where
  "heard cb timer [] h = ([], False)"
| "heard cb timer (e # es) h =
     (if (case e of Elapses now \<Rightarrow> timer now (sv_conn h) | _ \<Rightarrow> False) then ([], True)
      else (case heard cb timer es (service_step cb timer e h) of
              (s, f) \<Rightarrow> (concat (arrivals [e]) @ s, f)))"

lemma heard_no_timer: "heard cb (\<lambda>_ _. False) es h = (concat (arrivals es), False)"
  by (induction es arbitrary: h) (auto split: service_event.split)

context stream_service
begin

lemma trace_decodes:
  "decode st0 s0 = (o1, sv_state h, readable (inputBuffer (sv_conn h))) \<Longrightarrow> buf_inv (inputBuffer (sv_conn h)) \<Longrightarrow>
     heard cb timer es h = (s, f) \<Longrightarrow>
     then_out o1 (outcome (trace cb timer es h)) = then_out (fst (decode st0 (s0 @ s))) ([], f)"
proof (induction es arbitrary: h s0 o1 s)
  case (Cons e es)
  show ?case
  proof (cases e)
    case (Arrives now d rs)
    note st = step_decodes [OF Cons.prems(1,2), of d timer now rs]
    from Cons.prems(3) Arrives obtain s' where s': "heard cb timer es (service_step cb timer e h) = (s', f)" "s = d @ s'"
      by (auto simp del: service_step.simps split: prod.splits)
    from Cons.IH [OF conjunct1 [OF st] conjunct2 [OF st]] s' Arrives show ?thesis
      by (simp add: outcome_append del: service_step.simps)
  next
    case (Elapses now)
    show ?thesis
    proof (cases "timer now (sv_conn h)")
      case True
      with Cons.prems Elapses show ?thesis by (auto simp: calls_of_def then_out_def split: prod.splits)
    next
      case False
      with Cons Elapses show ?thesis by (auto simp: calls_of_def split: prod.splits)
    qed
  qed (use Cons in \<open>auto simp: calls_of_def split: prod.splits\<close>)
qed (simp add: then_out_def)

lemma run_decodes:
  "decode st0 s0 = (o1, sv_state h, readable (inputBuffer (sv_conn h))) \<Longrightarrow> buf_inv (inputBuffer (sv_conn h)) \<Longrightarrow>
     snd (decode st0 (s0 @ concat (arrivals es)))
       = (sv_state (service_run cb timer es h), readable (inputBuffer (sv_conn (service_run cb timer es h))))"
proof (induction es arbitrary: h s0 o1)
  case (Cons e es)
  show ?case
  proof (cases e)
    case (Arrives now d rs)
    note st = step_decodes [OF Cons.prems, of d timer now rs]
    from Cons.IH [OF conjunct1 [OF st] conjunct2 [OF st]] Arrives show ?thesis by (simp del: service_step.simps)
  next
    case (Elapses now)
    with Cons.IH [of s0 o1 "service_step cb timer e h"] Cons.prems show ?thesis by simp
  next
    case (Writes r)
    with Cons.IH [of s0 o1 "service_step cb timer e h"] Cons.prems show ?thesis by simp
  next
    case (Runs r)
    with Cons.IH [of s0 o1 "service_step cb timer e h"] Cons.prems show ?thesis by simp
  qed
qed simp

text \<open>The service on a new connection.\<close>

lemma service_decodes:
  assumes "service_history cb timer es (service_new now st0)"
    and "heard cb timer es (service_new now st0) = (s, f)" and "decode st0 s = ((out, c), st, r)"
    and "k = sv_conn (service_run cb timer es (service_new now st0))"
  shows "serving (out, c \<or> f) k"
    and "decode st0 (concat (arrivals es)) = (o2, st2, r2) \<Longrightarrow> readable (inputBuffer k) = r2"
proof -
  let ?h = "service_new now st0"
  have n: "sv_conn ?h = connectEstablished (tcp_connection_new now)" "sv_state ?h = st0"
    by (simp_all add: service_new_def)
  have b: "buf_inv (inputBuffer (sv_conn ?h))" "readable (inputBuffer (sv_conn ?h)) = []"
    by (simp_all add: n(1) connectEstablished_def notify_def enable_reading_def tcp_connection_new_def
        inv_intro content_simp)
  have d: "decode st0 [] = (([], False), sv_state ?h, readable (inputBuffer (sv_conn ?h)))"
    using decode_nil n b by simp
  have "then_out (out, c) ([], f) = (out, c \<or> f)" by (simp add: then_out_def)
  with trace_decodes [OF d b(1) assms(2)] assms(3) have "outcome (trace cb timer es ?h) = (out, c \<or> f)" by simp
  with service_run_serving [OF _ assms(1), of "([], False)"] serving_new [of now]
  show "serving (out, c \<or> f) k" unfolding assms(4) n by simp
  show "readable (inputBuffer k) = r2" if "decode st0 (concat (arrivals es)) = (o2, st2, r2)"
    using run_decodes [OF d b(1), of es timer] that assms(4) by simp
qed

end

end
