(* ===== verification/Http_Exchange.thy ===== *)
theory Http_Exchange
  imports Http_Server Service
begin

text \<open>
  A service over HTTP: \<open>HttpServer\<close> (\<open>Http_Server\<close>) as the message callback of its \<open>TcpConnection\<close>
  (\<open>Service\<close>), with a request callback that answers by \<open>HttpServer::respond\<close>, and a client that reads
  the answers with \<open>HttpParser\<close>.
\<close>

section \<open>The server on its connection\<close>

type_synonym service = "http_call \<Rightarrow> nat \<times> bytes \<times> bytes"

definition reply :: "service \<Rightarrow> http_call \<Rightarrow> bytes" where
  "reply app c = (case app c of (status, body, contentType) \<Rightarrow> respond status body contentType)"

definition http_callback :: "service \<Rightarrow> conn_state message_callback" where
  "http_callback app st b =
     (case onMessage True st b of (calls, st1, b1) \<Rightarrow> (map (\<lambda>c. Answer (reply app c)) calls, st1, b1))"

definition http_run :: "service \<Rightarrow> int \<Rightarrow> service_event list \<Rightarrow> tcp_connection" where
  "http_run app now es = sv_conn (service_run (http_callback app) (\<lambda>_ _. False) es (service_new now onConnection))"

definition http_history :: "service \<Rightarrow> int \<Rightarrow> service_event list \<Rightarrow> bool" where
  "http_history app now es \<longleftrightarrow>
     service_history (http_callback app) (\<lambda>_ _. False) es (service_new now onConnection)"

section \<open>Answers\<close>

lemma outcome_answers: "outcome (map (\<lambda>c. Answer (f c)) cs) = (concat (map f cs), False)"
  by (induction cs) simp_all

text \<open>The connection is given the replies to the calls that the server makes.\<close>

lemma http_trace:
  "segments True (arrivals es) (sv_state h, inputBuffer (sv_conn h)) = (calls, st, b) \<Longrightarrow>
     trace (http_callback app) (\<lambda>_ _. False) es h = map (\<lambda>c. Answer (reply app c)) calls"
proof (induction es arbitrary: h calls)
  case (Cons e es)
  let ?step = "service_step (http_callback app) (\<lambda>_ _. False) e h"
  show ?case
  proof (cases e)
    case (Arrives now s rs)
    obtain cs st1 b1 where m: "onMessage True (sv_state h) (append_data s (inputBuffer (sv_conn h))) = (cs, st1, b1)"
      by (rule prod_cases3)
    then obtain cs' where s: "segments True (arrivals es) (st1, b1) = (cs', st, b)" "calls = cs @ cs'"
      using Cons.prems Arrives by (auto simp: segment_Cons split: prod.splits)
    have "(sv_state ?step, inputBuffer (sv_conn ?step)) = (st1, b1)"
      using Arrives m by (simp add: service_step_input http_callback_def del: service_step.simps)
    moreover have "calls_of (http_callback app) (\<lambda>_ _. False) e h = map (\<lambda>c. Answer (reply app c)) cs"
      using Arrives m by (simp add: calls_of_def http_callback_def)
    ultimately show ?thesis using Cons.IH [of ?step cs'] s by simp
  next
    case (Writes r)
    with Cons.IH [of ?step calls] Cons.prems show ?thesis by (simp add: calls_of_def)
  next
    case (Runs r)
    with Cons.IH [of ?step calls] Cons.prems show ?thesis by (simp add: calls_of_def)
  next
    case (Elapses now)
    with Cons.IH [of ?step calls] Cons.prems show ?thesis by (simp add: calls_of_def)
  qed
qed simp

lemma http_run_calls:
  assumes "http_history app now es" and "segments True (arrivals es) (onConnection, buffer_new 0) = (calls, st, b)"
  shows "serving (concat (map (reply app) calls), False) (http_run app now es)"
proof -
  let ?h = "service_new now onConnection"
  have n: "sv_conn ?h = connectEstablished (tcp_connection_new now)" "sv_state ?h = onConnection"
    "inputBuffer (sv_conn ?h) = buffer_new 0"
    by (simp_all add: service_new_def connectEstablished_def notify_def enable_reading_def tcp_connection_new_def)
  have "serving ([], False) (sv_conn ?h)" by (simp add: n(1) serving_new)
  from service_run_serving [OF this assms(1) [unfolded http_history_def]] http_trace [of es ?h calls st b app]
    assms(2) n(2,3)
  show ?thesis by (simp add: http_run_def outcome_answers)
qed

text \<open>A client sends one request after the other; each is a head, what it means, and a body.\<close>

type_synonym request_msg = "bytes \<times> phr_request \<times> bytes"

definition request_ok :: "request_msg \<Rightarrow> bool" where
  "request_ok q = (case q of (p, x, body) \<Rightarrow>
     request_head max_headers p x \<and> declared_length (rq_headers x) = length body)"

definition request_bytes :: "request_msg \<Rightarrow> bytes" where
  "request_bytes q = (case q of (p, x, body) \<Rightarrow> p @ body)"

definition call_for :: "request_msg \<Rightarrow> http_call \<Rightarrow> bool" where
  "call_for q c = (case q of (p, x, body) \<Rightarrow>
     call_method c = rq_method x \<and> call_path c = rq_path x \<and> call_body c = body)"

lemma segments_append:
  "segments cb (ss @ ts) c = (case segments cb ss c of (cs, c1) \<Rightarrow>
     case segments cb ts c1 of (cs', c2) \<Rightarrow> (cs @ cs', c2))"
  by (induction ss arbitrary: c) (simp_all add: segments.simps(2) split: prod.split)

lemma requests_served:
  "\<forall>q \<in> set qs. request_ok q \<Longrightarrow> list_all2 (\<lambda>ss q. concat ss = request_bytes q) sss qs \<Longrightarrow>
     buf_inv b \<Longrightarrow> readable b = [] \<Longrightarrow>
     \<exists>calls b'. segments True (concat sss) (onConnection, b) = (calls, onConnection, b')
       \<and> list_all2 call_for qs calls \<and> buf_inv b' \<and> readable b' = []"
proof (induction qs arbitrary: sss b)
  case Nil
  then show ?case by simp
next
  case (Cons q qs)
  from Cons.prems(2) obtain ss tss where sss: "sss = ss # tss" "concat ss = request_bytes q"
    "list_all2 (\<lambda>ss q. concat ss = request_bytes q) tss qs" by (auto simp: list_all2_Cons2)
  obtain p x body where q: "q = (p, x, body)" by (rule prod_cases3)
  with Cons.prems(1) have r: "request_head max_headers p x" "declared_length (rq_headers x) = length body"
    by (simp_all add: request_ok_def)
  have "0 < length p" using rq.head_not_empty [OF r(1)] by simp
  with segments_head [OF r Cons.prems(3,4), of ss] sss(2) q have "served x body (segments True ss (onConnection, b))"
    by (simp add: request_bytes_def)
  then obtain hdrs b1 where s: "segments True ss (onConnection, b) = ([the_request x hdrs body], onConnection, b1)"
    "buf_inv b1" "readable b1 = []" by (auto simp: served_def)
  from Cons.IH [OF _ sss(3) s(2,3)] Cons.prems(1) obtain calls b2 where
    "segments True (concat tss) (onConnection, b1) = (calls, onConnection, b2)" "list_all2 call_for qs calls"
    "buf_inv b2" "readable b2 = []" by auto
  moreover have "call_for q (the_request x hdrs body)" by (simp add: q call_for_def the_request_def)
  ultimately show ?case using s(1) sss(1) by (simp add: segments_append)
qed

section \<open>The exchange\<close>

text \<open>A service that looks at the method, the path and the body.\<close>

type_synonym handler = "bytes \<Rightarrow> bytes \<Rightarrow> bytes \<Rightarrow> nat \<times> bytes \<times> bytes"

definition serve :: "handler \<Rightarrow> service" where
  "serve f c = f (call_method c) (call_path c) (call_body c)"

definition answer_to :: "handler \<Rightarrow> request_msg \<Rightarrow> nat \<times> bytes \<times> bytes" where
  "answer_to f q = (case q of (p, x, body) \<Rightarrow> f (rq_method x) (rq_path x) body)"

definition answer_ok :: "nat \<times> bytes \<times> bytes \<Rightarrow> bool" where
  "answer_ok a = (case a of (status, body, contentType) \<Rightarrow>
     100 \<le> status \<and> status \<le> 999 \<and> length body < 2 ^ 64 \<and> clean_field (''Content-Type'', contentType))"

definition answer_bytes :: "nat \<times> bytes \<times> bytes \<Rightarrow> bytes" where
  "answer_bytes a = (case a of (status, body, contentType) \<Rightarrow> respond status body contentType)"

text \<open>A client reads \<open>n\<close> responses with \<open>HttpParser\<close>: a new parser for each, the head, then the body.\<close>

fun read_responses :: "nat \<Rightarrow> buffer \<Rightarrow> (nat \<times> bytes) list option" where
  "read_responses 0 b = Some []"
| "read_responses (Suc n) b =
     (case parseResponse b parser_new of
        (False, p) \<Rightarrow> None
      | (True, p) \<Rightarrow>
          case retrieveAsString (content_length p) (retrieveHeader p b) of
            None \<Rightarrow> None
          | Some (body, b') \<Rightarrow>
              case read_responses n b' of None \<Rightarrow> None | Some rs \<Rightarrow> Some ((resp_status p, body) # rs))"

lemma buf_inv_retrieveHeader [inv_intro]: "buf_inv b \<Longrightarrow> buf_inv (retrieveHeader p b)"
  by (simp add: retrieveHeader_def inv_intro)

lemma call_reply: "call_for q c \<Longrightarrow> reply (serve f) c = answer_bytes (answer_to f q)"
  by (auto simp: call_for_def reply_def serve_def answer_to_def answer_bytes_def split: prod.splits)

lemma calls_replies:
  "list_all2 call_for qs calls \<Longrightarrow> map (reply (serve f)) calls = map (\<lambda>q. answer_bytes (answer_to f q)) qs"
  by (induction rule: list_all2_induct) (simp_all add: call_reply)

lemma answers_read:
  "\<forall>a \<in> set as. answer_ok a \<Longrightarrow> buf_inv b \<Longrightarrow> readable b = concat (map answer_bytes as) \<Longrightarrow>
     read_responses (length as) b = Some (map (\<lambda>(status, body, contentType). (status, body)) as)"
proof (induction as arbitrary: b)
  case (Cons a as)
  obtain status body ct where a: "a = (status, body, ct)" by (rule prod_cases3)
  from Cons.prems(1) a have ok: "100 \<le> status" "status \<le> 999" "length body < 2 ^ 64"
    "clean_field (''Content-Type'', ct)" by (simp_all add: answer_ok_def)
  have r: "readable b = respond status body ct @ concat (map answer_bytes as)"
    using Cons.prems(3) by (simp add: a answer_bytes_def [of "(status, body, ct)"])
  obtain q where q: "parseResponse b parser_new = (True, q)" "resp_status q = status"
    "content_length q = length body" "readable (retrieveHeader q b) = body @ concat (map answer_bytes as)"
    using respond_parses [OF ok Cons.prems(2) r] by blast
  have "buf_inv (retrieveHeader q b)" using Cons.prems(2) by (simp add: inv_intro)
  moreover have "content_length q \<le> readableBytes (retrieveHeader q b)" using length_readable [OF calculation] q(3,4) by simp
  ultimately obtain b' where b': "retrieveAsString (content_length q) (retrieveHeader q b) = Some (body, b')"
    "buf_inv b'" "readable b' = concat (map answer_bytes as)"
    using retrieveAsString_ok [of "retrieveHeader q b" "content_length q"] q(3,4) by auto
  from Cons.IH [OF _ b'(2,3)] Cons.prems(1) q(1,2) b'(1) a show ?case by simp
qed simp

section \<open>Properties\<close>

text \<open>C2. A client sends well-formed requests over one connection, each in segments of its own, split in
  any way, and the server answers with \<open>HttpServer::respond\<close>. Whatever the kernel takes of each write,
  the bytes on the wire followed by those still to be written are the answers of the service to the
  requests, once each and in order; and a client that receives them and parses them with \<open>HttpParser\<close>
  reads exactly the statuses and bodies that the service gave.\<close>

theorem http_answers:
  assumes "\<forall>q \<in> set qs. request_ok q \<and> answer_ok (answer_to f q)"
    and "list_all2 (\<lambda>ss q. concat ss = request_bytes q) sss qs"
    and "arrivals es = concat sss" and "http_history (serve f) now es" and "k = http_run (serve f) now es"
  shows "wire k @ readable (outputBuffer k) = concat (map (\<lambda>q. answer_bytes (answer_to f q)) qs)
    \<and> read_responses (length qs) (append_data (wire k @ readable (outputBuffer k)) (buffer_new 0))
        = Some (map (\<lambda>q. case answer_to f q of (status, body, contentType) \<Rightarrow> (status, body)) qs)"
proof -
  from requests_served [OF _ assms(2) buf_inv_new readable_new, of 0] assms(1) obtain calls b where
    c: "segments True (concat sss) (onConnection, buffer_new 0) = (calls, onConnection, b)" "list_all2 call_for qs calls"
    by auto
  from http_run_calls [OF assms(4), unfolded assms(3), OF c(1)] calls_replies [OF c(2)]
  have s: "wire k @ readable (outputBuffer k) = concat (map (\<lambda>q. answer_bytes (answer_to f q)) qs)"
    by (simp add: assms(5) serving_def stream_def)
  then show ?thesis
    using answers_read [of "map (answer_to f) qs" "append_data (wire k @ readable (outputBuffer k)) (buffer_new 0)"]
      assms(1)
    by (simp add: buf_inv_append buf_inv_new readable_append readable_new comp_def)
qed

text \<open>Two requests, the first in three segments; the kernel takes a part of each answer at once.\<close>

definition sample_service :: handler where
  "sample_service m p body = (if body = sample_body then 200 else 404, m @ p, ''text/plain'')"

definition sample_msg :: request_msg where
  "sample_msg = (sample_head, sample_request, sample_body)"

definition sample_split :: "bytes list list" where
  "sample_split = [[take 9 sample_head, drop 9 sample_head @ take 4 sample_body, drop 4 sample_body],
     [sample_head @ sample_body]]"

definition sample_exchange :: "service_event list" where
  "sample_exchange = map (\<lambda>s. Arrives 1 s [Wrote 9]) (hd sample_split) @ [Writes (Write_Err EWOULDBLOCK)]
     @ map (\<lambda>s. Arrives 2 s []) (hd (tl sample_split)) @ [Writes (Wrote 0)]"

lemma reply_long: "9 \<le> length (reply app c)"
  by (simp add: reply_def respond_def split: prod.split)

lemma took_nine: "took_all [Wrote 9] (map (\<lambda>c. Answer (reply app c)) cs)"
  by (cases cs) (simp_all add: took_def reply_long)

lemma calls_took: "took_all [Wrote 9] (calls_of (http_callback app) timer (Arrives now s rs) h)"
  by (simp add: calls_of_def http_callback_def took_nine split: prod.split)

lemma sample_honest: "http_history app now sample_exchange"
  by (simp add: http_history_def sample_exchange_def sample_split_def service_honest_def calls_took honest_def
      del: service_step.simps)

theorem http_answers_witness:
  "\<exists>k. k = http_run (serve sample_service) 0 sample_exchange
    \<and> wire k @ readable (outputBuffer k) = concat (map (\<lambda>q. answer_bytes (answer_to sample_service q)) [sample_msg, sample_msg])
    \<and> read_responses (length [sample_msg, sample_msg])
          (append_data (wire k @ readable (outputBuffer k)) (buffer_new 0))
        = Some (map (\<lambda>q. case answer_to sample_service q of (status, body, contentType) \<Rightarrow> (status, body))
            [sample_msg, sample_msg])"
proof -
  have "clean_field (''Content-Type'', ''text/plain'')" by code_simp
  moreover have "length (''POST'' @ ''/'') < 2 ^ 64" by simp
  moreover have "rq_method sample_request = ''POST''" "rq_path sample_request = ''/''"
    by (simp_all add: sample_request_def)
  ultimately have "\<forall>q \<in> set [sample_msg, sample_msg]. request_ok q \<and> answer_ok (answer_to sample_service q)"
    by (simp add: sample_msg_def request_ok_def sample_ok sample_length answer_to_def answer_ok_def
        sample_service_def)
  moreover have "list_all2 (\<lambda>ss q. concat ss = request_bytes q) sample_split [sample_msg, sample_msg]"
    by (simp add: sample_split_def sample_msg_def request_bytes_def)
  moreover have "arrivals sample_exchange = concat sample_split"
    by (simp add: arrivals_def sample_exchange_def sample_split_def)
  ultimately show ?thesis using http_answers [OF _ _ _ sample_honest refl, of _ sample_service _ 0] by blast
qed

end
