(* ===== verification/Server_Node.thy ===== *)
theory Server_Node
  imports Prelude
begin

text \<open>
  A backend server: \<open>ServerNode\<close> of \<^verbatim>\<open>Proxy/src/Common/ServerNode.h\<close>. The health checker reports
  the outcome of each probe to \<open>updateStatus\<close>; a node dies after \<open>fail_standard\<close> failures in a row
  and comes back after \<open>success_standard\<close> successes in a row.

  The counters and the weights are C++ \<open>int\<close>s; they are integers here, and the lemmas show the
  bounds that keep them far from overflow. An address is an IP address and a port number in
  their printed form.
\<close>

section \<open>The node\<close>

record inet_address =
  addr_ip :: bytes
  addr_port :: nat

text \<open>\<open>toIpPort\<close>: the two parts with a colon between them.\<close>

definition toIpPort :: "inet_address \<Rightarrow> bytes" where
  "toIpPort a = addr_ip a @ '':'' @ to_string (addr_port a)"

record server_node =
  node_addr :: inet_address
  node_weight :: int
  success_standard :: int
  fail_standard :: int
  is_alive :: bool
  success_count :: int
  fail_count :: int
  current_weight :: int

definition server_node_new :: "inet_address \<Rightarrow> int \<Rightarrow> int \<Rightarrow> int \<Rightarrow> server_node" where
  "server_node_new addr weight s_std f_std =
     \<lparr>node_addr = addr, node_weight = weight, success_standard = s_std, fail_standard = f_std,
      is_alive = True, success_count = 0, fail_count = 0, current_weight = 0\<rparr>"

definition updateStatus :: "bool \<Rightarrow> server_node \<Rightarrow> server_node" where
  "updateStatus success n =
     (if success then
        (let n1 = n\<lparr>fail_count := 0, success_count := success_count n + 1\<rparr>
         in if success_standard n1 \<le> success_count n1
            then n1\<lparr>is_alive := True, success_count := success_standard n1\<rparr>
            else n1)
      else
        (let n1 = n\<lparr>success_count := 0, fail_count := fail_count n + 1\<rparr>
         in if fail_standard n1 \<le> fail_count n1
            then n1\<lparr>is_alive := False, fail_count := fail_standard n1\<rparr>
            else n1))"

text \<open>The node after a history of probes, oldest first.\<close>

definition probed :: "bool list \<Rightarrow> server_node \<Rightarrow> server_node" where
  "probed h n = fold updateStatus h n"

lemma probed_snoc: "probed (h @ [r]) n = updateStatus r (probed h n)"
  by (simp add: probed_def)

section \<open>Counters\<close>

text \<open>The number of equal results at the end of a history.\<close>

definition trailing :: "bool \<Rightarrow> bool list \<Rightarrow> nat" where
  "trailing r h = length (takeWhile (\<lambda>x. x = r) (rev h))"

lemma trailing_snoc [simp]:
  "trailing r (h @ [x]) = (if x = r then Suc (trailing r h) else 0)"
  by (simp add: trailing_def)

lemma trailing_ge: "k \<le> trailing r h \<longleftrightarrow> (\<exists>pre. h = pre @ replicate k r)"
proof (induction k arbitrary: h)
  case (Suc k)
  show ?case
  proof (cases h rule: rev_cases)
    case (snoc g x)
    have "(\<exists>pre. g @ [x] = pre @ replicate (Suc k) r) \<longleftrightarrow> x = r \<and> (\<exists>pre. g = pre @ replicate k r)"
      by (auto simp: replicate_append_same [symmetric])
    with snoc Suc.IH [of g] show ?thesis by simp
  qed (simp add: trailing_def)
qed simp

text \<open>What the two counters hold.\<close>

lemma probed_counts:
  assumes "0 < s" and "0 < f"
  shows "fail_count (probed h (server_node_new a w (int s) (int f))) = int (min f (trailing False h))
    \<and> success_count (probed h (server_node_new a w (int s) (int f))) = int (min s (trailing True h))
    \<and> fail_standard (probed h (server_node_new a w (int s) (int f))) = int f
    \<and> success_standard (probed h (server_node_new a w (int s) (int f))) = int s"
proof (induction h rule: rev_induct)
  case Nil
  then show ?case by (simp add: probed_def server_node_new_def trailing_def)
next
  case (snoc r h)
  with assms show ?case by (cases r) (auto simp: probed_snoc updateStatus_def Let_def min_def)
qed

lemma probed_alive_snoc:
  assumes "0 < s" and "0 < f"
  shows "is_alive (probed (h @ [r]) (server_node_new a w (int s) (int f))) \<longleftrightarrow>
    (if r then s \<le> trailing True (h @ [r]) \<or> is_alive (probed h (server_node_new a w (int s) (int f)))
     else trailing False (h @ [r]) < f \<and> is_alive (probed h (server_node_new a w (int s) (int f))))"
  using probed_counts [OF assms, of h a w] assms
  by (cases r) (auto simp: probed_snoc updateStatus_def Let_def min_def split: if_splits)

section \<open>When a node is dead\<close>

text \<open>\<open>down h\<close>: a run of \<open>f\<close> failures that no run of \<open>s\<close> successes has followed.\<close>

definition contains :: "'a list \<Rightarrow> 'a list \<Rightarrow> bool" where
  "contains h w \<longleftrightarrow> (\<exists>pre post. h = pre @ w @ post)"

definition down :: "nat \<Rightarrow> nat \<Rightarrow> bool list \<Rightarrow> bool" where
  "down s f h \<longleftrightarrow>
     (\<exists>pre post. h = pre @ replicate f False @ post \<and> \<not> contains post (replicate s True))"

lemma contains_snoc: "contains (h @ [x]) w \<longleftrightarrow> contains h w \<or> (\<exists>pre. h @ [x] = pre @ w)"
proof
  assume "contains (h @ [x]) w"
  then obtain pre post where e: "h @ [x] = pre @ w @ post" by (auto simp: contains_def)
  then show "contains h w \<or> (\<exists>pre. h @ [x] = pre @ w)"
    by (cases post rule: rev_cases) (auto simp: contains_def)
next
  assume "contains h w \<or> (\<exists>pre. h @ [x] = pre @ w)"
  then show "contains (h @ [x]) w"
  proof
    assume "contains h w"
    then obtain pre post where "h @ [x] = pre @ w @ (post @ [x])" by (auto simp: contains_def)
    then show ?thesis unfolding contains_def by blast
  next
    assume "\<exists>pre. h @ [x] = pre @ w"
    then obtain pre where "h @ [x] = pre @ w @ []" by auto
    then show ?thesis unfolding contains_def by blast
  qed
qed

lemma down_snoc_fail:
  assumes "0 < s"
  shows "down s f (h @ [False]) \<longleftrightarrow> down s f h \<or> f \<le> trailing False (h @ [False])"
proof
  assume "down s f (h @ [False])"
  then obtain pre post where e: "h @ [False] = pre @ replicate f False @ post"
    and n: "\<not> contains post (replicate s True)" by (auto simp: down_def)
  show "down s f h \<or> f \<le> trailing False (h @ [False])"
  proof (cases post rule: rev_cases)
    case Nil
    with e show ?thesis unfolding trailing_ge by auto
  next
    case (snoc post' x)
    with e have "h = pre @ replicate f False @ post'" by simp
    moreover from n snoc have "\<not> contains post' (replicate s True)" by (simp add: contains_snoc)
    ultimately show ?thesis by (auto simp: down_def)
  qed
next
  have nil: "\<not> contains [] (replicate s True)" using assms by (simp add: contains_def)
  assume "down s f h \<or> f \<le> trailing False (h @ [False])"
  then show "down s f (h @ [False])"
  proof
    assume "down s f h"
    then obtain pre post where e: "h = pre @ replicate f False @ post"
      and n: "\<not> contains post (replicate s True)" by (auto simp: down_def)
    have "post @ [False] \<noteq> p @ replicate s True" for p
      using assms by (cases s) (auto simp: replicate_append_same [symmetric])
    with n have "\<not> contains (post @ [False]) (replicate s True)" by (simp add: contains_snoc)
    with e show ?thesis unfolding down_def by (intro exI [of _ pre] exI [of _ "post @ [False]"]) simp
  next
    assume "f \<le> trailing False (h @ [False])"
    with nil show ?thesis unfolding trailing_ge down_def by force
  qed
qed

lemma shorter_suffix: "xs @ ys = q @ w \<Longrightarrow> length w \<le> length ys \<Longrightarrow> \<exists>r. ys = r @ w"
proof -
  assume "xs @ ys = q @ w" and l: "length w \<le> length ys"
  then consider us where "us @ ys = w" | us where "ys = us @ w"
    unfolding append_eq_append_conv2 by blast
  then show ?thesis
  proof cases
    case 1
    then have "length us + length ys = length w" by auto
    with l have "length us = 0" by linarith
    then have "us = []" by simp
    with 1 show ?thesis by (intro exI [of _ "[]"]) simp
  qed blast
qed

lemma down_snoc_success:
  assumes "0 < s" and "0 < f"
  shows "down s f (h @ [True]) \<longleftrightarrow> down s f h \<and> trailing True (h @ [True]) < s"
proof
  assume "down s f (h @ [True])"
  then obtain pre post where e: "h @ [True] = pre @ replicate f False @ post"
    and n: "\<not> contains post (replicate s True)" by (auto simp: down_def)
  have "post \<noteq> []"
  proof
    assume "post = []"
    with e have "h @ [True] = pre @ replicate f False" by simp
    with assms(2) show False by (cases f) (auto simp: replicate_append_same [symmetric])
  qed
  then obtain post' x where p: "post = post' @ [x]" by (cases post rule: rev_cases) auto
  with e have h: "h = pre @ replicate f False @ post'" and x: "x = True" by simp_all
  have "down s f h" using h n p by (auto simp: down_def contains_snoc)
  moreover have lp: "trailing True (h @ [True]) \<le> length post"
  proof -
    obtain f' where "f = Suc f'" using assms(2) by (cases f) auto
    then have "h @ [True] = (pre @ replicate f' False) @ False # post"
      using h p x by (simp add: replicate_append_same [symmetric])
    with length_takeWhile_le [of "\<lambda>x. x" "rev post"] show ?thesis
      by (simp add: trailing_def takeWhile_append)
  qed
  moreover have "\<not> s \<le> trailing True (h @ [True])"
  proof
    assume a: "s \<le> trailing True (h @ [True])"
    then obtain q where q: "h @ [True] = q @ replicate s True" unfolding trailing_ge by blast
    with e have eq: "(pre @ replicate f False) @ post = q @ replicate s True" by simp
    have "s \<le> length post" using a lp by simp
    with shorter_suffix [OF eq] have "\<exists>r. post = r @ replicate s True" by simp
    then obtain r where "post = r @ replicate s True @ []" by auto
    with n show False unfolding contains_def by blast
  qed
  ultimately show "down s f h \<and> trailing True (h @ [True]) < s" by simp
next
  assume a: "down s f h \<and> trailing True (h @ [True]) < s"
  then obtain pre post where e: "h = pre @ replicate f False @ post"
    and n: "\<not> contains post (replicate s True)" by (auto simp: down_def)
  have "post @ [True] \<noteq> p @ replicate s True" for p
  proof
    assume "post @ [True] = p @ replicate s True"
    with e have "h @ [True] = (pre @ replicate f False @ p) @ replicate s True" by simp
    then have "s \<le> trailing True (h @ [True])" unfolding trailing_ge by blast
    with a show False by simp
  qed
  with n have "\<not> contains (post @ [True]) (replicate s True)" by (simp add: contains_snoc)
  with e show "down s f (h @ [True])"
    unfolding down_def by (intro exI [of _ pre] exI [of _ "post @ [True]"]) simp
qed

section \<open>Properties\<close>

lemma probed_alive:
  assumes "0 < s" and "0 < f"
  shows "is_alive (probed h (server_node_new a w (int s) (int f))) \<longleftrightarrow> \<not> down s f h"
proof (induction h rule: rev_induct)
  case Nil
  from assms(2) have "\<not> down s f []" by (simp add: down_def)
  then show ?case by (simp add: probed_def server_node_new_def)
next
  case (snoc r h)
  with probed_alive_snoc [OF assms, of h r a w] down_snoc_fail [OF assms(1), of f h]
    down_snoc_success [OF assms, of h]
  show ?case by (cases r) (auto simp del: trailing_snoc)
qed

text \<open>
  C27. The health state machine: after any history of probes, a node is dead if and only if
  the history has \<open>fail_standard\<close> failures in a row after which there were never
  \<open>success_standard\<close> successes in a row; and the two counters stay between 0 and their
  standards, so they cannot overflow however long the node is probed.
\<close>

theorem node_dead_iff:
  assumes "0 < s" and "0 < f"
  shows "(\<not> is_alive (probed h (server_node_new a w (int s) (int f))) \<longleftrightarrow>
      (\<exists>pre post. h = pre @ replicate f False @ post \<and> \<not> contains post (replicate s True)))
    \<and> fail_count (probed h (server_node_new a w (int s) (int f))) \<in> {0..int f}
    \<and> success_count (probed h (server_node_new a w (int s) (int f))) \<in> {0..int s}"
  using probed_alive [OF assms] probed_counts [OF assms, of h a w] by (simp add: down_def)

text \<open>With the default standards (3 successes, 2 failures): two failures kill the node, two
  successes do not bring it back, a third does.\<close>

theorem node_dead_iff_witness:
  "\<not> is_alive (probed [True, False, False, True, True]
       (server_node_new \<lparr>addr_ip = ''10.0.0.1'', addr_port = 80\<rparr> 1 3 2))
   \<and> is_alive (probed [True, False, False, True, True, True]
       (server_node_new \<lparr>addr_ip = ''10.0.0.1'', addr_port = 80\<rparr> 1 3 2))"
proof -
  have "contains [] (replicate 3 True) = False" by (simp add: contains_def)
  have d: "\<exists>pre post. [True, False, False, True, True] = pre @ replicate 2 False @ post
      \<and> \<not> contains post (replicate 3 True)"
    by (rule exI [of _ "[True]"], rule exI [of _ "[True, True]"])
      (auto simp: contains_def numeral_eq_Suc Cons_eq_append_conv)
  then show ?thesis
    using node_dead_iff [of 3 2 "[True, False, False, True, True]"
        "\<lparr>addr_ip = ''10.0.0.1'', addr_port = 80\<rparr>" 1]
    by (simp add: probed_snoc [of "[True, False, False, True, True]", simplified] updateStatus_def
        probed_def server_node_new_def Let_def)
qed

end
