(* ===== verification/Selector.thy ===== *)
theory Selector
  imports Server_Node Cow_Cell
begin

text \<open>
  Backend selection: \<open>Selector\<close> of \<^verbatim>\<open>Proxy/src/Common/Selector.h\<close> and
  \<^verbatim>\<open>Proxy/src/Common/Selector.cc\<close>. A selector holds a list of nodes for smooth weighted round
  robin and a hash ring with 100 virtual nodes per server for consistent hashing; both live in
  copy-on-write cells. Nodes are shared objects: the list holds pointers, and the object a
  pointer stands for is in \<open>node_store\<close>, where the round robin keeps its current weights.

  \<open>std::hash<std::string>\<close> is a parameter \<open>hash\<close> of the ring operations. \<open>None\<close> as an answer stands
  for the address \<open>0.0.0.0:0\<close>.
\<close>

section \<open>The hash ring\<close>

text \<open>A \<open>std::map<size_t, InetAddress>\<close> in iteration order.\<close>

type_synonym hash_ring = "(u64 \<times> inet_address) list"

fun ring_insert :: "u64 \<Rightarrow> inet_address \<Rightarrow> hash_ring \<Rightarrow> hash_ring" where
  "ring_insert k v [] = [(k, v)]"
| "ring_insert k v ((k', v') # m) =
     (if k < k' then (k, v) # (k', v') # m
      else if k = k' then (k, v) # m
      else (k', v') # ring_insert k v m)"

definition ring_erase :: "u64 \<Rightarrow> hash_ring \<Rightarrow> hash_ring" where
  "ring_erase k m = filter (\<lambda>e. fst e \<noteq> k) m"

definition kVirtualNodes :: nat where
  "kVirtualNodes = 100"

definition vnode_name :: "inet_address \<Rightarrow> nat \<Rightarrow> bytes" where
  "vnode_name a i = toIpPort a @ ''#'' @ to_string i"

definition ring_add_node :: "(bytes \<Rightarrow> u64) \<Rightarrow> inet_address \<Rightarrow> hash_ring \<Rightarrow> hash_ring" where
  "ring_add_node hash a m =
     fold (\<lambda>i. ring_insert (hash (vnode_name a i)) a) [0..<kVirtualNodes] m"

definition ring_remove_node :: "(bytes \<Rightarrow> u64) \<Rightarrow> inet_address \<Rightarrow> hash_ring \<Rightarrow> hash_ring" where
  "ring_remove_node hash a m =
     fold (\<lambda>i. ring_erase (hash (vnode_name a i))) [0..<kVirtualNodes] m"

text \<open>\<open>lower_bound\<close>, and back to \<open>begin()\<close> past the end.\<close>

definition ring_lookup :: "hash_ring \<Rightarrow> u64 \<Rightarrow> inet_address option" where
  "ring_lookup m h =
     (if m = [] then None
      else case find (\<lambda>e. h \<le> fst e) m of
        None \<Rightarrow> Some (snd (hd m))
      | Some e \<Rightarrow> Some (snd e))"

section \<open>Smooth weighted round robin\<close>

type_synonym node_store = "nat \<Rightarrow> server_node"

definition eligible :: "bool \<Rightarrow> server_node \<Rightarrow> bool" where
  "eligible panic n \<longleftrightarrow> is_alive n \<or> panic"

text \<open>The loop over the nodes: raise the current weights, remember the first largest one.\<close>

fun swrr_loop ::
  "bool \<Rightarrow> nat list \<Rightarrow> node_store \<times> nat option \<times> int \<Rightarrow> node_store \<times> nat option \<times> int" where
  "swrr_loop panic [] acc = acc"
| "swrr_loop panic (p # ps) (st, best, total_w) =
     (if \<not> is_alive (st p) \<and> \<not> panic then swrr_loop panic ps (st, best, total_w)
      else
        let st1 = st(p := (st p)\<lparr>current_weight := current_weight (st p) + node_weight (st p)\<rparr>);
            best1 = (case best of
                None \<Rightarrow> Some p
              | Some q \<Rightarrow> if current_weight (st1 p) > current_weight (st1 q) then Some p else Some q)
        in swrr_loop panic ps (st1, best1, total_w + node_weight (st p)))"

definition alive_count :: "nat list \<Rightarrow> node_store \<Rightarrow> nat" where
  "alive_count ns st = length (filter (\<lambda>p. is_alive (st p)) ns)"

definition panic_mode :: "nat list \<Rightarrow> node_store \<Rightarrow> bool" where
  "panic_mode ns st \<longleftrightarrow> alive_count ns st * 100 div length ns < 20"

definition swrr_select :: "nat list \<Rightarrow> node_store \<Rightarrow> nat option \<times> node_store" where
  "swrr_select ns st =
     (case swrr_loop (panic_mode ns st) ns (st, None, 0) of (st1, best, total_w) \<Rightarrow>
       (case best of
          Some b \<Rightarrow> (Some b, st1(b := (st1 b)\<lparr>current_weight := current_weight (st1 b) - total_w\<rparr>))
        | None \<Rightarrow> (None, st1)))"

section \<open>The selector\<close>

record selector =
  serverGroup :: "nat list cow"
  ring_cell :: "hash_ring cow"
  nodes :: node_store
  failed_requests :: int

definition selector_new :: "node_store \<Rightarrow> selector" where
  "selector_new st =
     \<lparr>serverGroup = cow_new [], ring_cell = cow_new [], nodes = st, failed_requests = 0\<rparr>"

definition addNode :: "(bytes \<Rightarrow> u64) \<Rightarrow> nat \<Rightarrow> selector \<Rightarrow> selector" where
  "addNode hash node s =
     s\<lparr>serverGroup := cow_modify (\<lambda>ns. ns @ [node]) (serverGroup s),
       ring_cell := cow_modify (ring_add_node hash (node_addr (nodes s node))) (ring_cell s)\<rparr>"

definition removeNode :: "(bytes \<Rightarrow> u64) \<Rightarrow> nat \<Rightarrow> selector \<Rightarrow> selector" where
  "removeNode hash node s =
     s\<lparr>serverGroup := cow_modify (filter (\<lambda>p. p \<noteq> node)) (serverGroup s),
       ring_cell := cow_modify (ring_remove_node hash (node_addr (nodes s node))) (ring_cell s)\<rparr>"

definition getNextServer :: "selector \<Rightarrow> inet_address option \<times> selector" where
  "getNextServer s =
     (case cow_snapshot (serverGroup s) of (p, g) \<Rightarrow>
       let ns = the (cow_deref g p);
           done_g = cow_release p g
       in if ns = [] then
            (None, s\<lparr>serverGroup := done_g, failed_requests := failed_requests s + 1\<rparr>)
          else
            (case swrr_select ns (nodes s) of (best, st) \<Rightarrow>
              (map_option (\<lambda>b. node_addr (st b)) best, s\<lparr>serverGroup := done_g, nodes := st\<rparr>)))"

definition getNextServer_key :: "(bytes \<Rightarrow> u64) \<Rightarrow> bytes \<Rightarrow> selector \<Rightarrow> inet_address option \<times> selector" where
  "getNextServer_key hash key s =
     (case cow_snapshot (ring_cell s) of (p, r) \<Rightarrow>
       (ring_lookup (the (cow_deref r p)) (hash key), s\<lparr>ring_cell := cow_release p r\<rparr>))"

section \<open>Routing by key\<close>

lemma find_ring_insert:
  "find (\<lambda>e. h \<le> fst e) (ring_insert k v m) = Some (k, v)
   \<or> find (\<lambda>e. h \<le> fst e) (ring_insert k v m) = find (\<lambda>e. h \<le> fst e) m"
  by (induction k v m rule: ring_insert.induct) auto

lemma ring_insert_not_empty [simp]: "ring_insert k v m \<noteq> []"
  by (cases "(k, v, m)" rule: ring_insert.cases) auto

lemma hd_ring_insert: "hd (ring_insert k v m) = (k, v) \<or> (m \<noteq> [] \<and> hd (ring_insert k v m) = hd m)"
  by (cases "(k, v, m)" rule: ring_insert.cases) auto

lemma ring_lookup_insert:
  "m \<noteq> [] \<Longrightarrow> ring_lookup (ring_insert k v m) h \<in> {ring_lookup m h, Some v}"
  using find_ring_insert [of h k v m] hd_ring_insert [of k v m]
  by (auto simp: ring_lookup_def split: option.splits)

lemma ring_lookup_inserts:
  "m \<noteq> [] \<Longrightarrow> ring_lookup (fold (\<lambda>i. ring_insert (f i) v) is m) h \<in> {ring_lookup m h, Some v}"
proof (induction "is" arbitrary: m)
  case (Cons i js)
  then have "ring_lookup (fold (\<lambda>i. ring_insert (f i) v) js (ring_insert (f i) v m)) h
      \<in> {ring_lookup (ring_insert (f i) v m) h, Some v}" by simp
  with ring_lookup_insert [OF Cons.prems, of "f i" v h] show ?case by auto
qed simp

text \<open>Every entry of the ring is a virtual node of its server.\<close>

definition ring_sound :: "(bytes \<Rightarrow> u64) \<Rightarrow> hash_ring \<Rightarrow> bool" where
  "ring_sound hash m \<longleftrightarrow> (\<forall>e \<in> set m. \<exists>i < kVirtualNodes. fst e = hash (vnode_name (snd e) i))"

definition ring_sorted :: "hash_ring \<Rightarrow> bool" where
  "ring_sorted m \<longleftrightarrow> sorted_wrt (<) (map fst m)"

lemma set_ring_insert: "set (ring_insert k v m) \<subseteq> insert (k, v) (set m)"
  by (induction k v m rule: ring_insert.induct) auto

lemma fst_ring_insert: "fst ` set (ring_insert k v m) = insert k (fst ` set m)"
  by (induction k v m rule: ring_insert.induct) auto

lemma ring_sorted_insert: "ring_sorted m \<Longrightarrow> ring_sorted (ring_insert k v m)"
proof (induction k v m rule: ring_insert.induct)
  case (2 k v k' v' m)
  show ?case
  proof (cases "k < k' \<or> k = k'")
    case True
    with 2 show ?thesis by (auto simp: ring_sorted_def)
  next
    case False
    then have "k' < k" by auto
    moreover from 2(2) have "ring_sorted m" by (simp add: ring_sorted_def)
    with False 2(1) have "ring_sorted (ring_insert k v m)" by simp
    moreover have "\<forall>x \<in> fst ` set (ring_insert k v m). k' < x"
      using 2(2) \<open>k' < k\<close> unfolding fst_ring_insert by (auto simp: ring_sorted_def)
    ultimately show ?thesis using False by (auto simp: ring_sorted_def)
  qed
qed (simp add: ring_sorted_def)

lemma ring_erase_all: "fold (\<lambda>i. ring_erase (f i)) is m = filter (\<lambda>e. \<forall>i \<in> set is. fst e \<noteq> f i) m"
proof (induction "is" arbitrary: m)
  case (Cons i js)
  then show ?case by (simp add: ring_erase_def conj_commute)
qed simp

lemma ring_remove_node_filter:
  "ring_remove_node hash a m = filter (\<lambda>e. \<forall>i < kVirtualNodes. fst e \<noteq> hash (vnode_name a i)) m"
  unfolding ring_remove_node_def ring_erase_all by (intro filter_cong refl) auto

lemma ring_sound_add: "ring_sound hash m \<Longrightarrow> ring_sound hash (ring_add_node hash a m)"
proof -
  have "set is \<subseteq> {..<kVirtualNodes} \<Longrightarrow> ring_sound hash m \<Longrightarrow>
      ring_sound hash (fold (\<lambda>i. ring_insert (hash (vnode_name a i)) a) is m)" for "is"
  proof (induction "is" arbitrary: m)
    case (Cons i js)
    then have "ring_sound hash (ring_insert (hash (vnode_name a i)) a m)"
      using set_ring_insert [of "hash (vnode_name a i)" a m] by (fastforce simp: ring_sound_def)
    with Cons show ?case by simp
  qed simp
  then show "ring_sound hash m \<Longrightarrow> ?thesis" by (simp add: ring_add_node_def atLeast0LessThan)
qed

lemma ring_sorted_add: "ring_sorted m \<Longrightarrow> ring_sorted (ring_add_node hash a m)"
proof -
  have "ring_sorted m \<Longrightarrow> ring_sorted (fold (\<lambda>i. ring_insert (f i) a) is m)" for f :: "nat \<Rightarrow> u64" and "is"
    by (induction "is" arbitrary: m) (simp_all add: ring_sorted_insert)
  then show "ring_sorted m \<Longrightarrow> ?thesis" by (simp add: ring_add_node_def)
qed

lemma ring_sound_remove: "ring_sound hash m \<Longrightarrow> ring_sound hash (ring_remove_node hash a m)"
  by (simp add: ring_remove_node_filter ring_sound_def)

lemma ring_sorted_remove: "ring_sorted m \<Longrightarrow> ring_sorted (ring_remove_node hash a m)"
  by (simp add: ring_remove_node_filter ring_sorted_def sorted_wrt_filter sorted_wrt_map)

text \<open>A removed server is gone from the ring.\<close>

lemma removed_not_in_ring:
  "ring_sound hash m \<Longrightarrow> (k, a) \<notin> set (ring_remove_node hash a m)"
  by (fastforce simp: ring_remove_node_filter ring_sound_def)

lemma ring_lookup_value: "ring_lookup m h = Some b \<Longrightarrow> \<exists>k. (k, b) \<in> set m"
proof -
  assume l: "ring_lookup m h = Some b"
  then have m: "m \<noteq> []" by (auto simp: ring_lookup_def)
  show ?thesis
  proof (cases "find (\<lambda>e. h \<le> fst e) m")
    case None
    with l m have "snd (hd m) = b" "hd m \<in> set m" by (simp_all add: ring_lookup_def)
    then show ?thesis by (metis prod.collapse)
  next
    case (Some e)
    with l m have "snd e = b" "e \<in> set m"
      by (auto simp: ring_lookup_def find_Some_iff)
    then show ?thesis by (metis prod.collapse)
  qed
qed

lemma find_filter:
  "find P m = Some e \<Longrightarrow> Q e \<Longrightarrow> find P (filter Q m) = Some e"
  by (induction m) (auto split: if_splits)

lemma find_filter_None: "find P m = None \<Longrightarrow> find P (filter Q m) = None"
  by (simp add: find_None_iff)

lemma ring_lookup_filter:
  assumes "ring_lookup m h = Some b" and "\<And>e. e \<in> set m \<Longrightarrow> snd e = b \<Longrightarrow> Q e"
  shows "ring_lookup (filter Q m) h = Some b"
proof -
  have m: "m \<noteq> []" using assms(1) by (auto simp: ring_lookup_def)
  show ?thesis
  proof (cases "find (\<lambda>e. h \<le> fst e) m")
    case None
    with assms m obtain e m' where e: "m = e # m'" "snd e = b" "Q e"
      by (cases m) (auto simp: ring_lookup_def)
    with None find_filter_None [OF None, of Q] show ?thesis by (simp add: ring_lookup_def)
  next
    case (Some e)
    then have "e \<in> set m" by (auto simp: find_Some_iff)
    moreover from Some assms(1) m have "snd e = b" by (simp add: ring_lookup_def)
    ultimately have "Q e" "snd e = b" using assms(2) by blast+
    then have "find (\<lambda>e. h \<le> fst e) (filter Q m) = Some e" by (intro find_filter [OF Some])
    moreover from this have "filter Q m \<noteq> []" by (metis find.simps(1) option.distinct(1))
    ultimately show ?thesis using \<open>snd e = b\<close> by (simp add: ring_lookup_def)
  qed
qed

text \<open>In a sorted ring the entry found is the clockwise successor.\<close>

lemma ring_lookup_successor:
  assumes "ring_sorted m" and "m \<noteq> []"
  shows "\<exists>k b. ring_lookup m h = Some b \<and> (k, b) \<in> set m
    \<and> (if \<exists>e \<in> set m. h \<le> fst e
       then h \<le> k \<and> (\<forall>e \<in> set m. h \<le> fst e \<longrightarrow> k \<le> fst e)
       else \<forall>e \<in> set m. k \<le> fst e)"
proof (cases "find (\<lambda>e. h \<le> fst e) m")
  case None
  then have "\<not> (\<exists>e \<in> set m. h \<le> fst e)" unfolding find_None_iff by blast
  moreover obtain k b m' where "m = (k, b) # m'" using assms(2) by (cases m) auto
  ultimately show ?thesis using None assms(1)
    by (intro exI [of _ k] exI [of _ b]) (auto simp: ring_lookup_def ring_sorted_def)
next
  case (Some e)
  then obtain i where i: "i < length m" "e = m ! i" "h \<le> fst e" "\<forall>j < i. \<not> h \<le> fst (m ! j)"
    by (auto simp: find_Some_iff)
  have "fst e \<le> fst e'" if "e' \<in> set m" "h \<le> fst e'" for e'
  proof -
    from that(1) obtain j where j: "j < length m" "e' = m ! j" unfolding in_set_conv_nth by blast
    have "\<not> j < i" using that(2) i(4) unfolding j(2) by blast
    then consider "i = j" | "i < j" by linarith
    then show ?thesis
    proof cases
      case 2
      with assms(1) j(1) have "map fst m ! i < map fst m ! j"
        unfolding ring_sorted_def by (intro sorted_wrt_nth_less) simp_all
      with 2 i(1,2) j show ?thesis by simp
    qed (use i(2) j(2) in simp)
  qed
  moreover have "e \<in> set m" using i by simp
  ultimately show ?thesis using Some assms(2) i(3)
    by (intro exI [of _ "fst e"] exI [of _ "snd e"]) (auto simp: ring_lookup_def)
qed

section \<open>Histories of a selector\<close>

datatype selector_op = Add_Node nat | Remove_Node nat

fun selector_step :: "(bytes \<Rightarrow> u64) \<Rightarrow> selector_op \<Rightarrow> selector \<Rightarrow> selector" where
  "selector_step hash (Add_Node p) s = addNode hash p s"
| "selector_step hash (Remove_Node p) s = removeNode hash p s"

definition ring_of :: "selector \<Rightarrow> hash_ring" where
  "ring_of s = cow_value (ring_cell s)"

definition group_of :: "selector \<Rightarrow> nat list" where
  "group_of s = cow_value (serverGroup s)"

definition selector_inv :: "(bytes \<Rightarrow> u64) \<Rightarrow> selector \<Rightarrow> bool" where
  "selector_inv hash s \<longleftrightarrow> cow_inv (serverGroup s) \<and> cow_inv (ring_cell s)
     \<and> ring_sound hash (ring_of s) \<and> ring_sorted (ring_of s)"

lemma selector_new_inv: "selector_inv hash (selector_new st)"
  by (simp add: selector_inv_def selector_new_def ring_of_def inv_intro content_simp ring_sound_def
      ring_sorted_def)

lemma ring_of_step:
  assumes "selector_inv hash s"
  shows "ring_of (addNode hash p s) = ring_add_node hash (node_addr (nodes s p)) (ring_of s)"
    and "ring_of (removeNode hash p s) = ring_remove_node hash (node_addr (nodes s p)) (ring_of s)"
    and "group_of (addNode hash p s) = group_of s @ [p]"
    and "group_of (removeNode hash p s) = filter (\<lambda>q. q \<noteq> p) (group_of s)"
  using assms
  by (simp_all add: ring_of_def group_of_def addNode_def removeNode_def selector_inv_def cow.val_modify)

lemma selector_step_inv: "selector_inv hash s \<Longrightarrow> selector_inv hash (selector_step hash x s)"
  using ring_of_step [of hash s]
  by (cases x)
    (simp_all add: selector_inv_def addNode_def removeNode_def cow.wf_modify ring_sound_add
      ring_sorted_add ring_sound_remove ring_sorted_remove)

lemma selector_run_inv: "selector_inv hash s \<Longrightarrow> selector_inv hash (fold (selector_step hash) xs s)"
  by (induction xs arbitrary: s) (simp_all add: selector_step_inv)

lemma route_by_ring:
  "selector_inv hash s \<Longrightarrow> fst (getNextServer_key hash key s) = ring_lookup (ring_of s) (hash key)"
  using cow.snapshot_val [of "ring_cell s"]
  by (auto simp: getNextServer_key_def ring_of_def selector_inv_def split: prod.split)

definition route :: "(bytes \<Rightarrow> u64) \<Rightarrow> bytes \<Rightarrow> selector \<Rightarrow> inet_address option" where
  "route hash key s = fst (getNextServer_key hash key s)"

text \<open>The selectors that a program can build from a store of nodes.\<close>

definition built :: "(bytes \<Rightarrow> u64) \<Rightarrow> node_store \<Rightarrow> selector_op list \<Rightarrow> selector" where
  "built hash st ops = fold (selector_step hash) ops (selector_new st)"

lemma built_inv: "selector_inv hash (built hash st ops)"
  unfolding built_def by (rule selector_run_inv [OF selector_new_inv])

section \<open>Round robin\<close>

definition weights :: "bool \<Rightarrow> nat list \<Rightarrow> node_store \<Rightarrow> int" where
  "weights panic ps st = sum_list (map (\<lambda>p. node_weight (st p)) (filter (\<lambda>p. eligible panic (st p)) ps))"

lemma weights_Cons:
  "weights panic (p # ps) st
    = (if eligible panic (st p) then node_weight (st p) else 0) + weights panic ps st"
  by (simp add: weights_def)

lemma weights_cong:
  "(\<And>q. q \<in> set ps \<Longrightarrow> st q = st' q) \<Longrightarrow> weights panic ps st = weights panic ps st'"
  unfolding weights_def by (intro arg_cong [of _ _ sum_list] map_cong filter_cong) auto

definition raised :: "server_node \<Rightarrow> server_node" where
  "raised n = n\<lparr>current_weight := current_weight n + node_weight n\<rparr>"

lemma raised_fields [simp]:
  "is_alive (raised n) = is_alive n" "node_weight (raised n) = node_weight n"
  "node_addr (raised n) = node_addr n" "eligible b (raised n) = eligible b n"
  "current_weight (raised n) = current_weight n + node_weight n"
  by (simp_all add: raised_def eligible_def)

text \<open>The candidates and the weights after the loop.\<close>

definition swrr_spec ::
  "bool \<Rightarrow> nat list \<Rightarrow> node_store \<times> nat option \<times> int \<Rightarrow> node_store \<times> nat option \<times> int \<Rightarrow> bool" where
  "swrr_spec panic ps acc acc' \<longleftrightarrow>
     (case acc of (st, best, tw) \<Rightarrow> case acc' of (st', best', tw') \<Rightarrow>
       st' = (\<lambda>p. if p \<in> set ps \<and> eligible panic (st p) then raised (st p) else st p)
       \<and> tw' = tw + weights panic ps st
       \<and> (best' = None \<longleftrightarrow> best = None \<and> filter (\<lambda>p. eligible panic (st p)) ps = [])
       \<and> (\<forall>b. best' = Some b \<longrightarrow>
            (best = Some b \<or> b \<in> set ps \<and> eligible panic (st b))
            \<and> (\<forall>p \<in> set ps. eligible panic (st p) \<longrightarrow> current_weight (st' p) \<le> current_weight (st' b))
            \<and> (\<forall>q. best = Some q \<longrightarrow> current_weight (st' q) \<le> current_weight (st' b))))"

lemma swrr_loop_spec:
  "distinct ps \<Longrightarrow> (\<forall>q. best = Some q \<longrightarrow> q \<notin> set ps) \<Longrightarrow>
     swrr_spec panic ps (st, best, tw) (swrr_loop panic ps (st, best, tw))"
proof (induction ps arbitrary: st best tw)
  case Nil
  then show ?case by (auto simp: swrr_spec_def weights_def)
next
  case (Cons p ps)
  show ?case
  proof (cases "eligible panic (st p)")
    case False
    with Cons.IH [of best st tw] Cons.prems show ?thesis
      by (auto simp: swrr_spec_def weights_Cons eligible_def split: prod.splits)
  next
    case True
    let ?st = "st(p := raised (st p))"
    let ?best = "case best of None \<Rightarrow> Some p
        | Some q \<Rightarrow> if current_weight (?st p) > current_weight (?st q) then Some p else Some q"
    have loop: "swrr_loop panic (p # ps) (st, best, tw)
        = swrr_loop panic ps (?st, ?best, tw + node_weight (st p))"
      using True unfolding raised_def [symmetric] swrr_loop.simps Let_def
      by (auto simp: eligible_def)
    obtain st' best' tw' where r: "swrr_loop panic ps (?st, ?best, tw + node_weight (st p))
        = (st', best', tw')" by (cases "swrr_loop panic ps (?st, ?best, tw + node_weight (st p))")
    have np: "p \<notin> set ps" "distinct ps" using Cons.prems by simp_all
    have nb: "\<forall>q. ?best = Some q \<longrightarrow> q \<notin> set ps"
      using Cons.prems by (auto split: option.splits if_splits)
    note ih = Cons.IH [OF np(2) nb, of ?st "tw + node_weight (st p)", unfolded r swrr_spec_def prod.case]
    have nn: "?best \<noteq> None" by (simp split: option.split)
    from ih have ih1: "st' = (\<lambda>q. if q \<in> set ps \<and> eligible panic (?st q) then raised (?st q) else ?st q)"
      by (rule conjunct1)
    from ih have ih2: "tw' = tw + node_weight (st p) + weights panic ps ?st"
      by (elim conjE)
    from ih nn have ih3: "best' \<noteq> None" by (elim conjE) simp
    from ih have ihb: "\<And>b. best' = Some b \<Longrightarrow> (?best = Some b \<or> b \<in> set ps \<and> eligible panic (?st b))
            \<and> (\<forall>p \<in> set ps. eligible panic (?st p) \<longrightarrow> current_weight (st' p) \<le> current_weight (st' b))
            \<and> (\<forall>q. ?best = Some q \<longrightarrow> current_weight (st' q) \<le> current_weight (st' b))"
      by (elim conjE) blast
    have el: "eligible panic (?st q) = eligible panic (st q)" for q by simp
    have w: "weights panic ps ?st = weights panic ps st" using np by (intro weights_cong) auto
    have s: "st' = (\<lambda>q. if q \<in> set (p # ps) \<and> eligible panic (st q) then raised (st q) else st q)"
      unfolding ih1 using np True by auto
    have keep: "q \<notin> set ps \<Longrightarrow> st' q = ?st q" for q unfolding ih1 by simp
    have best_ge: "\<exists>q. ?best = Some q \<and> current_weight (st' p) \<le> current_weight (st' q)
        \<and> (\<forall>q'. best = Some q' \<longrightarrow> current_weight (st' q') \<le> current_weight (st' q))"
      using keep [of p] np(1) Cons.prems(2) keep by (auto split: option.splits)
    have "swrr_spec panic (p # ps) (st, best, tw) (st', best', tw')"
      unfolding swrr_spec_def prod.case
    proof (intro conjI allI impI)
      show "tw' = tw + weights panic (p # ps) st" using ih2 w True by (simp add: weights_Cons)
      show "best' = None \<longleftrightarrow> best = None \<and> filter (\<lambda>p. eligible panic (st p)) (p # ps) = []"
        using ih3 True by simp
    next
      fix b assume b: "best' = Some b"
      from ihb [OF b] np show "best = Some b \<or> b \<in> set (p # ps) \<and> eligible panic (st b)"
        using True by (auto split: option.splits if_splits)
      from best_ge ihb [OF b] have bp: "current_weight (st' p) \<le> current_weight (st' b)"
        and bq: "\<forall>q. best = Some q \<longrightarrow> current_weight (st' q) \<le> current_weight (st' b)"
        by (force intro: order_trans)+
      then show "\<forall>q \<in> set (p # ps). eligible panic (st q) \<longrightarrow>
          current_weight (st' q) \<le> current_weight (st' b)"
        using ihb [OF b] el by simp
      fix q assume "best = Some q"
      with bq show "current_weight (st' q) \<le> current_weight (st' b)" by blast
    qed (rule s)
    with loop r show ?thesis by simp
  qed
qed

definition candidates :: "nat list \<Rightarrow> node_store \<Rightarrow> nat set" where
  "candidates ns st = {p \<in> set ns. eligible (panic_mode ns st) (st p)}"

definition round_total :: "nat list \<Rightarrow> node_store \<Rightarrow> int" where
  "round_total ns st = (\<Sum>p \<in> candidates ns st. node_weight (st p))"

lemma finite_candidates [simp]: "finite (candidates ns st)"
  by (simp add: candidates_def)

lemma weights_round_total:
  "distinct ns \<Longrightarrow> weights (panic_mode ns st) ns st = round_total ns st"
  by (simp add: weights_def round_total_def candidates_def sum_list_distinct_conv_sum_set)

text \<open>Panic mode makes sure that somebody is eligible.\<close>

lemma candidates_not_empty: "ns \<noteq> [] \<Longrightarrow> candidates ns st \<noteq> {}"
proof (cases "panic_mode ns st")
  case True
  then show "ns \<noteq> [] \<Longrightarrow> ?thesis" by (auto simp: candidates_def eligible_def)
next
  case False
  have "alive_count ns st \<noteq> 0"
  proof
    assume "alive_count ns st = 0"
    with False show False by (simp add: panic_mode_def)
  qed
  then have "filter (\<lambda>p. is_alive (st p)) ns \<noteq> []" by (auto simp: alive_count_def)
  then obtain p where "p \<in> set ns" "is_alive (st p)" by (auto simp: filter_empty_conv)
  then show ?thesis by (auto simp: candidates_def eligible_def)
qed

definition same_nodes :: "node_store \<Rightarrow> node_store \<Rightarrow> bool" where
  "same_nodes st st' \<longleftrightarrow> (\<forall>p. is_alive (st' p) = is_alive (st p)
     \<and> node_weight (st' p) = node_weight (st p) \<and> node_addr (st' p) = node_addr (st p))"

lemma same_nodes_candidates:
  "same_nodes st st' \<Longrightarrow> candidates ns st' = candidates ns st \<and> round_total ns st' = round_total ns st"
proof -
  assume s: "same_nodes st st'"
  then have "panic_mode ns st' = panic_mode ns st"
    by (simp add: same_nodes_def panic_mode_def alive_count_def)
  with s have "candidates ns st' = candidates ns st"
    by (auto simp: candidates_def same_nodes_def eligible_def)
  with s show ?thesis by (simp add: round_total_def same_nodes_def)
qed

text \<open>One selection: the winner is a largest candidate and pays the total.\<close>

lemma swrr_select_round:
  assumes "distinct ns" and "ns \<noteq> []"
  obtains b st' where "swrr_select ns st = (Some b, st')" and "b \<in> candidates ns st"
    and "same_nodes st st'"
    and "\<And>p. current_weight (st' p) = current_weight (st p)
        + (if p \<in> candidates ns st then node_weight (st p) else 0) - (if p = b then round_total ns st else 0)"
    and "\<And>p. p \<in> candidates ns st \<Longrightarrow> current_weight (st p) + node_weight (st p)
        \<le> current_weight (st b) + node_weight (st b)"
proof -
  let ?pm = "panic_mode ns st"
  obtain st1 best tw where r: "swrr_loop ?pm ns (st, None, 0) = (st1, best, tw)"
    by (cases "swrr_loop ?pm ns (st, None, 0)")
  note sp = swrr_loop_spec [OF assms(1), of None ?pm st 0, simplified, unfolded r swrr_spec_def prod.case]
  from sp have st1: "st1 = (\<lambda>p. if p \<in> set ns \<and> eligible ?pm (st p) then raised (st p) else st p)"
    by (rule conjunct1)
  have tw: "tw = round_total ns st" using sp weights_round_total [OF assms(1), of st] by simp
  have "best \<noteq> None"
    using sp candidates_not_empty [OF assms(2), of st] by (auto simp: candidates_def filter_empty_conv)
  then obtain b where b: "best = Some b" by blast
  from sp b have bc: "b \<in> candidates ns st"
    and mx: "\<forall>p \<in> set ns. eligible ?pm (st p) \<longrightarrow> current_weight (st1 p) \<le> current_weight (st1 b)"
    by (auto simp: candidates_def)
  let ?st' = "st1(b := (st1 b)\<lparr>current_weight := current_weight (st1 b) - tw\<rparr>)"
  show thesis
  proof (rule that [of b ?st'])
    show "swrr_select ns st = (Some b, ?st')" using r b by (simp add: swrr_select_def)
    show "same_nodes st ?st'" by (simp add: same_nodes_def st1)
    show "current_weight (?st' p) = current_weight (st p)
        + (if p \<in> candidates ns st then node_weight (st p) else 0) - (if p = b then round_total ns st else 0)"
      for p by (simp add: st1 tw candidates_def)
    show "p \<in> candidates ns st \<Longrightarrow> current_weight (st p) + node_weight (st p)
        \<le> current_weight (st b) + node_weight (st b)" for p
      using mx bc by (auto simp: st1 candidates_def)
  qed (rule bc)
qed

text \<open>A balanced store: the candidates' weights sum to zero and none has fallen by a whole
  round's total.\<close>

definition balanced :: "nat list \<Rightarrow> node_store \<Rightarrow> bool" where
  "balanced ns st \<longleftrightarrow> (\<Sum>p \<in> candidates ns st. current_weight (st p)) = 0
     \<and> (\<forall>p \<in> candidates ns st. - round_total ns st < current_weight (st p))"

lemma swrr_select_balanced:
  assumes "distinct ns" and "ns \<noteq> []" and pos: "\<forall>p \<in> set ns. 0 < node_weight (st p)"
    and bal: "balanced ns st"
    and sel: "swrr_select ns st = (Some b, st')"
    and cw: "\<And>p. current_weight (st' p) = current_weight (st p)
        + (if p \<in> candidates ns st then node_weight (st p) else 0) - (if p = b then round_total ns st else 0)"
    and bc: "b \<in> candidates ns st" and sn: "same_nodes st st'"
    and mx: "\<And>p. p \<in> candidates ns st \<Longrightarrow> current_weight (st p) + node_weight (st p)
        \<le> current_weight (st b) + node_weight (st b)"
  shows "balanced ns st'"
proof -
  let ?C = "candidates ns st" and ?T = "round_total ns st"
  note c' = same_nodes_candidates [OF sn, of ns]
  have wpos: "0 < node_weight (st p)" if "p \<in> ?C" for p using pos that by (simp add: candidates_def)
  have "(\<Sum>p \<in> ?C. current_weight (st' p))
      = (\<Sum>p \<in> ?C. current_weight (st p) + node_weight (st p) - (if p = b then ?T else 0))"
    by (intro sum.cong) (simp_all add: cw)
  also have "\<dots> = (\<Sum>p \<in> ?C. current_weight (st p)) + ?T - ?T"
    using bc by (simp add: sum.distrib sum_subtractf round_total_def)
  finally have zero: "(\<Sum>p \<in> ?C. current_weight (st' p)) = 0" using bal by (simp add: balanced_def)
  have Tpos: "0 < ?T"
    unfolding round_total_def using bc wpos by (intro sum_pos) auto
  have "0 < current_weight (st b) + node_weight (st b)"
  proof (rule ccontr)
    assume "\<not> ?thesis"
    then have "current_weight (st p) + node_weight (st p) \<le> 0" if "p \<in> ?C" for p
      using mx [OF that] by linarith
    then have "(\<Sum>p \<in> ?C. current_weight (st p) + node_weight (st p)) \<le> 0" by (intro sum_nonpos) auto
    moreover have "(\<Sum>p \<in> ?C. current_weight (st p) + node_weight (st p)) = ?T"
      using bal by (simp add: sum.distrib balanced_def round_total_def)
    ultimately show False using Tpos by linarith
  qed
  then have "- ?T < current_weight (st' p)" if "p \<in> ?C" for p
    using bal wpos [OF that] that by (auto simp: cw balanced_def)
  with zero c' show ?thesis by (simp add: balanced_def)
qed

fun swrr_rounds :: "nat \<Rightarrow> nat list \<Rightarrow> node_store \<Rightarrow> nat option list \<times> node_store" where
  "swrr_rounds 0 ns st = ([], st)"
| "swrr_rounds (Suc k) ns st =
     (case swrr_select ns st of (b, st1) \<Rightarrow>
       case swrr_rounds k ns st1 of (bs, st2) \<Rightarrow> (b # bs, st2))"

lemma same_nodes_trans: "same_nodes a b \<Longrightarrow> same_nodes b c \<Longrightarrow> same_nodes a c"
  by (simp add: same_nodes_def)

lemma swrr_rounds_props:
  assumes "distinct ns" and "ns \<noteq> []"
  shows "swrr_rounds k ns st = (bs, st') \<Longrightarrow> \<forall>p \<in> set ns. 0 < node_weight (st p) \<Longrightarrow> balanced ns st \<Longrightarrow>
     same_nodes st st' \<and> balanced ns st' \<and> length bs = k \<and> set bs \<subseteq> Some ` candidates ns st
     \<and> (\<forall>p. current_weight (st' p) = current_weight (st p)
          + (if p \<in> candidates ns st then int k * node_weight (st p) else 0)
          - round_total ns st * int (count_list bs (Some p)))"
proof (induction k arbitrary: st bs)
  case 0
  then show ?case by (simp add: same_nodes_def)
next
  case (Suc k)
  obtain b st1 where s: "swrr_select ns st = (Some b, st1)" "b \<in> candidates ns st" "same_nodes st st1"
    and cw: "\<And>p. current_weight (st1 p) = current_weight (st p)
        + (if p \<in> candidates ns st then node_weight (st p) else 0) - (if p = b then round_total ns st else 0)"
    and mx: "\<And>p. p \<in> candidates ns st \<Longrightarrow> current_weight (st p) + node_weight (st p)
        \<le> current_weight (st b) + node_weight (st b)"
    using swrr_select_round [OF assms, of st] by metis
  obtain bs' where r: "swrr_rounds k ns st1 = (bs', st')" "bs = Some b # bs'"
    using Suc.prems(1) s(1) by (auto split: prod.splits)
  have "balanced ns st1"
    by (rule swrr_select_balanced [OF assms Suc.prems(2,3) s(1) cw s(2,3) mx])
  moreover have "\<forall>p \<in> set ns. 0 < node_weight (st1 p)" using Suc.prems(2) s(3) by (simp add: same_nodes_def)
  moreover have w: "node_weight (st1 p) = node_weight (st p)" for p using s(3) by (simp add: same_nodes_def)
  moreover note c = same_nodes_candidates [OF s(3), of ns]
  ultimately have ih: "same_nodes st1 st'" "balanced ns st'" "length bs' = k"
      "set bs' \<subseteq> Some ` candidates ns st"
    and ihc: "\<And>p. current_weight (st' p) = current_weight (st1 p)
          + (if p \<in> candidates ns st then int k * node_weight (st p) else 0)
          - round_total ns st * int (count_list bs' (Some p))"
    using Suc.IH [OF r(1)] by simp_all
  have "current_weight (st' p) = current_weight (st p)
          + (if p \<in> candidates ns st then int (Suc k) * node_weight (st p) else 0)
          - round_total ns st * int (count_list bs (Some p))" for p
    unfolding ihc [of p] cw [of p] r(2) by (auto simp: algebra_simps)
  with ih s(2) same_nodes_trans [OF s(3) ih(1)] r(2) show ?case by simp
qed

lemma full_cycle_counts:
  assumes "distinct ns" and "ns \<noteq> []" and pos: "\<forall>p \<in> set ns. 0 < node_weight (st p)"
    and zero: "\<forall>p \<in> set ns. current_weight (st p) = 0"
    and r: "swrr_rounds (nat (round_total ns st)) ns st = (bs, st')"
    and p: "p \<in> candidates ns st"
  shows "int (count_list bs (Some p)) = node_weight (st p)" and "current_weight (st' p) = 0"
proof -
  let ?C = "candidates ns st" and ?T = "round_total ns st"
  have wpos: "0 < node_weight (st q)" if "q \<in> ?C" for q using pos that by (simp add: candidates_def)
  have z: "current_weight (st q) = 0" if "q \<in> ?C" for q using zero that by (simp add: candidates_def)
  have T: "0 < ?T" unfolding round_total_def using p wpos by (intro sum_pos) auto
  have "balanced ns st" using z T by (simp add: balanced_def)
  note props = swrr_rounds_props [OF assms(1,2) r pos this]
  from props have bal': "balanced ns st'" by blast
  have c': "candidates ns st' = ?C" "round_total ns st' = ?T"
    using props same_nodes_candidates [of st st' ns] by simp_all
  have cw: "current_weight (st' q) = ?T * (node_weight (st q) - int (count_list bs (Some q)))"
    if "q \<in> ?C" for q
    using props that T z [OF that] by (simp add: algebra_simps)
  have le: "int (count_list bs (Some q)) \<le> node_weight (st q)" if "q \<in> ?C" for q
  proof (rule ccontr)
    assume "\<not> ?thesis"
    then have "node_weight (st q) - int (count_list bs (Some q)) \<le> - 1" by linarith
    then have "?T * (node_weight (st q) - int (count_list bs (Some q))) \<le> ?T * - 1"
      using T by (intro mult_left_mono) simp_all
    moreover have "- ?T < current_weight (st' q)" using bal' c' that unfolding balanced_def by simp
    ultimately show False using cw [OF that] by linarith
  qed
  have "sum (count_list bs) (Some ` ?C) = length bs"
    using props by (intro sum_count_set) simp_all
  then have "(\<Sum>q \<in> ?C. int (count_list bs (Some q))) = int (length bs)"
    by (simp add: sum.reindex flip: of_nat_sum)
  also have "\<dots> = (\<Sum>q \<in> ?C. node_weight (st q))" using props T by (simp add: round_total_def)
  finally have "(\<Sum>q \<in> ?C. int (count_list bs (Some q))) = (\<Sum>q \<in> ?C. node_weight (st q))" .
  from sum_mono_inv [OF this le p] show e: "int (count_list bs (Some p)) = node_weight (st p)" by simp
  show "current_weight (st' p) = 0" using cw [OF p] e by simp
qed

section \<open>Serving requests\<close>

fun serve :: "nat \<Rightarrow> selector \<Rightarrow> inet_address option list \<times> selector" where
  "serve 0 s = ([], s)"
| "serve (Suc k) s =
     (case getNextServer s of (a, s1) \<Rightarrow> case serve k s1 of (as, s2) \<Rightarrow> (a # as, s2))"

text \<open>A reader that drops its snapshot leaves the cell as it was.\<close>

lemma snapshot_release: "cow_release (fst (cow_snapshot c)) (snd (cow_snapshot c)) = c"
  by (simp add: cow_snapshot_def cow_release_def)

lemma getNextServer_eq:
  assumes "cow_inv (serverGroup s)" and "group_of s \<noteq> []"
  shows "getNextServer s = (case swrr_select (group_of s) (nodes s) of (best, st) \<Rightarrow>
    (map_option (\<lambda>b. node_addr (st b)) best, s\<lparr>nodes := st\<rparr>))"
  using cow.snapshot_val [OF assms(1)] snapshot_release [of "serverGroup s"] assms(2)
  by (cases "cow_snapshot (serverGroup s)")
    (auto simp: getNextServer_def group_of_def Let_def split: prod.splits)

lemma serve_rounds:
  assumes "cow_inv (serverGroup s)" and "group_of s \<noteq> []" and "distinct (group_of s)"
  shows "serve k s = (case swrr_rounds k (group_of s) (nodes s) of (bs, st) \<Rightarrow>
    (map (map_option (\<lambda>b. node_addr (nodes s b))) bs, s\<lparr>nodes := st\<rparr>))"
  using assms
proof (induction k arbitrary: s)
  case (Suc k)
  obtain b st1 where r: "swrr_select (group_of s) (nodes s) = (Some b, st1)" "same_nodes (nodes s) st1"
    using swrr_select_round [OF Suc.prems(3,2), of "nodes s"] by metis
  let ?s1 = "s\<lparr>nodes := st1\<rparr>"
  have g: "group_of ?s1 = group_of s" by (simp add: group_of_def)
  have "getNextServer s = (Some (node_addr (st1 b)), ?s1)"
    using getNextServer_eq [OF Suc.prems(1,2)] r(1) by simp
  moreover have "node_addr (st1 p) = node_addr (nodes s p)" for p using r(2) by (simp add: same_nodes_def)
  ultimately show ?case
    using Suc.IH [of ?s1] Suc.prems r(1) by (simp add: g split: prod.splits)
qed simp

lemma count_list_map_inj_on:
  "inj_on f A \<Longrightarrow> set xs \<subseteq> A \<Longrightarrow> x \<in> A \<Longrightarrow> count_list (map f xs) (f x) = count_list xs x"
  by (induction xs) (auto dest: inj_onD)

section \<open>Properties\<close>

text \<open>
  C16. Weighted round robin is exactly fair: with the health of the nodes unchanged, from a
  fresh state, a cycle of as many requests as the eligible weights add up to sends each
  eligible node exactly as many requests as its weight, nothing to the others, and leaves
  every current weight at zero, so the next cycle is the same. Nodes are eligible when they
  are alive, or all of them when fewer than one in five is.
\<close>

theorem round_robin_fair:
  assumes "cow_inv (serverGroup s)" and "group_of s \<noteq> []" and "distinct (group_of s)"
    and "inj_on (\<lambda>p. node_addr (nodes s p)) (set (group_of s))"
    and "\<forall>p \<in> set (group_of s). 0 < node_weight (nodes s p) \<and> current_weight (nodes s p) = 0"
  shows "\<exists>as s'. serve (nat (round_total (group_of s) (nodes s))) s = (as, s')
    \<and> (\<forall>p \<in> set (group_of s).
         int (count_list as (Some (node_addr (nodes s p))))
           = (if eligible (panic_mode (group_of s) (nodes s)) (nodes s p)
              then node_weight (nodes s p) else 0)
         \<and> current_weight (nodes s' p) = 0)
    \<and> None \<notin> set as"
proof -
  let ?ns = "group_of s" and ?st = "nodes s"
  obtain bs st' where r: "swrr_rounds (nat (round_total ?ns ?st)) ?ns ?st = (bs, st')"
    by (cases "swrr_rounds (nat (round_total ?ns ?st)) ?ns ?st")
  have pos: "\<forall>p \<in> set ?ns. 0 < node_weight (?st p)" "\<forall>p \<in> set ?ns. current_weight (?st p) = 0"
    using assms(5) by blast+
  obtain q where q: "q \<in> candidates ?ns ?st" using candidates_not_empty [OF assms(2)] by blast
  have sub: "candidates ?ns ?st \<subseteq> set ?ns" by (auto simp: candidates_def)
  have "0 < round_total ?ns ?st"
    unfolding round_total_def using q pos(1) sub by (intro sum_pos) auto
  moreover have "current_weight (?st p) = 0" if "p \<in> candidates ?ns ?st" for p
    using pos(2) sub that by blast
  ultimately have bal: "balanced ?ns ?st" by (simp add: balanced_def)
  note props = swrr_rounds_props [OF assms(3,2) r pos(1) bal]
  note full = full_cycle_counts [OF assms(3,2) pos r]
  let ?a = "map_option (\<lambda>b. node_addr (?st b))"
  have inj: "inj_on ?a (Some ` set ?ns)"
    using assms(4) by (auto simp: inj_on_def)
  have cnt: "count_list (map ?a bs) (Some (node_addr (?st p))) = count_list bs (Some p)"
    if "p \<in> set ?ns" for p
  proof -
    from props have "set bs \<subseteq> Some ` candidates ?ns ?st" by blast
    also have "\<dots> \<subseteq> Some ` set ?ns" using sub by (rule image_mono)
    finally show ?thesis using count_list_map_inj_on [OF inj, of bs "Some p"] that by simp
  qed
  have other: "count_list bs (Some p) = 0 \<and> current_weight (st' p) = 0"
    if "p \<in> set ?ns" "p \<notin> candidates ?ns ?st" for p
  proof -
    have "Some p \<notin> set bs" using props that(2) by auto
    then show ?thesis using props that pos(2) by (simp add: count_list_0_iff)
  qed
  have "int (count_list (map ?a bs) (Some (node_addr (?st p))))
      = (if eligible (panic_mode ?ns ?st) (?st p) then node_weight (?st p) else 0)
      \<and> current_weight (st' p) = 0" if p: "p \<in> set ?ns" for p
  proof (cases "eligible (panic_mode ?ns ?st) (?st p)")
    case True
    with p have "p \<in> candidates ?ns ?st" by (simp add: candidates_def)
    with full [of p] cnt [OF p] True show ?thesis by simp
  next
    case False
    with p have "p \<notin> candidates ?ns ?st" by (simp add: candidates_def)
    with other [OF p] cnt [OF p] False show ?thesis by simp
  qed
  moreover have "None \<notin> set (map ?a bs)" using props by auto
  moreover have "serve (nat (round_total ?ns ?st)) s = (map ?a bs, s\<lparr>nodes := st'\<rparr>)"
    using serve_rounds [OF assms(1-3)] r by simp
  ultimately show ?thesis by (intro exI [of _ "map ?a bs"] exI [of _ "s\<lparr>nodes := st'\<rparr>"]) simp
qed

text \<open>Two fresh nodes with weights 2 and 1.\<close>

definition two_nodes :: node_store where
  "two_nodes p =
     (if p = 0 then server_node_new \<lparr>addr_ip = ''10.0.0.1'', addr_port = 80\<rparr> 2 3 2
      else server_node_new \<lparr>addr_ip = ''20.0.0.1'', addr_port = 80\<rparr> 1 3 2)"

lemma built_snoc:
  "ring_of (built hash st (ops @ [Add_Node p])) =
     ring_add_node hash (node_addr (st p)) (ring_of (built hash st ops))"
  "group_of (built hash st (ops @ [Add_Node p])) = group_of (built hash st ops) @ [p]"
  "nodes (built hash st ops) = st"
proof -
  show n: "nodes (built hash st ops) = st" for ops
  proof (induction ops rule: rev_induct)
    case (snoc x xs)
    then show ?case
      by (cases x) (simp_all add: built_def addNode_def removeNode_def)
  qed (simp add: built_def selector_new_def)
  show "ring_of (built hash st (ops @ [Add_Node p])) =
     ring_add_node hash (node_addr (st p)) (ring_of (built hash st ops))"
    "group_of (built hash st (ops @ [Add_Node p])) = group_of (built hash st ops) @ [p]"
    using ring_of_step [OF built_inv, of hash p st ops] by (simp_all add: n) (simp_all add: built_def)
qed

lemma built_empty: "group_of (built hash st []) = []" "ring_of (built hash st []) = []"
  by (simp_all add: built_def selector_new_def group_of_def ring_of_def content_simp)

lemma two_nodes_group: "group_of (built hash st [Add_Node 0, Add_Node 1]) = [0, 1]"
  using built_snoc(2) [of hash st "[Add_Node 0]" 1] built_snoc(2) [of hash st "[]" 0]
  by (simp add: built_empty)

theorem round_robin_fair_witness:
  "\<exists>as s'. serve 3 (built (\<lambda>_. 0) two_nodes [Add_Node 0, Add_Node 1]) = (as, s')
     \<and> count_list as (Some (node_addr (two_nodes 0))) = 2
     \<and> count_list as (Some (node_addr (two_nodes 1))) = 1"
proof -
  let ?s = "built (\<lambda>_. 0) two_nodes [Add_Node 0, Add_Node 1]"
  have i: "cow_inv (serverGroup ?s)"
    using built_inv [of "\<lambda>_. 0" two_nodes "[Add_Node 0, Add_Node 1]"] by (simp add: selector_inv_def)
  have n: "nodes ?s = two_nodes" by (rule built_snoc(3))
  have e: "eligible b (two_nodes p)" for b p
    by (simp add: eligible_def two_nodes_def server_node_new_def)
  have t: "round_total [0, 1] two_nodes = 3"
  proof -
    have "candidates [0, 1] two_nodes = {0, 1}" by (auto simp: candidates_def e)
    then show ?thesis by (simp add: round_total_def two_nodes_def server_node_new_def)
  qed
  have f: "node_weight (two_nodes 0) = 2" "node_weight (two_nodes 1) = 1"
    "current_weight (two_nodes 0) = 0" "current_weight (two_nodes 1) = 0"
    "node_addr (two_nodes 0) \<noteq> node_addr (two_nodes 1)"
    by (simp_all add: two_nodes_def server_node_new_def)
  then have prem: "inj_on (\<lambda>p. node_addr (two_nodes p)) (set [0, 1])" by (simp add: inj_on_def)
  have "\<exists>as s'. serve (nat 3) ?s = (as, s')
    \<and> (\<forall>p \<in> set [0, 1].
         int (count_list as (Some (node_addr (two_nodes p)))) = node_weight (two_nodes p)
         \<and> current_weight (nodes s' p) = 0)
    \<and> None \<notin> set as"
    using round_robin_fair [OF i, unfolded n two_nodes_group t] prem f by (simp add: e)
  then show ?thesis using f by auto
qed

text \<open>
  C38. Consistent hashing, a server joins: whatever hash function and whatever history of
  additions and removals, adding a node to a ring that is not empty changes the server of
  a key only if the key moves to the new server.
\<close>

theorem add_node_disruption:
  assumes "ring_of (built hash st ops) \<noteq> []"
  shows "route hash key (addNode hash p (built hash st ops))
    \<in> {route hash key (built hash st ops), Some (node_addr (nodes (built hash st ops) p))}"
proof -
  let ?s = "built hash st ops"
  have "selector_inv hash (addNode hash p ?s)"
    using selector_step_inv [OF built_inv, of hash "Add_Node p" st ops] by simp
  then show ?thesis
    using ring_lookup_inserts [OF assms] ring_of_step(1) [OF built_inv]
    by (simp add: route_def route_by_ring built_inv ring_add_node_def)
qed

lemma ring_add_node_not_empty: "ring_add_node hash a m \<noteq> []"
proof -
  obtain n where n: "kVirtualNodes = Suc n" by (cases kVirtualNodes) (simp_all add: kVirtualNodes_def)
  have "[0..<kVirtualNodes] = [0..<n] @ [n]" unfolding n by simp
  then show ?thesis unfolding ring_add_node_def by (simp only: fold_append fold.simps o_apply id_apply) simp
qed

theorem add_node_disruption_witness:
  "route (\<lambda>_. 0) ''model'' (addNode (\<lambda>_. 0) 1 (built (\<lambda>_. 0) two_nodes [Add_Node 0]))
    \<in> {route (\<lambda>_. 0) ''model'' (built (\<lambda>_. 0) two_nodes [Add_Node 0]), Some (node_addr (two_nodes 1))}"
proof -
  have "ring_of (built (\<lambda>_. 0) two_nodes [Add_Node 0]) \<noteq> []"
    by (rule built_snoc(1) [of "\<lambda>_. 0" two_nodes "[]" 0, unfolded append_Nil, THEN ssubst])
      (rule ring_add_node_not_empty)
  from add_node_disruption [OF this, of "''model''" 1] show ?thesis by (simp only: built_snoc(3))
qed

text \<open>
  Consistent hashing, a server leaves: afterwards no key is routed to it, and, if no virtual
  node of another server on the ring has the hash of one of its virtual nodes, every key
  that was routed to another server still is.
\<close>

theorem remove_node_disruption:
  assumes "\<forall>e \<in> set (ring_of (built hash st ops)). \<forall>i < kVirtualNodes.
      fst e = hash (vnode_name (node_addr (nodes (built hash st ops) p)) i) \<longrightarrow>
      snd e = node_addr (nodes (built hash st ops) p)"
  shows "route hash key (removeNode hash p (built hash st ops)) \<noteq> Some (node_addr (nodes (built hash st ops) p))
    \<and> (route hash key (built hash st ops) \<noteq> Some (node_addr (nodes (built hash st ops) p)) \<longrightarrow>
       route hash key (removeNode hash p (built hash st ops)) = route hash key (built hash st ops))"
proof -
  let ?s = "built hash st ops" and ?a = "node_addr (nodes (built hash st ops) p)"
  let ?m = "ring_of (built hash st ops)" and ?Q = "\<lambda>e. \<forall>i < kVirtualNodes. fst e \<noteq> hash (vnode_name ?a i)"
  have sound: "ring_sound hash ?m" using built_inv by (simp add: selector_inv_def)
  have "selector_inv hash (removeNode hash p ?s)"
    using selector_step_inv [OF built_inv, of hash "Remove_Node p" st ops] by simp
  then have r: "route hash key (removeNode hash p ?s) = ring_lookup (ring_remove_node hash ?a ?m) (hash key)"
    "route hash key ?s = ring_lookup ?m (hash key)"
    using ring_of_step(2) [OF built_inv] by (simp_all add: route_def route_by_ring built_inv)
  have "route hash key (removeNode hash p ?s) \<noteq> Some ?a"
    using ring_lookup_value [of "ring_remove_node hash ?a ?m" "hash key" ?a]
      removed_not_in_ring [OF sound, of _ ?a] r(1) by auto
  moreover have "ring_lookup (filter ?Q ?m) (hash key) = ring_lookup ?m (hash key)"
    if "ring_lookup ?m (hash key) \<noteq> Some ?a"
  proof (cases "ring_lookup ?m (hash key)")
    case None
    then have "?m = []" by (auto simp: ring_lookup_def split: if_splits option.splits)
    then show ?thesis by simp
  next
    case (Some b)
    with that have "b \<noteq> ?a" by simp
    then have "?Q e" if "e \<in> set ?m" "snd e = b" for e using assms that by auto
    with ring_lookup_filter [OF Some, of ?Q] Some show ?thesis by simp
  qed
  ultimately show ?thesis using r by (simp add: ring_remove_node_filter)
qed

lemma set_ring_add_node: "snd ` set (ring_add_node hash a m) \<subseteq> insert a (snd ` set m)"
proof -
  have "snd ` set (fold (\<lambda>i. ring_insert (f i) a) is m) \<subseteq> insert a (snd ` set m)"
    for f :: "nat \<Rightarrow> u64" and "is"
  proof (induction "is" arbitrary: m)
    case (Cons i js)
    from image_mono [OF set_ring_insert, of snd "f i" a m]
    have "snd ` set (ring_insert (f i) a m) \<subseteq> insert a (snd ` set m)" by simp
    with Cons [of "ring_insert (f i) a m"] show ?case by simp blast
  qed auto
  then show ?thesis by (simp add: ring_add_node_def)
qed

text \<open>A hash that separates the two servers by the first byte of the name.\<close>

definition first_byte_hash :: "bytes \<Rightarrow> u64" where
  "first_byte_hash s = (if take 1 s = ''1'' then 1 else 2)"

theorem remove_node_disruption_witness:
  "route first_byte_hash ''model'' (removeNode first_byte_hash 0
       (built first_byte_hash two_nodes [Add_Node 0, Add_Node 1])) \<noteq> Some (node_addr (two_nodes 0))
   \<and> route first_byte_hash ''model'' (built first_byte_hash two_nodes [Add_Node 0, Add_Node 1])
      \<in> {Some (node_addr (two_nodes 0)),
          route first_byte_hash ''model'' (removeNode first_byte_hash 0
            (built first_byte_hash two_nodes [Add_Node 0, Add_Node 1]))}"
proof -
  let ?ops = "[Add_Node 0, Add_Node 1]" and ?h = first_byte_hash
  have h: "?h (vnode_name (node_addr (two_nodes 0)) i) = 1" "?h (vnode_name (node_addr (two_nodes 1)) i) = 2" for i
    by (simp_all add: first_byte_hash_def vnode_name_def toIpPort_def two_nodes_def server_node_new_def)
  have sound: "ring_sound ?h (ring_of (built ?h two_nodes ?ops))"
    using built_inv [of ?h two_nodes ?ops] by (simp add: selector_inv_def)
  have servers: "snd ` set (ring_of (built ?h two_nodes ?ops)) \<subseteq> {node_addr (two_nodes 0), node_addr (two_nodes 1)}"
    using built_snoc(1) [of ?h two_nodes "[Add_Node 0]" 1] built_snoc(1) [of ?h two_nodes "[]" 0]
      set_ring_add_node [of ?h "node_addr (two_nodes 0)" "[]"]
      set_ring_add_node [of ?h "node_addr (two_nodes 1)" "ring_add_node ?h (node_addr (two_nodes 0)) []"]
    by (simp add: built_empty) blast
  have "snd e = node_addr (two_nodes 0)"
    if e: "e \<in> set (ring_of (built ?h two_nodes ?ops))" "fst e = 1" for e
  proof -
    from sound e obtain i where "?h (vnode_name (snd e) i) = 1" by (auto simp: ring_sound_def)
    moreover from servers e(1) have "snd e = node_addr (two_nodes 0) \<or> snd e = node_addr (two_nodes 1)"
      by blast
    ultimately show ?thesis using h(2) by auto
  qed
  then show ?thesis
    using remove_node_disruption [of ?h two_nodes ?ops 0 "''model''"] by (auto simp: built_snoc(3) h(1))
qed

end
