(* ===== verification/Event_Loop.thy ===== *)
theory Event_Loop
  imports Prelude
begin

text \<open>
  The reactor: \<open>EventLoop\<close> of \<^verbatim>\<open>src/EventLoop.h\<close> and \<^verbatim>\<open>src/EventLoop.cc\<close>. A loop polls, lets
  the active channels handle their events, and runs the functors that were queued with
  \<open>queueInLoop\<close>; the eventfd \<open>wakeupFd_\<close> ends a poll that would block.

  The operations are functions on the state \<open>event_loop\<close>; a functor is a value of the type
  variable. \<open>exec_loop\<close> is the interleaving of the loop thread with other threads: the loop
  thread's program counter is \<open>phase\<close>, and every event is one step of one thread. The mutex
  makes each access to \<open>pendingFunctors_\<close> one step; \<open>queueInLoop\<close> is two steps, because the wakeup is
  written after the mutex is released, and so is \<open>quit\<close>. \<open>waking\<close> are the functors that other threads
  have pushed without having written their wakeup yet, \<open>quit_wakes\<close> the number of other threads that are
  as far in \<open>quit\<close>. \<open>executed\<close> records the functors run from the queue and \<open>direct\<close> those that
  \<open>runInLoop\<close> runs at once.
\<close>

section \<open>State and operations\<close>

text \<open>Where the loop thread is: also between the two steps of a \<open>queueInLoop\<close> of its own.\<close>

datatype phase = Before | Polling | Handling | Handler_Waking | Calling | Functor_Waking | Stopped

record 'f event_loop =
  looping :: bool
  quit_flag :: bool
  callingPendingFunctors :: bool
  pendingFunctors :: "'f list"
  functors :: "'f list"
  wakeup_count :: nat
  phase :: phase
  executed :: "'f list"
  direct :: "'f list"
  waking :: "'f list"
  quit_wakes :: nat

definition event_loop_new :: "'f event_loop" where
  "event_loop_new =
     \<lparr>looping = False, quit_flag = False, callingPendingFunctors = False, pendingFunctors = [],
      functors = [], wakeup_count = 0, phase = Before, executed = [], direct = [],
      waking = [], quit_wakes = 0\<rparr>"

text \<open>An eight byte write adds one to the counter of the eventfd, a read takes it back to 0.\<close>

definition wakeup :: "'f event_loop \<Rightarrow> 'f event_loop" where
  "wakeup l = l\<lparr>wakeup_count := wakeup_count l + 1\<rparr>"

definition handleReading :: "'f event_loop \<Rightarrow> 'f event_loop" where
  "handleReading l = l\<lparr>wakeup_count := 0\<rparr>"

text \<open>\<open>queueInLoop\<close>: the push under the mutex, and then the test and the wakeup.\<close>

definition push_functor :: "'f \<Rightarrow> 'f event_loop \<Rightarrow> 'f event_loop" where
  "push_functor cb l = l\<lparr>pendingFunctors := pendingFunctors l @ [cb]\<rparr>"

definition wake_queued :: "bool \<Rightarrow> 'f event_loop \<Rightarrow> 'f event_loop" where
  "wake_queued isInLoopThread l =
     (if \<not> isInLoopThread \<or> \<not> callingPendingFunctors l then wakeup l else l)"

definition queueInLoop :: "bool \<Rightarrow> 'f \<Rightarrow> 'f event_loop \<Rightarrow> 'f event_loop" where
  "queueInLoop isInLoopThread cb l = wake_queued isInLoopThread (push_functor cb l)"

definition runInLoop :: "bool \<Rightarrow> 'f \<Rightarrow> 'f event_loop \<Rightarrow> 'f event_loop" where
  "runInLoop isInLoopThread cb l =
     (if isInLoopThread then l\<lparr>direct := direct l @ [cb]\<rparr> else queueInLoop isInLoopThread cb l)"

definition set_quit :: "'f event_loop \<Rightarrow> 'f event_loop" where
  "set_quit l = l\<lparr>quit_flag := True\<rparr>"

definition wake_quit :: "bool \<Rightarrow> 'f event_loop \<Rightarrow> 'f event_loop" where
  "wake_quit isInLoopThread l = (if \<not> isInLoopThread then wakeup l else l)"

definition quit_loop :: "bool \<Rightarrow> 'f event_loop \<Rightarrow> 'f event_loop" where
  "quit_loop isInLoopThread l = wake_quit isInLoopThread (set_quit l)"

text \<open>\<open>doPendingFunctors\<close>, cut where other threads can run: the swap, one functor, the end.\<close>

definition swap_functors :: "'f event_loop \<Rightarrow> 'f event_loop" where
  "swap_functors l =
     l\<lparr>callingPendingFunctors := True, functors := pendingFunctors l, pendingFunctors := []\<rparr>"

definition call_functor :: "'f event_loop \<Rightarrow> 'f event_loop" where
  "call_functor l =
     (case functors l of [] \<Rightarrow> l | f # fs \<Rightarrow> l\<lparr>functors := fs, executed := executed l @ [f]\<rparr>)"

definition end_functors :: "'f event_loop \<Rightarrow> 'f event_loop" where
  "end_functors l = l\<lparr>callingPendingFunctors := False\<rparr>"

text \<open>The whole of it on the loop thread: \<open>run f\<close> are the functors that \<open>f\<close> queues.\<close>

fun call_functors :: "('f \<Rightarrow> 'f list) \<Rightarrow> nat \<Rightarrow> 'f event_loop \<Rightarrow> 'f event_loop" where
  "call_functors run 0 l = l"
| "call_functors run (Suc n) l =
     (case functors l of
        [] \<Rightarrow> l
      | f # fs \<Rightarrow> call_functors run n (fold (queueInLoop True) (run f) (call_functor l)))"

definition doPendingFunctors :: "('f \<Rightarrow> 'f list) \<Rightarrow> 'f event_loop \<Rightarrow> 'f event_loop" where
  "doPendingFunctors run l =
     (let l1 = swap_functors l in end_functors (call_functors run (length (functors l1)) l1))"

section \<open>Threads\<close>

text \<open>
  The steps. \<open>Other_Queues\<close>, \<open>Other_Wakes\<close>, \<open>Other_Quits\<close> and \<open>Quit_Wakes\<close> are steps of other threads, the
  two of \<open>queueInLoop\<close> and the two of \<open>quit\<close>. \<open>Handler_Queues\<close> and \<open>Handler_Runs\<close> happen in a channel's
  handler, \<open>Functor_Queues\<close> in a functor; \<open>Loop_Wakes\<close> is the second step of a \<open>queueInLoop\<close> of the
  loop thread, and \<open>Loop_Quits\<close> its \<open>quit\<close>. \<open>None\<close> means that the step is not possible.
\<close>

datatype 'f loop_event = Enter | Other_Queues 'f | Other_Wakes 'f | Other_Quits | Quit_Wakes | Poll_Returns
  | Wakeup_Read | Handler_Queues 'f | Handler_Runs 'f | Swap | Functor_Queues 'f | Loop_Wakes | Loop_Quits
  | Functor_Runs | Functors_Done

fun exec_loop :: "'f loop_event \<Rightarrow> 'f event_loop \<Rightarrow> 'f event_loop option" where
  "exec_loop Enter l =
     (if phase l = Before then Some (l\<lparr>looping := True, quit_flag := False, phase := Polling\<rparr>)
      else None)"
| "exec_loop (Other_Queues f) l = Some ((push_functor f l)\<lparr>waking := waking l @ [f]\<rparr>)"
| "exec_loop (Other_Wakes f) l =
     (if f \<in> set (waking l) then Some (wake_queued False (l\<lparr>waking := remove1 f (waking l)\<rparr>)) else None)"
| "exec_loop Other_Quits l = Some ((set_quit l)\<lparr>quit_wakes := quit_wakes l + 1\<rparr>)"
| "exec_loop Quit_Wakes l =
     (if 0 < quit_wakes l then Some (wake_quit False (l\<lparr>quit_wakes := quit_wakes l - 1\<rparr>)) else None)"
| "exec_loop Poll_Returns l = (if phase l = Polling then Some (l\<lparr>phase := Handling\<rparr>) else None)"
| "exec_loop Wakeup_Read l = (if phase l = Handling then Some (handleReading l) else None)"
| "exec_loop (Handler_Queues f) l =
     (if phase l = Handling then Some ((push_functor f l)\<lparr>phase := Handler_Waking\<rparr>) else None)"
| "exec_loop (Handler_Runs f) l =
     (if phase l = Handling then Some (runInLoop True f l) else None)"
| "exec_loop Swap l =
     (if phase l = Handling then Some ((swap_functors l)\<lparr>phase := Calling\<rparr>) else None)"
| "exec_loop (Functor_Queues f) l =
     (if phase l = Calling then Some ((push_functor f l)\<lparr>phase := Functor_Waking\<rparr>) else None)"
| "exec_loop Loop_Wakes l =
     (if phase l = Handler_Waking then Some ((wake_queued True l)\<lparr>phase := Handling\<rparr>)
      else if phase l = Functor_Waking then Some ((wake_queued True l)\<lparr>phase := Calling\<rparr>)
      else None)"
| "exec_loop Loop_Quits l =
     (if phase l = Handling \<or> phase l = Calling then Some (quit_loop True l) else None)"
| "exec_loop Functor_Runs l =
     (if phase l = Calling \<and> functors l \<noteq> [] then Some (call_functor l) else None)"
| "exec_loop Functors_Done l =
     (if phase l = Calling \<and> functors l = []
      then (let l1 = end_functors l in
            Some (if quit_flag l1 then l1\<lparr>looping := False, phase := Stopped\<rparr>
                  else l1\<lparr>phase := Polling\<rparr>))
      else None)"

fun exec_events :: "'f loop_event list \<Rightarrow> 'f event_loop \<Rightarrow> 'f event_loop option" where
  "exec_events [] l = Some l"
| "exec_events (e # es) l = (case exec_loop e l of None \<Rightarrow> None | Some l1 \<Rightarrow> exec_events es l1)"

text \<open>A poll blocks unless the eventfd (or another descriptor) is ready.\<close>

definition asleep :: "'f event_loop \<Rightarrow> bool" where
  "asleep l \<longleftrightarrow> phase l = Polling \<and> wakeup_count l = 0"

text \<open>The functors of a history, in the order they were queued.\<close>

fun queued :: "'f loop_event list \<Rightarrow> 'f list" where
  "queued [] = []"
| "queued (Other_Queues f # es) = f # queued es"
| "queued (Handler_Queues f # es) = f # queued es"
| "queued (Functor_Queues f # es) = f # queued es"
| "queued (_ # es) = queued es"

section \<open>Invariants\<close>

lemmas loop_defs = wakeup_def handleReading_def push_functor_def wake_queued_def queueInLoop_def
  runInLoop_def set_quit_def wake_quit_def quit_loop_def swap_functors_def call_functor_def end_functors_def Let_def

fun in_functors :: "phase \<Rightarrow> bool" where
  "in_functors Calling = True"
| "in_functors Functor_Waking = True"
| "in_functors _ = False"

fun in_handlers :: "phase \<Rightarrow> bool" where
  "in_handlers Handling = True"
| "in_handlers Handler_Waking = True"
| "in_handlers _ = False"

definition loop_inv :: "'f event_loop \<Rightarrow> bool" where
  "loop_inv l \<longleftrightarrow> (callingPendingFunctors l \<longleftrightarrow> in_functors (phase l))
     \<and> (\<not> in_functors (phase l) \<longrightarrow> functors l = [])
     \<and> (looping l \<longleftrightarrow> phase l = Polling \<or> in_handlers (phase l) \<or> in_functors (phase l))"

lemma loop_inv_new [inv_intro]: "loop_inv event_loop_new"
  by (simp add: loop_inv_def event_loop_new_def)

lemma exec_loop_inv: "loop_inv l \<Longrightarrow> exec_loop e l = Some l' \<Longrightarrow> loop_inv l'"
  by (cases e) (auto simp: loop_inv_def loop_defs split: if_splits list.splits)

text \<open>The queue as the functors see it: run, being run, waiting.\<close>

definition all_functors :: "'f event_loop \<Rightarrow> 'f list" where
  "all_functors l = executed l @ functors l @ pendingFunctors l"

lemma exec_loop_functors:
  "loop_inv l \<Longrightarrow> exec_loop e l = Some l' \<Longrightarrow> all_functors l' = all_functors l @ queued [e]"
  by (cases e)
    (auto simp: loop_inv_def all_functors_def loop_defs split: if_splits list.splits)

lemma queued_Cons: "queued (e # es) = queued [e] @ queued es"
  by (cases e) simp_all

lemma exec_events_functors:
  "exec_events es l = Some l' \<Longrightarrow> loop_inv l \<Longrightarrow>
     loop_inv l' \<and> all_functors l' = all_functors l @ queued es"
proof (induction es arbitrary: l)
  case (Cons e es)
  then obtain l1 where l1: "exec_loop e l = Some l1" "exec_events es l1 = Some l'"
    by (auto split: option.splits)
  with Cons.IH [OF l1(2) exec_loop_inv [OF Cons.prems(2) l1(1)]]
    exec_loop_functors [OF Cons.prems(2) l1(1)]
  show ?case unfolding queued_Cons [of e es] by simp
qed simp

text \<open>
  Outside the handlers, a functor that waits has a wakeup on its way, or will get it from the
  thread that pushed it, or was queued by a functor. A poll of a loop that is to quit ends likewise.
\<close>

definition woken :: "'f set \<Rightarrow> 'f event_loop \<Rightarrow> bool" where
  "woken F l \<longleftrightarrow>
     (\<not> in_handlers (phase l) \<longrightarrow>
        0 < wakeup_count l \<or> set (pendingFunctors l) \<subseteq> F \<union> set (waking l))
     \<and> (phase l = Polling \<and> quit_flag l \<longrightarrow> 0 < wakeup_count l \<or> 0 < quit_wakes l)"

lemma woken_by_write: "0 < wakeup_count l \<Longrightarrow> woken F l"
  by (simp add: woken_def)

lemma exec_loop_woken:
  assumes i: "loop_inv l" and w: "woken F l" and s: "exec_loop e l = Some l'"
    and q: "\<And>f. e = Functor_Queues f \<Longrightarrow> f \<in> F"
  shows "woken F l'"
proof (cases e)
  case (Other_Wakes f)
  with s show ?thesis by (intro woken_by_write) (auto simp: loop_defs split: if_splits)
next
  case Quit_Wakes
  with s show ?thesis by (intro woken_by_write) (auto simp: loop_defs split: if_splits)
next
  case Loop_Wakes
  with i w s show ?thesis by (auto simp: loop_inv_def woken_def wake_queued_def wakeup_def split: if_splits)
next
  case Functor_Runs
  with w s show ?thesis by (auto simp: woken_def call_functor_def split: if_splits list.splits)
next
  case Functors_Done
  with w s show ?thesis by (auto simp: woken_def end_functors_def Let_def split: if_splits)
next
  case (Functor_Queues f)
  with w s q show ?thesis by (auto simp: woken_def push_functor_def split: if_splits)
next
  case (Other_Queues f)
  with w s show ?thesis by (auto simp: woken_def push_functor_def)
next
  case Other_Quits
  with w s show ?thesis by (auto simp: woken_def set_quit_def)
qed (use w s in \<open>auto simp: woken_def handleReading_def push_functor_def runInLoop_def swap_functors_def
    quit_loop_def wake_quit_def set_quit_def split: if_splits\<close>)

lemma exec_events_woken:
  "exec_events es l = Some l' \<Longrightarrow> loop_inv l \<Longrightarrow> woken F l \<Longrightarrow>
     (\<And>f. Functor_Queues f \<in> set es \<Longrightarrow> f \<in> F) \<Longrightarrow> woken F l'"
proof (induction es arbitrary: l)
  case (Cons e es)
  then obtain l1 where l1: "exec_loop e l = Some l1" "exec_events es l1 = Some l'"
    by (auto split: option.splits)
  have "woken F l1" using exec_loop_woken [OF Cons.prems(2,3) l1(1)] Cons.prems(4) by auto
  then show ?case
    using Cons.IH [OF l1(2) exec_loop_inv [OF Cons.prems(2) l1(1)]] Cons.prems(4) by auto
qed simp

section \<open>One call of doPendingFunctors\<close>

lemma queue_in_functor:
  "callingPendingFunctors l \<Longrightarrow>
     fold (queueInLoop True) gs l = l\<lparr>pendingFunctors := pendingFunctors l @ gs\<rparr>"
  by (induction gs arbitrary: l) (simp_all add: queueInLoop_def push_functor_def wake_queued_def)

lemma call_functors_effect:
  "callingPendingFunctors l \<Longrightarrow>
     call_functors run (length (functors l)) l =
       l\<lparr>functors := [], executed := executed l @ functors l,
         pendingFunctors := pendingFunctors l @ concat (map run (functors l))\<rparr>"
proof (induction "functors l" arbitrary: l)
  case (Cons f fs)
  from Cons(2)[symmetric] Cons(3)
  have "fold (queueInLoop True) (run f) (call_functor l)
      = l\<lparr>functors := fs, executed := executed l @ [f],
          pendingFunctors := pendingFunctors l @ run f\<rparr>"
    by (subst queue_in_functor) (simp_all add: call_functor_def)
  with Cons(1) [of "l\<lparr>functors := fs, executed := executed l @ [f],
          pendingFunctors := pendingFunctors l @ run f\<rparr>"] Cons(2)[symmetric] Cons(3)
  show ?case by simp
qed simp

lemma doPendingFunctors_effect:
  "doPendingFunctors run l =
     l\<lparr>callingPendingFunctors := False, functors := [], executed := executed l @ pendingFunctors l,
       pendingFunctors := concat (map run (pendingFunctors l))\<rparr>"
  using call_functors_effect [of "swap_functors l" run]
  by (simp add: doPendingFunctors_def Let_def swap_functors_def end_functors_def)

text \<open>It is what the steps of the loop thread do when no other thread takes part.\<close>

definition queue_events :: "'f list \<Rightarrow> 'f loop_event list" where
  "queue_events gs = concat (map (\<lambda>g. [Functor_Queues g, Loop_Wakes]) gs)"

fun functor_events :: "('f \<Rightarrow> 'f list) \<Rightarrow> 'f list \<Rightarrow> 'f loop_event list" where
  "functor_events run [] = []"
| "functor_events run (f # fs) =
     Functor_Runs # queue_events (run f) @ functor_events run fs"

lemma exec_events_append:
  "exec_events (es @ es') l = (case exec_events es l of None \<Rightarrow> None | Some l1 \<Rightarrow> exec_events es' l1)"
  by (induction es arbitrary: l) (simp_all split: option.splits)

lemma exec_queues:
  "phase l = Calling \<Longrightarrow> callingPendingFunctors l \<Longrightarrow>
     exec_events (queue_events gs) l = Some (l\<lparr>pendingFunctors := pendingFunctors l @ gs\<rparr>)"
proof (induction gs arbitrary: l)
  case (Cons g gs)
  have "exec_events [Functor_Queues g, Loop_Wakes] l = Some (l\<lparr>pendingFunctors := pendingFunctors l @ [g]\<rparr>)"
    using Cons.prems by (simp add: push_functor_def wake_queued_def)
  with Cons.IH [of "l\<lparr>pendingFunctors := pendingFunctors l @ [g]\<rparr>"] Cons.prems
  show ?case using exec_events_append [of "[Functor_Queues g, Loop_Wakes]" "queue_events gs" l]
    by (simp add: queue_events_def)
qed (simp add: queue_events_def)

lemma exec_functor_events:
  "phase l = Calling \<Longrightarrow> callingPendingFunctors l \<Longrightarrow> functors l = fs \<Longrightarrow>
     exec_events (functor_events run fs) l =
       Some (l\<lparr>functors := [], executed := executed l @ fs,
               pendingFunctors := pendingFunctors l @ concat (map run fs)\<rparr>)"
  by (induction fs arbitrary: l) (simp_all add: call_functor_def exec_events_append exec_queues)

definition loop_iteration :: "('f \<Rightarrow> 'f list) \<Rightarrow> 'f event_loop \<Rightarrow> 'f loop_event list" where
  "loop_iteration run l =
     [Poll_Returns, Swap] @ functor_events run (pendingFunctors l) @ [Functors_Done]"

lemma exec_loop_iteration:
  assumes "phase l = Polling" and "\<not> quit_flag l"
  shows "exec_events (loop_iteration run l) l = Some ((doPendingFunctors run l)\<lparr>phase := Polling\<rparr>)"
  using assms
  by (simp add: loop_iteration_def exec_events_append swap_functors_def end_functors_def Let_def
      exec_functor_events doPendingFunctors_effect)

section \<open>Properties\<close>

text \<open>
  C28. Queued functors run exactly once and in order: in every interleaving of the loop with
  other threads, the functors run so far, then those of the batch being run, then those that
  wait, are exactly the functors queued so far in the order they were queued.
\<close>

theorem functors_run_in_order:
  assumes "exec_events es event_loop_new = Some l"
  shows "executed l @ functors l @ pendingFunctors l = queued es"
  using exec_events_functors [OF assms loop_inv_new]
  by (simp add: all_functors_def event_loop_new_def)

theorem functors_run_in_order_witness:
  "\<exists>l. exec_events [Enter, Other_Queues CHR ''a'', Other_Wakes CHR ''a'', Poll_Returns, Wakeup_Read,
       Handler_Queues CHR ''b'', Loop_Wakes, Swap, Functor_Runs, Other_Queues CHR ''c'', Functor_Queues CHR ''d'',
       Other_Wakes CHR ''c'', Loop_Wakes, Functor_Runs, Functors_Done]
     event_loop_new = Some l
   \<and> executed l @ functors l @ pendingFunctors l = ''abcd''"
proof -
  let ?es = "[Enter, Other_Queues CHR ''a'', Other_Wakes CHR ''a'', Poll_Returns, Wakeup_Read,
       Handler_Queues CHR ''b'', Loop_Wakes, Swap, Functor_Runs, Other_Queues CHR ''c'', Functor_Queues CHR ''d'',
       Other_Wakes CHR ''c'', Loop_Wakes, Functor_Runs, Functors_Done]"
  have "\<exists>l. exec_events ?es event_loop_new = Some l"
    by (simp add: event_loop_new_def loop_defs)
  then obtain l where "exec_events ?es event_loop_new = Some l" by blast
  with functors_run_in_order [OF this] show ?thesis by auto
qed

text \<open>
  C18. Wakeups: whenever the loop is asleep in \<open>poll\<close>, every functor that waits was queued by a
  functor running in the loop, or by another thread that is between the push and its wakeup: the next step
  of this thread ends the sleep. So a functor queued by another thread or by a channel's handler is
  never left behind. (The exception is real: \<open>functor_not_woken\<close>.) Likewise a loop that another
  thread has told to quit is asleep only until that thread has written its wakeup.
\<close>

theorem asleep_only_with_nested_functors:
  assumes "exec_events es event_loop_new = Some l" and "asleep l"
  shows "(\<forall>f \<in> set (pendingFunctors l). Functor_Queues f \<in> set es \<or> f \<in> set (waking l))
    \<and> (\<forall>f \<in> set (waking l). \<exists>l'. exec_loop (Other_Wakes f) l = Some l' \<and> \<not> asleep l')
    \<and> (quit_flag l \<longrightarrow> (\<exists>l'. exec_loop Quit_Wakes l = Some l' \<and> \<not> asleep l'))"
proof -
  have "woken {f. Functor_Queues f \<in> set es} (event_loop_new :: 'a event_loop)"
    by (simp add: woken_def event_loop_new_def)
  from exec_events_woken [OF assms(1) loop_inv_new this] have "woken {f. Functor_Queues f \<in> set es} l"
    by simp
  with assms(2) show ?thesis
    by (auto simp: woken_def asleep_def wake_queued_def wake_quit_def wakeup_def)
qed

text \<open>
  \<open>queueInLoop\<close> tests \<open>!callingPendingFunctors_\<close> where the intent (its comment) needs the
  opposite: a functor that queues another one leaves the loop asleep with work to do until the
  poll times out after ten seconds.
\<close>

definition nested_history :: "nat loop_event list" where
  "nested_history = [Enter, Other_Queues 1, Poll_Returns, Other_Wakes 1, Wakeup_Read, Swap,
     Functor_Runs, Functor_Queues 2, Loop_Wakes, Functors_Done]"

lemma functor_not_woken:
  "\<exists>l. exec_events nested_history event_loop_new = Some l \<and> asleep l \<and> pendingFunctors l = [2] \<and> waking l = []"
  by (simp add: nested_history_def event_loop_new_def loop_defs asleep_def)

text \<open>The transient state of \<open>queueInLoop\<close>: asleep, a functor waits, its wakeup is still to come.\<close>

theorem asleep_only_with_nested_functors_witness:
  "(\<exists>l. exec_events nested_history event_loop_new = Some l \<and> asleep l
     \<and> Functor_Queues (hd (pendingFunctors l)) \<in> set nested_history)
   \<and> (\<exists>l l'. exec_events [Enter, Other_Queues (7 :: nat), Other_Quits] event_loop_new = Some l \<and> asleep l
     \<and> pendingFunctors l = [7] \<and> exec_loop (Other_Wakes 7) l = Some l' \<and> \<not> asleep l')"
proof
  obtain l where l: "exec_events nested_history event_loop_new = Some l" "asleep l"
    "pendingFunctors l = [2]" "waking l = []"
    using functor_not_woken by blast
  with asleep_only_with_nested_functors [OF l(1,2)]
  show "\<exists>l. exec_events nested_history event_loop_new = Some l \<and> asleep l
     \<and> Functor_Queues (hd (pendingFunctors l)) \<in> set nested_history" by auto
next
  have "\<exists>l. exec_events [Enter, Other_Queues (7 :: nat), Other_Quits] event_loop_new = Some l \<and> asleep l
      \<and> pendingFunctors l = [7] \<and> waking l = [7]"
    by (simp add: event_loop_new_def loop_defs asleep_def)
  then obtain l where l: "exec_events [Enter, Other_Queues (7 :: nat), Other_Quits] event_loop_new = Some l"
    "asleep l" "pendingFunctors l = [7]" "waking l = [7]" by blast
  with asleep_only_with_nested_functors [OF l(1,2)]
  show "\<exists>l l'. exec_events [Enter, Other_Queues (7 :: nat), Other_Quits] event_loop_new = Some l \<and> asleep l
     \<and> pendingFunctors l = [7] \<and> exec_loop (Other_Wakes 7) l = Some l' \<and> \<not> asleep l'" by auto
qed

text \<open>Several iterations, and the functors queued at depth \<open>n\<close> of a batch.\<close>

fun iterations :: "('f \<Rightarrow> 'f list) \<Rightarrow> nat \<Rightarrow> 'f event_loop \<Rightarrow> 'f event_loop option" where
  "iterations run 0 l = Some l"
| "iterations run (Suc n) l =
     (case exec_events (loop_iteration run l) l of None \<Rightarrow> None | Some l1 \<Rightarrow> iterations run n l1)"

fun nested :: "('f \<Rightarrow> 'f list) \<Rightarrow> nat \<Rightarrow> 'f list \<Rightarrow> 'f list" where
  "nested run 0 fs = fs"
| "nested run (Suc n) fs = nested run n (concat (map run fs))"

text \<open>
  C30. Progress: whatever the functors queue while they run, a running loop completes \<open>n\<close>
  iterations, and has then run, batch by batch, the functors that waited at the start and
  those nested less than \<open>n\<close> deep in them; those nested \<open>n\<close> deep wait. So every functor is run
  after finitely many iterations, and functors that queue themselves cannot keep the loop from
  polling.
\<close>

theorem loop_makes_progress:
  assumes "phase l = Polling" and "\<not> quit_flag l"
  shows "\<exists>l'. iterations run n l = Some l' \<and> phase l' = Polling
    \<and> executed l' = executed l @ concat (map (\<lambda>k. nested run k (pendingFunctors l)) [0..<n])
    \<and> pendingFunctors l' = nested run n (pendingFunctors l)"
  using assms
proof (induction n arbitrary: l)
  case (Suc n)
  let ?l1 = "(doPendingFunctors run l)\<lparr>phase := Polling\<rparr>"
  have "\<exists>l'. iterations run n ?l1 = Some l' \<and> phase l' = Polling
      \<and> executed l' = executed ?l1 @ concat (map (\<lambda>k. nested run k (pendingFunctors ?l1)) [0..<n])
      \<and> pendingFunctors l' = nested run n (pendingFunctors ?l1)"
    by (rule Suc.IH) (simp_all add: doPendingFunctors_effect Suc.prems)
  moreover have "map (\<lambda>k. nested run k (pendingFunctors l)) [0..<Suc n]
      = pendingFunctors l # map (\<lambda>k. nested run k (concat (map run (pendingFunctors l)))) [0..<n]"
    unfolding map_upt_Suc by simp
  ultimately show ?case
    using exec_loop_iteration [OF Suc.prems, of run]
    by (simp add: doPendingFunctors_effect del: upt_Suc)
qed simp

theorem loop_makes_progress_witness:
  "\<exists>l'. iterations (\<lambda>n. [n + 1]) 2 (event_loop_new\<lparr>phase := Polling, pendingFunctors := [5 :: nat]\<rparr>) = Some l'
     \<and> executed l' = [5, 6] \<and> pendingFunctors l' = [7]"
  using loop_makes_progress [of "event_loop_new\<lparr>phase := Polling, pendingFunctors := [5 :: nat]\<rparr>"
      "\<lambda>n. [n + 1]" 2]
  by (simp add: event_loop_new_def numeral_eq_Suc) blast

end
