(* ===== verification/Timer_Queue.thy ===== *)
theory Timer_Queue
  imports Prelude Complex_Main "HOL-Library.Product_Lexorder"
begin

text \<open>
  Timers: \<^verbatim>\<open>src/Timer.h\<close>, \<^verbatim>\<open>src/Timer.cc\<close>, \<^verbatim>\<open>src/TimerId.h\<close>, \<^verbatim>\<open>src/TimerQueue.h\<close> and
  \<^verbatim>\<open>src/TimerQueue.cc\<close>, with \<open>Timestamp\<close> as a number of microseconds. Timers are heap objects;
  a pointer is a number, \<open>timer_heap\<close> maps the live ones to their objects, and pointers are not
  used twice. An access through a pointer whose object was deleted, and reading \<open>*end()\<close>, is
  undefined behaviour and the value \<open>None\<close>.

  The kernel timer is the pair of \<open>armed\<close> (when it fires) and \<open>fd_ready\<close> (it has fired and was
  not read or set again since). Each clock reading of the code is an argument. What a callback
  does to the queue is given by \<open>script\<close>: the list of its calls, by callback number. The
  operations run in the loop thread, which is where \<open>runInLoop\<close> puts them.
\<close>

section \<open>Timers\<close>

record timer =
  callback :: nat
  expiration :: int
  interval :: rat
  repeats :: bool
  sequence :: int

text \<open>\<open>static_cast<int64_t>(seconds * 1000000)\<close> rounds towards zero.\<close>

definition truncated :: "rat \<Rightarrow> int" where
  "truncated x = (if 0 \<le> x then \<lfloor>x\<rfloor> else - \<lfloor>- x\<rfloor>)"

definition addTime :: "int \<Rightarrow> rat \<Rightarrow> int" where
  "addTime timestamp seconds = timestamp + truncated (seconds * 1000000)"

definition timer_new :: "nat \<Rightarrow> int \<Rightarrow> rat \<Rightarrow> int \<Rightarrow> timer" where
  "timer_new cb w iv num_created =
     \<lparr>callback = cb, expiration = w, interval = iv, repeats = 0 < iv, sequence = num_created + 1\<rparr>"

definition restart :: "int \<Rightarrow> timer \<Rightarrow> timer" where
  "restart now tm = tm\<lparr>expiration := (if repeats tm then addTime now (interval tm) else 0)\<rparr>"

section \<open>The queue\<close>

type_synonym entry = "int \<times> nat"

record timer_queue =
  timers :: "entry list"
  activeTimers :: "nat set"
  cancelingTimers :: "nat set"
  callingExpiredTimers :: bool
  timer_heap :: "nat \<Rightarrow> timer option"
  next_ptr :: nat
  armed :: "int option"
  fd_ready :: bool
  last_arm :: int
  ran :: "nat list"

definition timer_queue_new :: timer_queue where
  "timer_queue_new =
     \<lparr>timers = [], activeTimers = {}, cancelingTimers = {}, callingExpiredTimers = False,
      timer_heap = Map.empty, next_ptr = 0, armed = None, fd_ready = False, last_arm = 0, ran = []\<rparr>"

definition resetTimerfd :: "int \<Rightarrow> int \<Rightarrow> timer_queue \<Rightarrow> timer_queue" where
  "resetTimerfd e now q =
     (let microseconds = e - now;
          microseconds = (if microseconds < 100 then 100 else microseconds)
      in q\<lparr>armed := Some (now + microseconds), fd_ready := False, last_arm := now\<rparr>)"

text \<open>\<open>timers_\<close> is a \<open>std::set\<close> of pairs in lexicographic order.\<close>

definition entry_insert :: "entry \<Rightarrow> entry list \<Rightarrow> entry list" where
  "entry_insert e es = (if e \<in> set es then es else insort e es)"

definition insert_timer :: "nat \<Rightarrow> timer_queue \<Rightarrow> (bool \<times> timer_queue) option" where
  "insert_timer p q =
     (case timer_heap q p of
        None \<Rightarrow> None
      | Some tm \<Rightarrow>
          let w = expiration tm;
              erliest = (timers q = [] \<or> w < fst (hd (timers q)))
          in Some (erliest, q\<lparr>timers := entry_insert (w, p) (timers q),
                             activeTimers := insert p (activeTimers q)\<rparr>))"

definition addTimerInLoop :: "int \<Rightarrow> nat \<Rightarrow> timer_queue \<Rightarrow> timer_queue option" where
  "addTimerInLoop now p q =
     (case insert_timer p q of
        None \<Rightarrow> None
      | Some (erliest, q1) \<Rightarrow>
          if erliest
          then map_option (\<lambda>tm. resetTimerfd (expiration tm) now q1) (timer_heap q1 p)
          else Some q1)"

text \<open>
  \<open>addTimer\<close>: \<open>new Timer\<close>, and \<open>addTimerInLoop\<close>. The result is the identifier. The sequence
  number, which nothing reads, counts the timers of this queue.
\<close>

definition addTimer ::
  "int \<Rightarrow> nat \<Rightarrow> int \<Rightarrow> rat \<Rightarrow> timer_queue \<Rightarrow> ((nat \<times> int) \<times> timer_queue) option" where
  "addTimer now cb w iv q =
     (let p = next_ptr q;
          tm = timer_new cb w iv (int p);
          q1 = q\<lparr>timer_heap := (timer_heap q)(p \<mapsto> tm), next_ptr := p + 1\<rparr>
      in map_option (\<lambda>q2. ((p, sequence tm), q2)) (addTimerInLoop now p q1))"

text \<open>
  The interface of the loop: \<open>runAt\<close>, \<open>runAfter\<close> and \<open>runEvery\<close> of \<open>EventLoop\<close>. \<open>clock\<close> is the time
  they read, \<open>now\<close> the one \<open>addTimer\<close> reads.
\<close>

definition runAt :: "int \<Rightarrow> int \<Rightarrow> nat \<Rightarrow> timer_queue \<Rightarrow> ((nat \<times> int) \<times> timer_queue) option" where
  "runAt now time cb q = addTimer now cb time 0 q"

definition runAfter :: "int \<Rightarrow> int \<Rightarrow> rat \<Rightarrow> nat \<Rightarrow> timer_queue \<Rightarrow> ((nat \<times> int) \<times> timer_queue) option" where
  "runAfter clock now delay cb q = runAt now (addTime clock delay) cb q"

definition runEvery :: "int \<Rightarrow> int \<Rightarrow> rat \<Rightarrow> nat \<Rightarrow> timer_queue \<Rightarrow> ((nat \<times> int) \<times> timer_queue) option" where
  "runEvery clock now iv cb q = addTimer now cb (addTime clock iv) iv q"

definition cancelInLoop :: "int \<Rightarrow> nat \<Rightarrow> timer_queue \<Rightarrow> timer_queue option" where
  "cancelInLoop now p q =
     (if p \<in> activeTimers q then
        (case timer_heap q p of
           None \<Rightarrow> None
         | Some tm \<Rightarrow>
             let e = (expiration tm, p);
                 q_del = (\<lambda>q. q\<lparr>timers := removeAll e (timers q),
                                activeTimers := activeTimers q - {p},
                                timer_heap := (timer_heap q)(p := None)\<rparr>)
             in if timers q = [] then None
                else if hd (timers q) = e then Some (q_del (resetTimerfd (fst (hd (timers q))) now q))
                else Some (q_del q))
      else if callingExpiredTimers q
      then Some (q\<lparr>cancelingTimers := insert p (cancelingTimers q)\<rparr>)
      else Some q)"

text \<open>
  \<open>getExpired\<close>: the entries below \<open>(now, UINTPTR_MAX)\<close>, which no pointer reaches, move out of
  the set.
\<close>

definition getExpired :: "int \<Rightarrow> timer_queue \<Rightarrow> entry list \<times> timer_queue" where
  "getExpired now q =
     (let expired = takeWhile (\<lambda>e. fst e \<le> now) (timers q) in
      (expired, q\<lparr>timers := dropWhile (\<lambda>e. fst e \<le> now) (timers q),
                  activeTimers := activeTimers q \<union> snd ` set expired\<rparr>))"

section \<open>Running expired timers\<close>

datatype timer_cmd = Add int nat int rat | Cancel int nat

fun run_cmd :: "timer_cmd \<Rightarrow> timer_queue \<Rightarrow> timer_queue option" where
  "run_cmd (Add now cb w iv) q = map_option snd (addTimer now cb w iv q)"
| "run_cmd (Cancel now p) q = cancelInLoop now p q"

fun run_cmds :: "timer_cmd list \<Rightarrow> timer_queue \<Rightarrow> timer_queue option" where
  "run_cmds [] q = Some q"
| "run_cmds (c # cs) q = (case run_cmd c q of None \<Rightarrow> None | Some q1 \<Rightarrow> run_cmds cs q1)"

fun run_expired :: "(nat \<Rightarrow> timer_cmd list) \<Rightarrow> entry list \<Rightarrow> timer_queue \<Rightarrow> timer_queue option" where
  "run_expired script [] q = Some q"
| "run_expired script ((t, p) # es) q =
     (case timer_heap q p of
        None \<Rightarrow> None
      | Some tm \<Rightarrow>
          (case run_cmds (script (callback tm)) (q\<lparr>ran := ran q @ [p]\<rparr>) of
             None \<Rightarrow> None
           | Some q1 \<Rightarrow> run_expired script es q1))"

fun requeue :: "int \<Rightarrow> entry list \<Rightarrow> timer_queue \<Rightarrow> timer_queue option" where
  "requeue now [] q = Some q"
| "requeue now ((t, p) # es) q =
     (case timer_heap q p of
        None \<Rightarrow> None
      | Some tm \<Rightarrow>
          if repeats tm \<and> p \<notin> cancelingTimers q then
            (case insert_timer p (q\<lparr>timer_heap := (timer_heap q)(p \<mapsto> restart now tm)\<rparr>) of
               None \<Rightarrow> None
             | Some (_, q1) \<Rightarrow> requeue now es q1)
          else requeue now es (q\<lparr>timer_heap := (timer_heap q)(p := None)\<rparr>))"

text \<open>\<open>handleRead\<close>; \<open>now\<close> is read at its start and \<open>now'\<close> when the kernel timer is set again.\<close>

definition handleRead ::
  "(nat \<Rightarrow> timer_cmd list) \<Rightarrow> int \<Rightarrow> int \<Rightarrow> timer_queue \<Rightarrow> timer_queue option" where
  "handleRead script now now' q =
     (case getExpired now (q\<lparr>fd_ready := False\<rparr>) of (expired, q1) \<Rightarrow>
       (case run_expired script expired (q1\<lparr>callingExpiredTimers := True\<rparr>) of
          None \<Rightarrow> None
        | Some q2 \<Rightarrow>
            (case requeue now expired q2 of
               None \<Rightarrow> None
             | Some q3 \<Rightarrow>
                 let q4 = q3\<lparr>cancelingTimers := {}\<rparr> in
                 if timers q4 \<noteq> []
                 then map_option (\<lambda>tm. resetTimerfd (expiration tm) now' q4)
                        (timer_heap q4 (snd (hd (timers q4))))
                 else Some q4)))"

text \<open>Histories: calls from outside the callbacks, the kernel timer firing, and \<open>handleRead\<close>.\<close>

datatype timer_event = Command timer_cmd | Fire int | Handle_Read int int

fun exec_timer :: "(nat \<Rightarrow> timer_cmd list) \<Rightarrow> timer_event \<Rightarrow> timer_queue \<Rightarrow> timer_queue option" where
  "exec_timer script (Command c) q = run_cmd c q"
| "exec_timer script (Fire now) q =
     Some (case armed q of
             None \<Rightarrow> q
           | Some a \<Rightarrow> if a \<le> now then q\<lparr>armed := None, fd_ready := True\<rparr> else q)"
| "exec_timer script (Handle_Read now now') q = handleRead script now now' q"

fun exec_timers :: "(nat \<Rightarrow> timer_cmd list) \<Rightarrow> timer_event list \<Rightarrow> timer_queue \<Rightarrow> timer_queue option" where
  "exec_timers script [] q = Some q"
| "exec_timers script (e # es) q =
     (case exec_timer script e q of None \<Rightarrow> None | Some q1 \<Rightarrow> exec_timers script es q1)"

section \<open>Invariant\<close>

definition waiting :: "timer_queue \<Rightarrow> nat set" where
  "waiting q = snd ` set (timers q)"

text \<open>
  \<open>tq_wf E q\<close>: the queue is sorted, an entry carries the expiration of its live and active
  timer, and every live timer either waits or is in flight, in the set \<open>E\<close> of the timers that
  \<open>handleRead\<close> is working on.
\<close>

definition wf_parts ::
  "nat set \<Rightarrow> entry list \<Rightarrow> (nat \<Rightarrow> timer option) \<Rightarrow> nat set \<Rightarrow> nat \<Rightarrow> bool" where
  "wf_parts E ts h act n \<longleftrightarrow> sorted_wrt (<) ts
     \<and> (\<forall>t p. (t, p) \<in> set ts \<longrightarrow>
          (\<exists>tm. h p = Some tm \<and> expiration tm = t) \<and> p \<in> act \<and> p \<notin> E)
     \<and> (\<forall>p. h p \<noteq> None \<longrightarrow> p \<in> act \<and> p \<in> snd ` set ts \<union> E)
     \<and> (\<forall>p \<in> act \<union> E. p < n)"

definition tq_wf :: "nat set \<Rightarrow> timer_queue \<Rightarrow> bool" where
  "tq_wf E q \<longleftrightarrow> wf_parts E (timers q) (timer_heap q) (activeTimers q) (next_ptr q)"

lemma tq_wfD:
  assumes "tq_wf E q"
  shows "sorted_wrt (<) (timers q)"
    and "(t, p) \<in> set (timers q) \<Longrightarrow> \<exists>tm. timer_heap q p = Some tm \<and> expiration tm = t"
    and "(t, p) \<in> set (timers q) \<Longrightarrow> p \<in> activeTimers q \<and> p \<notin> E"
    and "timer_heap q p = Some tm \<Longrightarrow> p \<in> activeTimers q \<and> p \<in> waiting q \<union> E"
    and "p \<in> activeTimers q \<union> E \<Longrightarrow> p < next_ptr q"
  using assms by (auto simp: tq_wf_def wf_parts_def waiting_def)

lemma tq_wfI:
  assumes "sorted_wrt (<) (timers q)"
    and "\<And>t p. (t, p) \<in> set (timers q) \<Longrightarrow> \<exists>tm. timer_heap q p = Some tm \<and> expiration tm = t"
    and "\<And>t p. (t, p) \<in> set (timers q) \<Longrightarrow> p \<in> activeTimers q \<and> p \<notin> E"
    and "\<And>p tm. timer_heap q p = Some tm \<Longrightarrow> p \<in> activeTimers q \<and> p \<in> waiting q \<union> E"
    and "\<And>p. p \<in> activeTimers q \<union> E \<Longrightarrow> p < next_ptr q"
  shows "tq_wf E q"
  using assms unfolding tq_wf_def wf_parts_def waiting_def by blast

lemma tq_wf_live: "tq_wf E q \<Longrightarrow> p \<in> waiting q \<Longrightarrow> timer_heap q p \<noteq> None"
proof -
  assume wf: "tq_wf E q" and "p \<in> waiting q"
  then obtain t where "(t, p) \<in> set (timers q)" by (auto simp: waiting_def)
  from tq_wfD(2) [OF wf this] show ?thesis by auto
qed

lemma entry_insert_Nil [simp]: "entry_insert e [] = [e]"
  by (simp add: entry_insert_def)

lemma entry_insert_sorted: "sorted_wrt (<) es \<Longrightarrow> sorted_wrt (<) (entry_insert e es)"
  by (auto simp: entry_insert_def strict_sorted_iff sorted_insort distinct_insort)

lemma set_entry_insert [simp]: "set (entry_insert e es) = insert e (set es)"
  by (auto simp: entry_insert_def set_insort_key)

lemma insort_not_empty [simp]: "insort x xs \<noteq> []"
  by (cases xs) auto

lemma entry_insert_not_empty [simp]: "entry_insert e es \<noteq> []"
  by (auto simp: entry_insert_def)

lemma hd_entry_insert:
  "sorted_wrt (<) es \<Longrightarrow> es \<noteq> [] \<Longrightarrow>
     fst (hd (entry_insert (w, p) es)) = min w (fst (hd es))"
  by (cases es) (auto simp: entry_insert_def less_prod_def less_eq_prod_def min_def)

text \<open>Inserting a timer that does not wait makes it a waiting one.\<close>

lemma tq_wf_insert:
  assumes wf: "tq_wf E q" and p: "p \<notin> waiting q" "p < next_ptr q'" "next_ptr q \<le> next_ptr q'"
    and q': "timers q' = entry_insert (expiration tm, p) (timers q)"
      "timer_heap q' = (timer_heap q)(p \<mapsto> tm)" "activeTimers q' = insert p (activeTimers q)"
  shows "tq_wf (E - {p}) q' \<and> waiting q' = insert p (waiting q)"
proof -
  have w: "waiting q' = insert p (waiting q)" by (simp add: waiting_def q')
  have cases: "t = expiration tm \<and> r = p \<or> (t, r) \<in> set (timers q) \<and> r \<noteq> p"
    if "(t, r) \<in> set (timers q')" for t r
    using that p(1) by (force simp: q' waiting_def)
  have "tq_wf (E - {p}) q'"
  proof (rule tq_wfI)
    show "sorted_wrt (<) (timers q')" using tq_wfD(1) [OF wf] by (simp add: q'(1) entry_insert_sorted)
    show "\<exists>tm. timer_heap q' r = Some tm \<and> expiration tm = t" if "(t, r) \<in> set (timers q')" for t r
      using cases [OF that] tq_wfD(2) [OF wf, of t r] by (auto simp: q')
    show "r \<in> activeTimers q' \<and> r \<notin> E - {p}" if "(t, r) \<in> set (timers q')" for t r
      using cases [OF that] tq_wfD(3) [OF wf, of t r] by (auto simp: q')
    show "r \<in> activeTimers q' \<and> r \<in> waiting q' \<union> (E - {p})" if "timer_heap q' r = Some tm'" for r tm'
      using that tq_wfD(4) [OF wf, of r tm'] by (auto simp: q' w split: if_splits)
    show "r < next_ptr q'" if "r \<in> activeTimers q' \<union> (E - {p})" for r
      using that tq_wfD(5) [OF wf, of r] p(2,3) by (auto simp: q')
  qed
  with w show ?thesis by simp
qed

lemma reset_wf [simp]: "tq_wf E (resetTimerfd e now q) = tq_wf E q"
  by (simp add: tq_wf_def resetTimerfd_def Let_def)

lemma reset_fields [simp]:
  "timers (resetTimerfd e now q) = timers q" "timer_heap (resetTimerfd e now q) = timer_heap q"
  "waiting (resetTimerfd e now q) = waiting q" "activeTimers (resetTimerfd e now q) = activeTimers q"
  "cancelingTimers (resetTimerfd e now q) = cancelingTimers q"
  "callingExpiredTimers (resetTimerfd e now q) = callingExpiredTimers q"
  "next_ptr (resetTimerfd e now q) = next_ptr q" "ran (resetTimerfd e now q) = ran q"
  "armed (resetTimerfd e now q) = Some (max e (now + 100))" "fd_ready (resetTimerfd e now q) = False"
  "last_arm (resetTimerfd e now q) = now"
  by (simp_all add: resetTimerfd_def waiting_def Let_def)

text \<open>The kernel timer is never set later than the first waiting timer needs.\<close>

definition on_time :: "timer_queue \<Rightarrow> bool" where
  "on_time q \<longleftrightarrow> timers q = [] \<or> fd_ready q
     \<or> (\<exists>a. armed q = Some a \<and> a \<le> max (fst (hd (timers q))) (last_arm q + 100))"

text \<open>Adding a timer.\<close>

definition added :: "int \<Rightarrow> nat \<Rightarrow> int \<Rightarrow> rat \<Rightarrow> timer_queue \<Rightarrow> timer_queue" where
  "added now cb w iv q =
     (let p = next_ptr q;
          q1 = q\<lparr>timer_heap := (timer_heap q)(p \<mapsto> timer_new cb w iv (int p)), next_ptr := p + 1,
                 timers := entry_insert (w, p) (timers q), activeTimers := insert p (activeTimers q)\<rparr>
      in if timers q = [] \<or> w < fst (hd (timers q)) then resetTimerfd w now q1 else q1)"

lemma addTimer_eq:
  "addTimer now cb w iv q = Some ((next_ptr q, int (next_ptr q) + 1), added now cb w iv q)"
  by (simp add: addTimer_def addTimerInLoop_def insert_timer_def added_def timer_new_def Let_def)

lemma next_not_waiting: "tq_wf E q \<Longrightarrow> next_ptr q \<notin> waiting q \<and> next_ptr q \<notin> E"
  using tq_wfD(3) [of E q] tq_wfD(5) [of E q "next_ptr q"] by (fastforce simp: waiting_def)

lemma added_wf:
  assumes "tq_wf E q"
  shows "tq_wf E (added now cb w iv q)"
proof -
  let ?q = "q\<lparr>timer_heap := (timer_heap q)(next_ptr q \<mapsto> timer_new cb w iv (int (next_ptr q))),
      next_ptr := next_ptr q + 1, timers := entry_insert (w, next_ptr q) (timers q),
      activeTimers := insert (next_ptr q) (activeTimers q)\<rparr>"
  have "tq_wf (E - {next_ptr q}) ?q \<and> waiting ?q = insert (next_ptr q) (waiting q)"
    by (rule tq_wf_insert [OF assms, where tm = "timer_new cb w iv (int (next_ptr q))"])
      (use next_not_waiting [OF assms] in \<open>simp_all add: timer_new_def\<close>)
  then show ?thesis using next_not_waiting [OF assms] by (simp add: added_def Let_def)
qed

lemma added_on_time:
  assumes "tq_wf E q" and "on_time q"
  shows "on_time (added now cb w iv q)"
proof (cases "timers q = [] \<or> w < fst (hd (timers q))")
  case True
  then have "fst (hd (entry_insert (w, next_ptr q) (timers q))) = w"
    using hd_entry_insert [OF tq_wfD(1) [OF assms(1)], of w "next_ptr q"]
    by (cases "timers q = []") simp_all
  with True show ?thesis by (simp add: on_time_def added_def Let_def)
next
  case False
  then have "fst (hd (entry_insert (w, next_ptr q) (timers q))) = fst (hd (timers q))"
    using hd_entry_insert [OF tq_wfD(1) [OF assms(1)], of w "next_ptr q"] by simp
  with False assms(2) show ?thesis by (auto simp: on_time_def added_def Let_def)
qed

text \<open>Cancelling.\<close>

lemma cancel_undefined:
  assumes "tq_wf {} q"
  shows "cancelInLoop now p q = None \<longleftrightarrow> p \<in> activeTimers q \<and> p \<notin> waiting q"
proof (cases "p \<in> waiting q")
  case True
  then have "timers q \<noteq> []" by (auto simp: waiting_def)
  moreover have "timer_heap q p \<noteq> None" using tq_wf_live [OF assms True] .
  ultimately show ?thesis using True by (auto simp: cancelInLoop_def Let_def)
next
  case False
  with tq_wfD(4) [OF assms, of p] have "timer_heap q p = None" by (cases "timer_heap q p") auto
  with False show ?thesis by (simp add: cancelInLoop_def)
qed

lemma waiting_delete:
  assumes "tq_wf E q" and "timer_heap q p = Some tm"
  shows "snd ` set (removeAll (expiration tm, p) (timers q)) = waiting q - {p}"
  using tq_wfD(2) [OF assms(1)] assms(2) by (force simp: waiting_def image_iff)

lemma cancel_wf:
  assumes wf: "tq_wf E q" and "cancelInLoop now p q = Some q'"
  shows "tq_wf E q' \<and> (\<forall>r. r \<noteq> p \<longrightarrow> timer_heap q' r = timer_heap q r)
    \<and> (p \<in> E \<longrightarrow> p \<in> activeTimers q \<longrightarrow> timer_heap q' p = None)"
proof (cases "p \<in> activeTimers q")
  case False
  then have "timer_heap q' = timer_heap q \<and> tq_wf E q' = tq_wf E q"
    using assms(2) by (auto simp: cancelInLoop_def tq_wf_def split: if_splits)
  with wf False show ?thesis by simp
next
  case True
  then obtain tm where h: "timer_heap q p = Some tm"
    using assms(2) by (auto simp: cancelInLoop_def split: option.splits)
  let ?q = "q\<lparr>timers := removeAll (expiration tm, p) (timers q),
      activeTimers := activeTimers q - {p}, timer_heap := (timer_heap q)(p := None)\<rparr>"
  have t: "(t, r) \<in> set (timers q) \<and> r \<noteq> p" if "(t, r) \<in> set (timers ?q)" for t r
    using tq_wfD(2) [OF wf, of t r] h that by auto
  have w: "waiting ?q = waiting q - {p}" using waiting_delete [OF wf h] by (simp add: waiting_def)
  have "tq_wf E ?q"
  proof (rule tq_wfI)
    show "sorted_wrt (<) (timers ?q)"
      using tq_wfD(1) [OF wf] by (simp add: sorted_wrt_filter removeAll_filter_not_eq)
    show "\<exists>tm. timer_heap ?q r = Some tm \<and> expiration tm = t" if "(t, r) \<in> set (timers ?q)" for t r
      using t [OF that] tq_wfD(2) [OF wf, of t r] by simp
    show "r \<in> activeTimers ?q \<and> r \<notin> E" if "(t, r) \<in> set (timers ?q)" for t r
      using t [OF that] tq_wfD(3) [OF wf, of t r] by simp
    show "r \<in> activeTimers ?q \<and> r \<in> waiting ?q \<union> E" if "timer_heap ?q r = Some tm'" for r tm'
      using that tq_wfD(4) [OF wf, of r tm'] unfolding w by (auto split: if_splits)
    show "r < next_ptr ?q" if "r \<in> activeTimers ?q \<union> E" for r
      using that tq_wfD(5) [OF wf, of r] by auto
  qed
  moreover have "timers q' = timers ?q \<and> timer_heap q' = timer_heap ?q
      \<and> activeTimers q' = activeTimers ?q \<and> next_ptr q' = next_ptr ?q"
    using assms(2) True h by (auto simp: cancelInLoop_def Let_def split: if_splits)
  ultimately show ?thesis by (simp add: tq_wf_def)
qed

lemma cancel_on_time:
  assumes "tq_wf E q" and "on_time q" and "cancelInLoop now p q = Some q'"
  shows "on_time q'"
proof (cases "timers q' = [] \<or> p \<notin> activeTimers q")
  case True
  then show ?thesis using assms(2,3)
    by (auto simp: on_time_def cancelInLoop_def split: if_splits)
next
  case False
  then obtain tm where h: "timer_heap q p = Some tm"
    using assms(3) by (auto simp: cancelInLoop_def split: option.splits)
  let ?e = "(expiration tm, p)"
  obtain x xs where ts: "timers q = x # xs"
    using assms(3) False h by (cases "timers q") (auto simp: cancelInLoop_def)
  have x: "\<forall>y \<in> set xs. x < y" using tq_wfD(1) [OF assms(1)] ts by simp
  have t': "timers q' = removeAll ?e (timers q)"
    using assms(3) False h by (auto simp: cancelInLoop_def Let_def split: if_splits)
  show ?thesis
  proof (cases "x = ?e")
    case True
    have "timers q' = xs" using t' ts True x by (auto simp: removeAll_id)
    with False x True have "expiration tm \<le> fst (hd (timers q'))"
      by (cases xs) (auto simp: less_prod_def)
    then have "max (expiration tm) (now + 100) \<le> max (fst (hd (timers q'))) (now + 100)"
      by (intro max.mono) simp_all
    moreover have "armed q' = Some (max (expiration tm) (now + 100))" "last_arm q' = now"
      using assms(3) False h ts True by (auto simp: cancelInLoop_def Let_def)
    ultimately show ?thesis unfolding on_time_def by blast
  next
    case neq: False
    then have "fst (hd (timers q')) = fst (hd (timers q))" by (simp add: t' ts)
    moreover have "armed q' = armed q" "fd_ready q' = fd_ready q" "last_arm q' = last_arm q"
      using assms(3) False h ts neq by (auto simp: cancelInLoop_def Let_def)
    ultimately show ?thesis using assms(2) ts by (simp add: on_time_def)
  qed
qed

lemma run_cmd_wf:
  assumes "tq_wf E q" and "run_cmd c q = Some q'"
  shows "tq_wf E q' \<and> (\<forall>r \<in> E. timer_heap q' r \<noteq> None \<longrightarrow> timer_heap q' r = timer_heap q r)"
proof (cases c)
  case (Add now cb w iv)
  then have q': "q' = added now cb w iv q" using assms(2) by (simp add: addTimer_eq)
  have "timer_heap q' r = timer_heap q r" if "r \<in> E" for r
    using next_not_waiting [OF assms(1)] that by (auto simp: q' added_def Let_def)
  with added_wf [OF assms(1)] q' show ?thesis by simp
next
  case (Cancel now p)
  with assms(2) have c: "cancelInLoop now p q = Some q'" by simp
  have "timer_heap q' p \<noteq> None \<Longrightarrow> p \<in> E \<Longrightarrow> timer_heap q' p = timer_heap q p"
    using cancel_wf [OF assms(1) c] c by (cases "p \<in> activeTimers q") (auto simp: cancelInLoop_def split: if_splits)
  with cancel_wf [OF assms(1) c] show ?thesis by metis
qed

lemma run_cmds_wf:
  "tq_wf E q \<Longrightarrow> run_cmds cs q = Some q' \<Longrightarrow>
     tq_wf E q' \<and> (\<forall>r \<in> E. timer_heap q' r \<noteq> None \<longrightarrow> timer_heap q' r = timer_heap q r)"
proof (induction cs arbitrary: q)
  case (Cons c cs)
  then obtain q1 where q1: "run_cmd c q = Some q1" "run_cmds cs q1 = Some q'"
    by (auto split: option.splits)
  note a = run_cmd_wf [OF Cons.prems(1) q1(1)]
  then have b: "tq_wf E q' \<and> (\<forall>r \<in> E. timer_heap q' r \<noteq> None \<longrightarrow> timer_heap q' r = timer_heap q1 r)"
    using Cons.IH q1(2) by blast
  with a show ?case by metis
qed simp

lemma run_expired_wf:
  "tq_wf E q \<Longrightarrow> run_expired script es q = Some q' \<Longrightarrow>
     tq_wf E q' \<and> (\<forall>r \<in> E. timer_heap q' r \<noteq> None \<longrightarrow> timer_heap q' r = timer_heap q r)"
proof (induction script es q rule: run_expired.induct)
  case (2 script t p es q)
  then obtain tm q1 where q1: "timer_heap q p = Some tm"
    "run_cmds (script (callback tm)) (q\<lparr>ran := ran q @ [p]\<rparr>) = Some q1"
    "run_expired script es q1 = Some q'"
    by (auto split: option.splits)
  have "tq_wf E (q\<lparr>ran := ran q @ [p]\<rparr>)" using 2(2) by (simp add: tq_wf_def)
  from run_cmds_wf [OF this q1(2)]
  have a: "tq_wf E q1" "\<forall>r \<in> E. timer_heap q1 r \<noteq> None \<longrightarrow> timer_heap q1 r = timer_heap q r" by simp_all
  from 2(1) [OF q1(1,2) a(1) q1(3)] a(2) show ?case by metis
qed simp

text \<open>The timers still to be requeued are the ones in flight.\<close>

lemma requeue_wf:
  "tq_wf (snd ` set es) q \<Longrightarrow> distinct (map snd es) \<Longrightarrow> requeue now es q = Some q' \<Longrightarrow>
     tq_wf {} q' \<and> activeTimers q \<subseteq> activeTimers q'
     \<and> (\<forall>r. r \<notin> snd ` set es \<longrightarrow> timer_heap q' r = timer_heap q r)
     \<and> (\<forall>r \<in> snd ` set es. \<forall>tm. timer_heap q r = Some tm \<longrightarrow> \<not> repeats tm \<longrightarrow> timer_heap q' r = None)"
proof (induction now es q rule: requeue.induct)
  case (2 now t p es q)
  let ?E = "snd ` set ((t, p) # es)"
  from 2(5) obtain tm where tm: "timer_heap q p = Some tm" by (auto split: option.splits)
  have E: "?E - {p} = snd ` set es" using 2(4) by auto
  have np: "p \<notin> waiting q" using tq_wfD(3) [OF 2(3)] by (fastforce simp: waiting_def)
  show ?case
  proof (cases "repeats tm \<and> p \<notin> cancelingTimers q")
    case True
    let ?q = "q\<lparr>timer_heap := (timer_heap q)(p \<mapsto> restart now tm),
        timers := entry_insert (expiration (restart now tm), p) (timers q),
        activeTimers := insert p (activeTimers q)\<rparr>"
    have "tq_wf (?E - {p}) ?q \<and> waiting ?q = insert p (waiting q)"
      by (rule tq_wf_insert [OF 2(3), where tm = "restart now tm"])
        (use np tq_wfD(5) [OF 2(3), of p] in simp_all)
    then have wf: "tq_wf (snd ` set es) ?q" using E by simp
    have ins: "\<exists>b. insert_timer p (q\<lparr>timer_heap := (timer_heap q)(p \<mapsto> restart now tm)\<rparr>) = Some (b, ?q)"
      by (simp add: insert_timer_def Let_def)
    then obtain b where ins: "insert_timer p (q\<lparr>timer_heap := (timer_heap q)(p \<mapsto> restart now tm)\<rparr>) = Some (b, ?q)" ..
    have r: "requeue now es ?q = Some q'" using 2(5) tm True ins by simp
    have ih: "tq_wf {} q' \<and> insert p (activeTimers q) \<subseteq> activeTimers q'
        \<and> (\<forall>r. r \<notin> snd ` set es \<longrightarrow> timer_heap q' r = ((timer_heap q)(p \<mapsto> restart now tm)) r)
        \<and> (\<forall>r \<in> snd ` set es. \<forall>tm'. ((timer_heap q)(p \<mapsto> restart now tm)) r = Some tm' \<longrightarrow>
              \<not> repeats tm' \<longrightarrow> timer_heap q' r = None)"
      using 2(1) [OF tm True ins refl wf _ r] 2(4) by simp
    have "timer_heap q' r = None" if "r \<in> ?E" "timer_heap q r = Some tm'" "\<not> repeats tm'" for r tm'
    proof -
      have "r \<noteq> p" using that True tm by auto
      with that ih show ?thesis by auto
    qed
    with ih show ?thesis by auto
  next
    case False
    let ?q = "q\<lparr>timer_heap := (timer_heap q)(p := None)\<rparr>"
    have wf: "tq_wf (snd ` set es) ?q"
    proof (rule tq_wfI)
      show "\<exists>tm. timer_heap ?q r = Some tm \<and> expiration tm = t" if "(t, r) \<in> set (timers ?q)" for t r
        using that np tq_wfD(2) [OF 2(3), of t r] by (force simp: waiting_def)
      show "r \<in> activeTimers ?q \<and> r \<in> waiting ?q \<union> snd ` set es" if "timer_heap ?q r = Some tm'" for r tm'
        using that tq_wfD(4) [OF 2(3), of r tm'] by (auto simp: waiting_def split: if_splits)
    qed (use tq_wfD [OF 2(3)] in auto)
    have r: "requeue now es ?q = Some q'" using 2(5) tm False by auto
    have ih: "tq_wf {} q' \<and> activeTimers q \<subseteq> activeTimers q'
        \<and> (\<forall>r. r \<notin> snd ` set es \<longrightarrow> timer_heap q' r = ((timer_heap q)(p := None)) r)
        \<and> (\<forall>r \<in> snd ` set es. \<forall>tm'. ((timer_heap q)(p := None)) r = Some tm' \<longrightarrow>
              \<not> repeats tm' \<longrightarrow> timer_heap q' r = None)"
      using 2(2) [OF tm False wf _ r] 2(4) by simp
    have "timer_heap q' r = None" if "r \<in> ?E" "timer_heap q r = Some tm'" "\<not> repeats tm'" for r tm'
      using that ih 2(4) by (cases "r = p") auto
    with ih show ?thesis by auto
  qed
qed simp

lemma timers_distinct:
  assumes "tq_wf E q"
  shows "distinct (map snd (timers q))"
proof -
  have "inj_on snd (set (timers q))"
  proof (rule inj_onI)
    fix x y assume a: "x \<in> set (timers q)" "y \<in> set (timers q)" "snd x = snd y"
    obtain t t' r where e: "x = (t, r)" "y = (t', r)" using a(3) by (cases x; cases y) simp
    with a(1,2) tq_wfD(2) [OF assms, of t r] tq_wfD(2) [OF assms, of t' r] show "x = y" by auto
  qed
  moreover have "distinct (timers q)" using tq_wfD(1) [OF assms] by (simp add: strict_sorted_iff)
  ultimately show ?thesis by (simp add: distinct_map)
qed

lemma takeWhile_due:
  "sorted_wrt (<) (ts :: entry list) \<Longrightarrow> takeWhile (\<lambda>e. fst e \<le> now) ts = filter (\<lambda>e. fst e \<le> now) ts"
proof (induction ts)
  case (Cons x xs)
  show ?case
  proof (cases "fst x \<le> now")
    case False
    with Cons.prems have "\<forall>y \<in> set xs. \<not> fst y \<le> now" by (auto simp: less_prod_def)
    with False show ?thesis by simp
  qed (use Cons in simp)
qed simp

lemma getExpired_wf:
  assumes "tq_wf {} q" and "getExpired now (q\<lparr>fd_ready := False\<rparr>) = (expired, q1)"
  shows "tq_wf (snd ` set expired) q1 \<and> expired = filter (\<lambda>e. fst e \<le> now) (timers q)
    \<and> distinct (map snd expired) \<and> timer_heap q1 = timer_heap q \<and> ran q1 = ran q"
proof -
  let ?due = "\<lambda>e :: entry. fst e \<le> now"
  have e: "expired = takeWhile ?due (timers q)" "timers q1 = dropWhile ?due (timers q)"
    "timer_heap q1 = timer_heap q" "next_ptr q1 = next_ptr q" "ran q1 = ran q"
    "activeTimers q1 = activeTimers q \<union> snd ` set expired"
  proof -
    have x: "expired = takeWhile ?due (timers q)"
      "q1 = q\<lparr>fd_ready := False, timers := dropWhile ?due (timers q),
        activeTimers := activeTimers q \<union> snd ` set (takeWhile ?due (timers q))\<rparr>"
      using assms(2) unfolding getExpired_def Let_def by auto
    show "expired = takeWhile ?due (timers q)" "timers q1 = dropWhile ?due (timers q)"
      "timer_heap q1 = timer_heap q" "next_ptr q1 = next_ptr q" "ran q1 = ran q"
      "activeTimers q1 = activeTimers q \<union> snd ` set expired"
      unfolding x by simp_all
  qed
  then have split: "timers q = expired @ timers q1" by simp
  note d = timers_distinct [OF assms(1), unfolded split map_append distinct_append]
  have due: "(t, p) \<in> set (timers q)" if "(t, p) \<in> set expired \<union> set (timers q1)" for t p
    using that split by auto
  have act: "activeTimers q1 = activeTimers q"
  proof -
    have "snd ` set expired \<subseteq> activeTimers q" using due tq_wfD(3) [OF assms(1)] by fastforce
    with e(6) show ?thesis by auto
  qed
  have "tq_wf (snd ` set expired) q1"
  proof (rule tq_wfI)
    show "sorted_wrt (<) (timers q1)" using tq_wfD(1) [OF assms(1)] split by (simp add: sorted_wrt_append)
    show "\<exists>tm. timer_heap q1 p = Some tm \<and> expiration tm = t" if "(t, p) \<in> set (timers q1)" for t p
      using that due tq_wfD(2) [OF assms(1), of t p] e(3) by simp
    show "p \<in> activeTimers q1 \<and> p \<notin> snd ` set expired" if "(t, p) \<in> set (timers q1)" for t p
      using that due tq_wfD(3) [OF assms(1), of t p] act d by force
    show "p \<in> activeTimers q1 \<and> p \<in> waiting q1 \<union> snd ` set expired" if "timer_heap q1 p = Some tm" for p tm
      using that tq_wfD(4) [OF assms(1), of p tm] e(3) act split by (auto simp: waiting_def)
    show "p < next_ptr q1" if "p \<in> activeTimers q1 \<union> snd ` set expired" for p
      using that act e(4,6) tq_wfD(5) [OF assms(1), of p] by auto
  qed
  with d e takeWhile_due [OF tq_wfD(1) [OF assms(1)]] show ?thesis by simp
qed

lemma run_cmd_ran: "run_cmd c q = Some q' \<Longrightarrow> ran q' = ran q"
proof (cases c)
  case (Add now cb w iv)
  then show "run_cmd c q = Some q' \<Longrightarrow> ran q' = ran q" by (auto simp: addTimer_eq added_def Let_def)
next
  case (Cancel now p)
  then show "run_cmd c q = Some q' \<Longrightarrow> ran q' = ran q"
    by (auto simp: cancelInLoop_def Let_def split: if_splits option.splits)
qed

lemma run_cmds_ran: "run_cmds cs q = Some q' \<Longrightarrow> ran q' = ran q"
  by (induction cs arbitrary: q) (auto dest: run_cmd_ran split: option.splits)

lemma run_expired_ran: "run_expired script es q = Some q' \<Longrightarrow> ran q' = ran q @ map snd es"
  by (induction script es q rule: run_expired.induct)
    (auto dest!: run_cmds_ran split: option.splits)

lemma requeue_ran: "requeue now es q = Some q' \<Longrightarrow> ran q' = ran q"
  by (induction now es q rule: requeue.induct)
    (auto simp: insert_timer_def Let_def split: option.splits if_splits)

lemma handleRead_wf:
  assumes "tq_wf {} q" and "handleRead script now now' q = Some q'"
  shows "tq_wf {} q' \<and> on_time q' \<and> ran q' = ran q @ map snd (filter (\<lambda>e. fst e \<le> now) (timers q))
    \<and> (\<forall>t p tm. (t, p) \<in> set (timers q) \<longrightarrow> t \<le> now \<longrightarrow> timer_heap q p = Some tm \<longrightarrow> \<not> repeats tm \<longrightarrow>
         p \<in> activeTimers q' \<and> timer_heap q' p = None)"
proof -
  obtain expired q1 where q1: "getExpired now (q\<lparr>fd_ready := False\<rparr>) = (expired, q1)" by fastforce
  note g = getExpired_wf [OF assms(1) q1]
  obtain q2 where q2: "run_expired script expired (q1\<lparr>callingExpiredTimers := True\<rparr>) = Some q2"
    using assms(2) q1 by (auto simp: handleRead_def split: option.splits)
  obtain q3 where q3: "requeue now expired q2 = Some q3"
    using assms(2) q1 q2 by (auto simp: handleRead_def split: option.splits)
  have "tq_wf (snd ` set expired) (q1\<lparr>callingExpiredTimers := True\<rparr>)"
    using conjunct1 [OF g] by (simp add: tq_wf_def)
  note a = run_expired_wf [OF this q2]
  have dist: "distinct (map snd expired)" using g by blast
  note b = requeue_wf [OF conjunct1 [OF a] dist q3]
  let ?q4 = "q3\<lparr>cancelingTimers := {}\<rparr>"
  have wf: "tq_wf {} ?q4" using conjunct1 [OF b] by (simp add: tq_wf_def)
  have ran: "ran ?q4 = ran q @ map snd expired"
    using run_expired_ran [OF q2] requeue_ran [OF q3] g by simp
  have act: "p \<in> activeTimers q3 \<and> timer_heap q3 p = None"
    if p: "(t, p) \<in> set (timers q)" "t \<le> now" and tm: "timer_heap q p = Some tm" "\<not> repeats tm" for t p tm
  proof -
    have pe: "p \<in> snd ` set expired" using p g by force
    then obtain tm2 where tm2: "timer_heap q2 p = Some tm2"
      using q3
    proof (induction now expired q2 rule: requeue.induct)
      case (2 now t r es q)
      show ?case
      proof (cases "p = r")
        case True
        with 2(5) 2(3) show ?thesis by (auto split: option.splits)
      next
        case False
        with 2(4) have "p \<in> snd ` set es" by simp
        then show ?thesis using 2(1,2) 2(3,5) False
          by (force simp: insert_timer_def Let_def split: option.splits if_splits)
      qed
    qed simp
    with a g pe tm have "tm2 = tm" by auto
    with tm2 have "p \<in> activeTimers q2" using tq_wfD(4) [OF conjunct1 [OF a]] by blast
    with b g pe tm tm2 \<open>tm2 = tm\<close> show ?thesis by auto
  qed
  show ?thesis
  proof (cases "timers q3 = []")
    case True
    then have "q' = ?q4" using assms(2) q1 q2 q3 by (simp add: handleRead_def Let_def)
    with wf ran True act g show ?thesis by (auto simp: on_time_def)
  next
    case False
    then obtain t p where h: "hd (timers q3) = (t, p)" "(t, p) \<in> set (timers ?q4)"
      by (cases "timers q3") auto
    from tq_wfD(2) [OF wf h(2)] obtain tm where tm: "timer_heap q3 p = Some tm" "expiration tm = t" by auto
    have "q' = resetTimerfd t now' ?q4"
      using assms(2) q1 q2 q3 False h tm by (simp add: handleRead_def Let_def)
    with wf ran act g h show ?thesis by (auto simp: on_time_def)
  qed
qed

lemma exec_timer_inv:
  assumes "tq_wf {} q \<and> on_time q" and "exec_timer script e q = Some q'"
  shows "tq_wf {} q' \<and> on_time q'"
proof (cases e)
  case (Command c)
  with assms have c: "run_cmd c q = Some q'" by simp
  have "on_time q'"
  proof (cases c)
    case (Add now cb w iv)
    with c added_on_time assms(1) show ?thesis by (auto simp: addTimer_eq)
  next
    case (Cancel now p)
    with c cancel_on_time assms(1) show ?thesis by auto
  qed
  with run_cmd_wf [OF _ c] assms(1) show ?thesis by blast
next
  case (Fire now)
  with assms show ?thesis
    by (auto simp: tq_wf_def on_time_def split: option.splits if_splits)
next
  case (Handle_Read now now')
  with assms handleRead_wf [of q script now now' q'] show ?thesis by simp
qed

lemma timer_queue_new_inv: "tq_wf {} timer_queue_new \<and> on_time timer_queue_new"
  by (simp add: tq_wf_def wf_parts_def timer_queue_new_def on_time_def)

lemma exec_timers_inv:
  "tq_wf {} q \<and> on_time q \<Longrightarrow> exec_timers script es q = Some q' \<Longrightarrow> tq_wf {} q' \<and> on_time q'"
proof (induction es arbitrary: q)
  case (Cons e es)
  then obtain q1 where q1: "exec_timer script e q = Some q1" "exec_timers script es q1 = Some q'"
    by (auto split: option.splits)
  from Cons.IH [OF exec_timer_inv [OF Cons.prems(1) q1(1)] q1(2)] show ?case .
qed simp

lemmas reachable_timers = exec_timers_inv [OF timer_queue_new_inv]

section \<open>Properties\<close>

text \<open>
  C19. Timers are on time: after every history of calls and expirations that is free of undefined
  behaviour, the waiting timers are sorted by expiration and live; when there is one, the
  kernel timer has fired or will fire no later than the first expiration (or 100
  microseconds after it was set, if that is later); and \<open>handleRead\<close> runs exactly the timers
  that are due, each once, in the order of their expirations.
\<close>

theorem timers_on_time:
  assumes "exec_timers script es timer_queue_new = Some q"
  shows "sorted_wrt (<) (timers q)
    \<and> (\<forall>(t, p) \<in> set (timers q). \<exists>tm. timer_heap q p = Some tm \<and> expiration tm = t)
    \<and> (timers q = [] \<or> fd_ready q
       \<or> (\<exists>a. armed q = Some a \<and> a \<le> max (fst (hd (timers q))) (last_arm q + 100)))
    \<and> (\<forall>now now' q'. handleRead script now now' q = Some q' \<longrightarrow>
         ran q' = ran q @ map snd (filter (\<lambda>e. fst e \<le> now) (timers q)))"
proof -
  have inv: "tq_wf {} q" "on_time q" using reachable_timers [OF assms] by simp_all
  with tq_wfD(1,2) [OF inv(1)] handleRead_wf [OF inv(1), of script]
  show ?thesis by (auto simp: on_time_def)
qed

definition timer_history :: "timer_event list" where
  "timer_history = [Command (Add 0 7 500 0), Command (Add 0 8 200 1), Fire 300]"

theorem timers_on_time_witness:
  "\<exists>q. exec_timers (\<lambda>_. []) timer_history timer_queue_new = Some q
     \<and> (\<forall>q'. handleRead (\<lambda>_. []) 300 310 q = Some q' \<longrightarrow> ran q' = [1])"
proof -
  have "\<exists>q. exec_timers (\<lambda>_. []) timer_history timer_queue_new = Some q
      \<and> timers q = [(200, 1), (500, 0)] \<and> ran q = []"
    by (simp add: timer_history_def timer_queue_new_def addTimer_eq added_def timer_new_def Let_def
        entry_insert_def less_eq_prod_def less_prod_def resetTimerfd_def)
  then obtain q where q: "exec_timers (\<lambda>_. []) timer_history timer_queue_new = Some q"
    "timers q = [(200, 1), (500, 0)]" "ran q = []" by blast
  from timers_on_time [OF q(1)] q show ?thesis by auto
qed

text \<open>
  C39. Cancelling: on every reachable state, \<open>cancel\<close> of a waiting timer is well defined; but
  \<open>cancel\<close> of a one-shot timer that has run is undefined behaviour (a read of the deleted
  timer), because \<open>getExpired\<close> inserts the expired timers into \<open>activeTimers_\<close> where it has to
  erase them.
\<close>

theorem cancel_after_run_undefined:
  assumes "exec_timers script es timer_queue_new = Some q"
    and "handleRead script now now' q = Some q'"
    and "(t, p) \<in> set (timers q)" and "t \<le> now"
    and "timer_heap q p = Some tm" and "\<not> repeats tm"
  shows "cancelInLoop now'' p q' = None
    \<and> (\<forall>(t', p') \<in> set (timers q'). cancelInLoop now'' p' q' \<noteq> None)"
proof -
  have inv: "tq_wf {} q" using reachable_timers [OF assms(1)] by simp
  note h = handleRead_wf [OF inv assms(2)]
  then have p: "p \<in> activeTimers q'" "timer_heap q' p = None" using assms(3-6) by blast+
  have wf: "tq_wf {} q'" using h by blast
  have "p \<notin> waiting q'" using tq_wf_live [OF wf, of p] p(2) by auto
  then show ?thesis
    unfolding cancel_undefined [OF wf] using p(1) by (force simp: waiting_def)
qed

theorem cancel_after_run_undefined_witness:
  "\<exists>q q'. exec_timers (\<lambda>_. []) timer_history timer_queue_new = Some q
     \<and> handleRead (\<lambda>_. []) 600 610 q = Some q' \<and> cancelInLoop 700 0 q' = None"
proof -
  have "\<exists>q q'. exec_timers (\<lambda>_. []) timer_history timer_queue_new = Some q
      \<and> handleRead (\<lambda>_. []) 600 610 q = Some q'
      \<and> timers q = [(200, 1), (500, 0)] \<and> timer_heap q 0 = Some (timer_new 7 500 0 0)"
    by (simp add: timer_history_def timer_queue_new_def addTimer_eq added_def timer_new_def Let_def
        entry_insert_def less_eq_prod_def less_prod_def resetTimerfd_def handleRead_def getExpired_def
        restart_def addTime_def truncated_def insert_timer_def)
  then obtain q q' where q: "exec_timers (\<lambda>_. []) timer_history timer_queue_new = Some q"
    "handleRead (\<lambda>_. []) 600 610 q = Some q'"
    "(500, 0) \<in> set (timers q)" "timer_heap q 0 = Some (timer_new 7 500 0 0)" by auto
  have "\<not> repeats (timer_new 7 500 0 0)" by (simp add: timer_new_def)
  from cancel_after_run_undefined [OF q(1-3) _ q(4) this, of 700] q(1,2) show ?thesis by auto
qed

end
