(* ===== verification/Connector.thy ===== *)
theory Connector
  imports Prelude "HOL-Library.Multiset"
begin

text \<open>
  Outgoing connections: \<open>Connector\<close> of \<^verbatim>\<open>src/Connector.h\<close> and \<^verbatim>\<open>src/Connector.cc\<close>. A connector
  makes a non-blocking socket, connects it, waits for the result, hands the descriptor to
  \<open>newConnectionCallback_\<close> or retries after a delay that doubles up to 30 seconds.

  The descriptor that \<open>socket\<close> returns and the error numbers of \<open>connect\<close> and \<open>SO_ERROR\<close> are
  arguments. The effects are recorded: \<open>opened\<close>, \<open>closed\<close> and \<open>handed\<close> descriptors, \<open>delays\<close> of the
  timers set, \<open>retry_timers\<close> not yet fired, and \<open>con_tasks\<close> queued in the loop. A use of a null
  \<open>channel_\<close> is \<open>None\<close>.
\<close>

section \<open>State\<close>

datatype connector_state = cDisconnected | cConnected | cConnecting

datatype retry_timer = Retry_Timer | Restart_Timer

datatype con_task = Start_Task | Stop_Task | Error_Task int | Release_Task int

record connector =
  con_state :: connector_state
  connect_flag :: bool
  con_channel :: "int option"
  retryDelayMs :: nat
  retry_flag :: bool
  has_new_connection :: bool
  has_error :: bool
  opened :: "int list"
  closed :: "int list"
  handed :: "int list"
  errors :: "int list"
  delays :: "nat list"
  retry_timers :: "retry_timer list"
  con_tasks :: "con_task list"

definition kInitRetryDelayMs :: nat where
  "kInitRetryDelayMs = 500"

definition kMaxRetryDelayMs :: nat where
  "kMaxRetryDelayMs = 30 * 1000"

definition connector_new :: connector where
  "connector_new =
     \<lparr>con_state = cDisconnected, connect_flag = False, con_channel = None, retryDelayMs = 500,
      retry_flag = False, has_new_connection = False, has_error = False, opened = [], closed = [],
      handed = [], errors = [], delays = [], retry_timers = [], con_tasks = []\<rparr>"

definition enableRetry :: "connector \<Rightarrow> connector" where
  "enableRetry c = c\<lparr>retry_flag := True\<rparr>"

definition setNewConnectionCallback :: "connector \<Rightarrow> connector" where
  "setNewConnectionCallback c = c\<lparr>has_new_connection := True\<rparr>"

definition setErrorCallback :: "connector \<Rightarrow> connector" where
  "setErrorCallback c = c\<lparr>has_error := True\<rparr>"

section \<open>Operations\<close>

definition EINTR :: int where "EINTR = 4"
definition EAGAIN :: int where "EAGAIN = 11"
definition ENETUNREACH :: int where "ENETUNREACH = 101"
definition EISCONN :: int where "EISCONN = 106"
definition ECONNREFUSED :: int where "ECONNREFUSED = 111"
definition EINPROGRESS :: int where "EINPROGRESS = 115"

lemmas errno_defs = EINTR_def EAGAIN_def ENETUNREACH_def EISCONN_def ECONNREFUSED_def EINPROGRESS_def

text \<open>\<open>connecting\<close>: an old channel is destroyed and its descriptor closed.\<close>

definition connecting :: "int \<Rightarrow> connector \<Rightarrow> connector" where
  "connecting fd c =
     (let c1 = c\<lparr>con_state := cConnecting\<rparr>;
          c2 = (case con_channel c1 of
                  None \<Rightarrow> c1
                | Some oldfd \<Rightarrow> c1\<lparr>con_channel := None, closed := closed c1 @ [oldfd]\<rparr>)
      in c2\<lparr>con_channel := Some fd\<rparr>)"

definition retry :: "int \<Rightarrow> int \<Rightarrow> connector \<Rightarrow> connector" where
  "retry sockfd saveError c =
     (let c1 = c\<lparr>con_state := cDisconnected\<rparr>;
          c2 = (case con_channel c1 of
                  None \<Rightarrow> c1
                | Some fd \<Rightarrow> c1\<lparr>con_channel := None, con_tasks := con_tasks c1 @ [Release_Task fd]\<rparr>);
          c3 = c2\<lparr>closed := closed c2 @ [sockfd]\<rparr>
      in if connect_flag c3 \<and> retry_flag c3 then
           c3\<lparr>retry_timers := retry_timers c3 @ [Retry_Timer],
              delays := delays c3 @ [retryDelayMs c3],
              retryDelayMs := min (2 * retryDelayMs c3) kMaxRetryDelayMs\<rparr>
         else if \<not> retry_flag c3 \<and> has_error c3
         then c3\<lparr>con_tasks := con_tasks c3 @ [Error_Task saveError]\<rparr>
         else c3)"

definition connect :: "int \<Rightarrow> int \<Rightarrow> connector \<Rightarrow> connector" where
  "connect sockfd savedErrno c =
     (let c1 = c\<lparr>opened := opened c @ [sockfd]\<rparr>
      in if savedErrno \<in> {0, EINPROGRESS, EINTR, EISCONN} then connecting sockfd c1
         else if savedErrno \<in> {EAGAIN, ECONNREFUSED, ENETUNREACH} then retry sockfd savedErrno c1
         else c1\<lparr>closed := closed c1 @ [sockfd]\<rparr>)"

definition startInLoop :: "int \<Rightarrow> int \<Rightarrow> connector \<Rightarrow> connector" where
  "startInLoop sockfd savedErrno c = (if connect_flag c then connect sockfd savedErrno c else c)"

definition start :: "bool \<Rightarrow> int \<Rightarrow> int \<Rightarrow> connector \<Rightarrow> connector" where
  "start in_loop sockfd savedErrno c =
     (let c1 = c\<lparr>connect_flag := True\<rparr>
      in if in_loop then startInLoop sockfd savedErrno c1
         else c1\<lparr>con_tasks := con_tasks c1 @ [Start_Task]\<rparr>)"

definition restart :: "connector \<Rightarrow> connector" where
  "restart c =
     (let c1 = c\<lparr>con_state := cDisconnected, retryDelayMs := kInitRetryDelayMs, connect_flag := True\<rparr>
      in c1\<lparr>retry_timers := retry_timers c1 @ [Restart_Timer], delays := delays c1 @ [retryDelayMs c1]\<rparr>)"

definition stop :: "connector \<Rightarrow> connector" where
  "stop c = c\<lparr>connect_flag := False, con_tasks := con_tasks c @ [Stop_Task]\<rparr>"

text \<open>The channel goes; the descriptor is neither closed nor kept.\<close>

definition stopInLoop :: "connector \<Rightarrow> connector" where
  "stopInLoop c =
     (let c1 = c\<lparr>con_state := cDisconnected\<rparr>
      in case con_channel c1 of None \<Rightarrow> c1 | Some fd \<Rightarrow> c1\<lparr>con_channel := None\<rparr>)"

text \<open>\<open>err\<close> is the pending error of the socket (\<open>SO_ERROR\<close>).\<close>

definition handleWrite :: "int \<Rightarrow> connector \<Rightarrow> connector option" where
  "handleWrite err c =
     (if con_state c \<noteq> cConnecting then Some c
      else case con_channel c of
        None \<Rightarrow> None
      | Some fd \<Rightarrow>
          if err = 0 then
            (let c1 = c\<lparr>con_state := cConnected\<rparr> in
             if connect_flag c1 then
               (let c2 = c1\<lparr>con_channel := None, con_tasks := con_tasks c1 @ [Release_Task fd]\<rparr>
                in Some (if has_new_connection c2 then c2\<lparr>handed := handed c2 @ [fd]\<rparr> else c2))
             else Some (c1\<lparr>closed := closed c1 @ [fd]\<rparr>))
          else Some (retry fd err c))"

definition handleError :: "int \<Rightarrow> connector \<Rightarrow> connector option" where
  "handleError err c =
     (case con_channel c of None \<Rightarrow> None | Some fd \<Rightarrow> Some (retry fd err c))"

text \<open>\<open>~Connector\<close> removes the channel from the poller; it does not close the descriptor either.\<close>

definition connector_destroy :: "connector \<Rightarrow> connector" where
  "connector_destroy c = c\<lparr>con_channel := None\<rparr>"

section \<open>Histories\<close>

text \<open>
  The events of a connector: calls from outside, the oldest timer firing, the oldest task of the
  loop, and an event of its channel. When the channel reports an error the error handler runs
  and then, if the socket is also writable, the write handler (\<open>Channel::handleEventWithGuard\<close>).
  Where the event makes a new socket, its descriptor and the result of \<open>connect\<close> are given.
\<close>

datatype con_event = Start bool int int | Restart | Stop | Timer_Fires int int | Run_Task int int
  | Channel_Error int bool int | Channel_Writable int

fun con_step :: "con_event \<Rightarrow> connector \<Rightarrow> connector option" where
  "con_step (Start in_loop fd e) c = Some (start in_loop fd e c)"
| "con_step Restart c = Some (restart c)"
| "con_step Stop c = Some (stop c)"
| "con_step (Timer_Fires fd e) c =
     (case retry_timers c of
        [] \<Rightarrow> Some c
      | Retry_Timer # ts \<Rightarrow> Some (start True fd e (c\<lparr>retry_timers := ts\<rparr>))
      | Restart_Timer # ts \<Rightarrow> Some (startInLoop fd e (c\<lparr>retry_timers := ts\<rparr>)))"
| "con_step (Run_Task fd e) c =
     (case con_tasks c of
        [] \<Rightarrow> Some c
      | Start_Task # ts \<Rightarrow> Some (startInLoop fd e (c\<lparr>con_tasks := ts\<rparr>))
      | Stop_Task # ts \<Rightarrow> Some (stopInLoop (c\<lparr>con_tasks := ts\<rparr>))
      | Error_Task x # ts \<Rightarrow> Some (c\<lparr>con_tasks := ts, errors := errors c @ [x]\<rparr>)
      | Release_Task x # ts \<Rightarrow> Some (c\<lparr>con_tasks := ts\<rparr>))"
| "con_step (Channel_Error err writable err') c =
     (if con_channel c = None then Some c
      else case handleError err c of
        None \<Rightarrow> None
      | Some c1 \<Rightarrow> if writable then handleWrite err' c1 else Some c1)"
| "con_step (Channel_Writable err) c = (if con_channel c = None then Some c else handleWrite err c)"

fun con_run :: "con_event list \<Rightarrow> connector \<Rightarrow> connector option" where
  "con_run [] c = Some c"
| "con_run (e # es) c = (case con_step e c of None \<Rightarrow> None | Some c1 \<Rightarrow> con_run es c1)"

section \<open>Descriptors\<close>

definition held :: "connector \<Rightarrow> int list" where
  "held c = (case con_channel c of None \<Rightarrow> [] | Some fd \<Rightarrow> [fd])"

text \<open>
  The orderly use: nobody calls \<open>stop\<close>, and a new attempt starts only when the last one is
  over.
\<close>

definition attempts :: "con_event \<Rightarrow> connector \<Rightarrow> bool" where
  "attempts e c = (case e of
       Start in_loop fd x \<Rightarrow> in_loop
     | Timer_Fires fd x \<Rightarrow> retry_timers c \<noteq> []
     | Run_Task fd x \<Rightarrow> (case con_tasks c of Start_Task # ts \<Rightarrow> True | _ \<Rightarrow> False)
     | _ \<Rightarrow> False)"

definition orderly :: "con_event \<Rightarrow> connector \<Rightarrow> bool" where
  "orderly e c \<longleftrightarrow> e \<noteq> Stop \<and> (attempts e c \<or> e = Restart \<longrightarrow> con_channel c = None)"

fun orderly_history :: "con_event list \<Rightarrow> connector \<Rightarrow> bool" where
  "orderly_history [] c \<longleftrightarrow> True"
| "orderly_history (e # es) c \<longleftrightarrow>
     orderly e c \<and> (case con_step e c of None \<Rightarrow> True | Some c1 \<Rightarrow> orderly_history es c1)"

text \<open>Then every descriptor opened is held, was closed, or was handed over.\<close>

definition con_inv :: "connector \<Rightarrow> bool" where
  "con_inv c \<longleftrightarrow> (con_state c = cConnecting \<longleftrightarrow> con_channel c \<noteq> None)
     \<and> has_new_connection c \<and> Stop_Task \<notin> set (con_tasks c)
     \<and> (connect_flag c \<or> con_channel c = None)
     \<and> mset (opened c) = mset (closed c) + mset (handed c) + mset (held c)"

lemmas connector_defs = connecting_def retry_def connect_def startInLoop_def start_def restart_def
  stop_def stopInLoop_def handleWrite_def handleError_def Let_def

lemma connect_inv:
  "con_inv c \<Longrightarrow> connect_flag c \<Longrightarrow> con_channel c = None \<Longrightarrow> con_inv (connect fd e c)"
  by (auto simp: con_inv_def connector_defs held_def)

lemma retry_inv:
  "con_inv c \<Longrightarrow> con_channel c = Some fd \<Longrightarrow> con_inv (retry fd e c) \<and> con_state (retry fd e c) = cDisconnected"
  by (auto simp: con_inv_def connector_defs held_def)

lemma con_inv_frame [simp]:
  "con_inv (c\<lparr>retry_timers := ts\<rparr>) = con_inv c"
  "con_inv (c\<lparr>errors := xs\<rparr>) = con_inv c"
  by (simp_all add: con_inv_def held_def)

lemma con_inv_tasks: "con_inv c \<Longrightarrow> con_tasks c = t # ts \<Longrightarrow> con_inv (c\<lparr>con_tasks := ts\<rparr>)"
  by (simp add: con_inv_def held_def)

lemma startInLoop_inv: "con_inv c \<Longrightarrow> con_channel c = None \<Longrightarrow> con_inv (startInLoop fd e c)"
  by (simp add: startInLoop_def connect_inv)

lemma start_inv:
  assumes i: "con_inv c" and n: "in_loop \<longrightarrow> con_channel c = None"
  shows "con_inv (start in_loop fd e c)"
proof -
  have "con_inv (c\<lparr>connect_flag := True\<rparr>)" using i by (simp add: con_inv_def held_def)
  from startInLoop_inv [OF this] i n show ?thesis
    by (cases in_loop) (simp_all add: start_def Let_def con_inv_def held_def)
qed

lemma con_step_inv:
  assumes i: "con_inv c" and o: "orderly e c"
  shows "\<exists>c'. con_step e c = Some c' \<and> con_inv c'"
proof (cases e)
  case Restart
  with assms show ?thesis by (auto simp: orderly_def con_inv_def restart_def held_def Let_def)
next
  case (Timer_Fires fd x)
  show ?thesis
  proof (cases "retry_timers c")
    case Nil
    with Timer_Fires i show ?thesis by simp
  next
    case (Cons t ts)
    with Timer_Fires o have "con_channel c = None" by (simp add: orderly_def attempts_def)
    with Timer_Fires Cons i show ?thesis by (cases t) (simp_all add: start_inv startInLoop_inv)
  qed
next
  case (Run_Task fd x)
  show ?thesis
  proof (cases "con_tasks c")
    case Nil
    with Run_Task i show ?thesis by simp
  next
    case (Cons t ts)
    have "con_inv (c\<lparr>con_tasks := ts\<rparr>)" by (rule con_inv_tasks [OF i Cons])
    moreover have "t \<noteq> Stop_Task" using i Cons by (auto simp: con_inv_def)
    moreover have "c\<lparr>con_tasks := ts, errors := xs\<rparr> = (c\<lparr>con_tasks := ts\<rparr>)\<lparr>errors := xs\<rparr>" for xs by simp
    moreover have "t = Start_Task \<longrightarrow> con_channel c = None"
      using Run_Task Cons o by (auto simp: orderly_def attempts_def)
    ultimately show ?thesis using Run_Task Cons startInLoop_inv [of "c\<lparr>con_tasks := ts\<rparr>"]
      by (cases t) (simp_all add: con_inv_def held_def)
  qed
next
  case (Channel_Error err w err')
  show ?thesis
  proof (cases "con_channel c")
    case (Some fd)
    with Channel_Error retry_inv [OF i Some] show ?thesis
      by (simp add: handleError_def handleWrite_def)
  qed (use Channel_Error i in simp)
next
  case (Channel_Writable err)
  show ?thesis
  proof (cases "con_channel c")
    case (Some fd)
    then have s: "con_state c = cConnecting" "connect_flag c" using i by (auto simp: con_inv_def)
    show ?thesis
    proof (cases "err = 0")
      case True
      with s Some Channel_Writable i show ?thesis
        by (auto simp: con_inv_def handleWrite_def held_def Let_def)
    next
      case False
      with s Some Channel_Writable retry_inv [OF i Some] show ?thesis by (simp add: handleWrite_def)
    qed
  qed (use Channel_Writable i in simp)
next
  case (Start in_loop fd x)
  with i o start_inv [OF i] show ?thesis by (simp add: orderly_def attempts_def)
qed (use o in \<open>simp add: orderly_def\<close>)

lemma con_run_inv:
  "con_inv c \<Longrightarrow> orderly_history es c \<Longrightarrow> \<exists>c'. con_run es c = Some c' \<and> con_inv c'"
proof (induction es arbitrary: c)
  case (Cons e es)
  then have "orderly e c" by simp
  from con_step_inv [OF Cons.prems(1) this] obtain c1 where "con_step e c = Some c1" "con_inv c1" by blast
  with Cons show ?case by simp
qed simp

section \<open>Backing off\<close>

definition backoff :: "nat \<Rightarrow> nat" where
  "backoff n = min (kInitRetryDelayMs * 2 ^ n) kMaxRetryDelayMs"

lemma backoff_Suc: "backoff (Suc n) = min (2 * backoff n) kMaxRetryDelayMs"
  by (simp add: backoff_def kInitRetryDelayMs_def kMaxRetryDelayMs_def min_def)

text \<open>
  An attempt fails at once (the result of \<open>connect\<close>), or later, with an error in \<open>SO_ERROR\<close>
  that the write handler or the error handler sees.
\<close>

datatype failure = Refused int | Write_Fails int | Error_Event int bool int

definition failing :: "failure \<Rightarrow> bool" where
  "failing f = (case f of
       Refused e \<Rightarrow> e \<in> {EAGAIN, ECONNREFUSED, ENETUNREACH}
     | Write_Fails e \<Rightarrow> e \<noteq> 0
     | Error_Event e w e' \<Rightarrow> True)"

text \<open>The first attempt is a call of \<open>start\<close>, the others are made by the retry timer.\<close>

definition open_event :: "nat \<Rightarrow> int \<Rightarrow> int \<Rightarrow> con_event" where
  "open_event k fd e = (if k = 0 then Start True fd e else Timer_Fires fd e)"

definition failed_attempt :: "nat \<Rightarrow> int \<times> failure \<Rightarrow> con_event list" where
  "failed_attempt k a = (case a of (fd, f) \<Rightarrow> (case f of
       Refused e \<Rightarrow> [open_event k fd e]
     | Write_Fails e \<Rightarrow> [open_event k fd EINPROGRESS, Channel_Writable e]
     | Error_Event e w e' \<Rightarrow> [open_event k fd EINPROGRESS, Channel_Error e w e']))"

fun failed_attempts :: "nat \<Rightarrow> (int \<times> failure) list \<Rightarrow> con_event list" where
  "failed_attempts k [] = []"
| "failed_attempts k (a # as) = failed_attempt k a @ failed_attempts (Suc k) as"

text \<open>The connector between attempts, after \<open>k\<close> failures.\<close>

definition backed_off :: "nat \<Rightarrow> int list \<Rightarrow> connector \<Rightarrow> bool" where
  "backed_off k fds c \<longleftrightarrow> con_channel c = None \<and> retry_flag c \<and> has_new_connection c
     \<and> (0 < k \<longrightarrow> connect_flag c) \<and> retry_timers c = (if k = 0 then [] else [Retry_Timer])
     \<and> handed c = [] \<and> closed c = fds \<and> delays c = map backoff [0..<k] \<and> retryDelayMs c = backoff k"

lemma con_run_append:
  "con_run (es @ es') c = (case con_run es c of None \<Rightarrow> None | Some c1 \<Rightarrow> con_run es' c1)"
  by (induction es arbitrary: c) (simp_all split: option.splits)

lemma open_event_step:
  "backed_off k fds c \<Longrightarrow>
     con_step (open_event k fd e) c = Some (connect fd e (c\<lparr>connect_flag := True, retry_timers := []\<rparr>))"
  by (cases c) (auto simp: backed_off_def open_event_def start_def startInLoop_def Let_def)

lemma connecting_state:
  "backed_off k fds c \<Longrightarrow>
     \<exists>c1. con_step (open_event k fd EINPROGRESS) c = Some c1 \<and> con_channel c1 = Some fd
       \<and> con_state c1 = cConnecting \<and> connect_flag c1 \<and> retry_flag c1 \<and> has_new_connection c1
       \<and> retry_timers c1 = [] \<and> handed c1 = [] \<and> closed c1 = fds
       \<and> delays c1 = map backoff [0..<k] \<and> retryDelayMs c1 = backoff k"
  by (simp add: open_event_step) (simp add: backed_off_def connect_def connecting_def Let_def errno_defs)

lemma failed_attempt_step:
  assumes b: "backed_off k fds c" and f: "failing f"
  shows "\<exists>c'. con_run (failed_attempt k (fd, f)) c = Some c' \<and> backed_off (Suc k) (fds @ [fd]) c'"
proof (cases f)
  case (Refused e)
  with f have e: "e \<notin> {0, EINPROGRESS, EINTR, EISCONN}" "e \<in> {EAGAIN, ECONNREFUSED, ENETUNREACH}"
    by (auto simp: failing_def errno_defs)
  show ?thesis
    using Refused b e open_event_step [OF b, of fd e]
    by (simp add: failed_attempt_def connect_def)
      (simp add: backed_off_def retry_def Let_def backoff_Suc)
next
  case (Write_Fails e)
  from connecting_state [OF b, of fd] obtain c1 where c1: "con_step (open_event k fd EINPROGRESS) c = Some c1"
    "con_channel c1 = Some fd" "con_state c1 = cConnecting" "connect_flag c1" "retry_flag c1"
    "has_new_connection c1" "retry_timers c1 = []" "handed c1 = []" "closed c1 = fds"
    "delays c1 = map backoff [0..<k]" "retryDelayMs c1 = backoff k" by blast
  with Write_Fails f show ?thesis
    by (simp add: failed_attempt_def failing_def handleWrite_def backed_off_def retry_def Let_def backoff_Suc)
next
  case (Error_Event e w e')
  from connecting_state [OF b, of fd] obtain c1 where c1: "con_step (open_event k fd EINPROGRESS) c = Some c1"
    "con_channel c1 = Some fd" "con_state c1 = cConnecting" "connect_flag c1" "retry_flag c1"
    "has_new_connection c1" "retry_timers c1 = []" "handed c1 = []" "closed c1 = fds"
    "delays c1 = map backoff [0..<k]" "retryDelayMs c1 = backoff k" by blast
  with Error_Event f show ?thesis
    by (simp add: failed_attempt_def handleError_def handleWrite_def backed_off_def retry_def Let_def backoff_Suc)
qed

lemma failed_attempts_run:
  "backed_off k fds c \<Longrightarrow> \<forall>(fd, f) \<in> set as. failing f \<Longrightarrow>
     \<exists>c'. con_run (failed_attempts k as) c = Some c' \<and> backed_off (k + length as) (fds @ map fst as) c'"
proof (induction as arbitrary: k fds c)
  case (Cons a as)
  obtain fd f where a: "a = (fd, f)" by (cases a)
  with Cons.prems(2) have "failing f" by simp
  from failed_attempt_step [OF Cons.prems(1) this, of fd] obtain c1
    where c1: "con_run (failed_attempt k a) c = Some c1" "backed_off (Suc k) (fds @ [fd]) c1" using a by blast
  with Cons.IH [OF c1(2)] Cons.prems(2) a show ?case by (simp add: con_run_append)
qed (simp add: backed_off_def)

section \<open>Properties\<close>

text \<open>
  C25. No descriptor is lost or closed twice: in an orderly history (nobody calls \<open>stop\<close>, and a new
  attempt starts only when the last one is over) no null channel is used, and the
  descriptors opened are exactly, each once, those closed, those handed to the
  client and the one of the attempt in progress.
\<close>

theorem descriptors_accounted:
  assumes "orderly_history es (setNewConnectionCallback connector_new)"
  shows "\<exists>c. con_run es (setNewConnectionCallback connector_new) = Some c
    \<and> mset (opened c) = mset (closed c) + mset (handed c)
        + (case con_channel c of None \<Rightarrow> {#} | Some fd \<Rightarrow> {#fd#})"
proof -
  have "con_inv (setNewConnectionCallback connector_new)"
    by (simp add: con_inv_def setNewConnectionCallback_def connector_new_def held_def)
  from con_run_inv [OF this assms] show ?thesis
    by (auto simp: con_inv_def held_def split: option.splits)
qed

lemma sample_attempts_orderly:
  "orderly_history [Start True 5 115, Channel_Error 111 True 111, Run_Task 0 0, Start True 6 115,
     Channel_Writable 0] (setNewConnectionCallback connector_new)"
  by (simp add: orderly_def attempts_def connector_defs setNewConnectionCallback_def connector_new_def
      errno_defs)

theorem descriptors_accounted_witness:
  "\<exists>c. con_run [Start True 5 115, Channel_Error 111 True 111, Run_Task 0 0, Start True 6 115,
     Channel_Writable 0] (setNewConnectionCallback connector_new) = Some c
   \<and> mset (opened c) = mset (closed c) + mset (handed c)
        + (case con_channel c of None \<Rightarrow> {#} | Some fd \<Rightarrow> {#fd#})"
  by (rule descriptors_accounted [OF sample_attempts_orderly])

text \<open>
  C26. Retrying: with retries enabled, after any number of failed attempts, each refused at once or
  failing later, the next attempt that succeeds hands its descriptor to the client; all failed
  descriptors were closed, and the waits were 500 ms doubled each time and at most 30 s.
\<close>

theorem retries_until_connected:
  assumes "\<forall>(fd, f) \<in> set as. failing f"
  shows "\<exists>c. con_run (failed_attempts 0 as @ [open_event (length as) sockfd EINPROGRESS, Channel_Writable 0])
      (enableRetry (setNewConnectionCallback connector_new)) = Some c
    \<and> handed c = [sockfd] \<and> closed c = map fst as
    \<and> delays c = map (\<lambda>n. min (500 * 2 ^ n) 30000) [0..<length as]"
proof -
  have "backed_off 0 [] (enableRetry (setNewConnectionCallback connector_new))"
    by (simp add: backed_off_def enableRetry_def setNewConnectionCallback_def connector_new_def
        backoff_def kInitRetryDelayMs_def kMaxRetryDelayMs_def)
  from failed_attempts_run [OF this assms] obtain c1
    where c1: "con_run (failed_attempts 0 as) (enableRetry (setNewConnectionCallback connector_new)) = Some c1"
      "backed_off (length as) (map fst as) c1" by auto
  from connecting_state [OF c1(2), of sockfd] obtain c2
    where "con_step (open_event (length as) sockfd EINPROGRESS) c1 = Some c2"
      "con_channel c2 = Some sockfd" "con_state c2 = cConnecting" "connect_flag c2"
      "has_new_connection c2" "handed c2 = []" "closed c2 = map fst as"
      "delays c2 = map backoff [0..<length as]" by blast
  with c1(1) show ?thesis
    by (simp add: con_run_append handleWrite_def Let_def backoff_def kInitRetryDelayMs_def
        kMaxRetryDelayMs_def)
qed

theorem retries_until_connected_witness:
  "\<exists>c. con_run (failed_attempts 0 [(5, Refused 111), (6, Write_Fails 110)]
      @ [open_event 2 7 EINPROGRESS, Channel_Writable 0])
      (enableRetry (setNewConnectionCallback connector_new)) = Some c
    \<and> handed c = [7] \<and> closed c = [5, 6] \<and> delays c = [500, 1000]"
proof -
  have "\<forall>(fd, f) \<in> set [(5, Refused 111), (6, Write_Fails 110)]. failing f"
    by (simp add: failing_def errno_defs)
  from retries_until_connected [OF this, of 7] show ?thesis by (simp add: upt_rec numeral_2_eq_2)
qed

text \<open>
  Stopping while an attempt is in progress loses its descriptor: \<open>stopInLoop\<close> drops the
  channel without closing the descriptor, which is then neither closed, nor held, nor handed
  over (a health check probe that times out ends this way).
\<close>

theorem stop_leaks_descriptor:
  assumes "con_inv c" and "con_tasks c = []" and "con_channel c = Some fd"
  shows "\<exists>c'. con_run [Stop, Run_Task 0 0] c = Some c' \<and> con_channel c' = None
    \<and> mset (opened c') = add_mset fd (mset (closed c') + mset (handed c'))"
  using assms by (simp add: stop_def stopInLoop_def con_inv_def held_def Let_def)

theorem stop_leaks_descriptor_witness:
  "\<exists>c'. con_run [Stop, Run_Task 0 0] (start True 5 115 (setNewConnectionCallback connector_new)) = Some c'
    \<and> con_channel c' = None \<and> mset (opened c') = add_mset 5 (mset (closed c') + mset (handed c'))"
proof -
  let ?c = "start True 5 115 (setNewConnectionCallback connector_new)"
  have "con_inv ?c" "con_tasks ?c = []" "con_channel ?c = Some 5"
    by (simp_all add: con_inv_def connector_defs setNewConnectionCallback_def connector_new_def
        errno_defs held_def)
  then show ?thesis by (rule stop_leaks_descriptor)
qed

text \<open>A second \<open>start\<close> during an attempt loses the first descriptor if the second is refused at once.\<close>

lemma overlapping_start_leaks:
  "\<exists>c. con_run [Start True 5 115, Start True 6 111, Run_Task 0 0]
     (setNewConnectionCallback connector_new) = Some c
   \<and> opened c = [5, 6] \<and> closed c = [6] \<and> handed c = [] \<and> con_channel c = None"
  by (simp add: connector_defs setNewConnectionCallback_def connector_new_def errno_defs)

end
