(* ===== verification/L7_Pool.thy ===== *)
theory L7_Pool
  imports Http_Server Server_Node Tcp_Connection
begin

text \<open>
  The backend side of the HTTP gateway: \<open>RemoteClient\<close> (\<^verbatim>\<open>Proxy/src/L7/RemoteClient.h\<close>,
  \<^verbatim>\<open>Proxy/src/L7/RemoteClient.cc\<close>) and \<open>ConnectionPool\<close> (\<^verbatim>\<open>Proxy/src/L7/ConnectionPool.h\<close>,
  \<^verbatim>\<open>Proxy/src/L7/ConnecitonPool.cc\<close>). One I/O thread owns a pool, the clients and the backend
  connections it serves, so their operations do not interleave.

  Objects are numbers: \<open>remotes\<close> and \<open>clients\<close> are the stores. Bytes sent on a connection are
  appended to \<open>rc_sent\<close> and \<open>cl_sent\<close>, when its state is \<open>kConnected\<close>; how they reach the wire is the
  subject of \<open>L7_Backend\<close> and \<open>Tcp_Connection\<close>. Using a null pointer is the value \<open>None\<close>.
\<close>

section \<open>State\<close>

text \<open>\<open>rc_conn\<close> is the state of \<open>tc_->conn_\<close>, \<open>None\<close> before the connection is up and after it is
  down; \<open>rc_input\<close> is its input buffer.\<close>

record remote_client =
  rc_target :: bytes
  rc_conn :: "state_e option"
  clientConn :: "nat option"
  is_busy :: bool
  pendingBuffer :: buffer
  rc_input :: buffer
  rc_sent :: bytes

record client_conn =
  cl_state :: state_e
  cl_alive :: bool
  cl_parser :: http_parser
  cl_backend :: "nat option"
  cl_input :: buffer
  cl_sent :: bytes

record relay =
  remotes :: "nat \<Rightarrow> remote_client"
  next_remote :: nat
  idle_map :: "bytes \<Rightarrow> nat list option"
  clients :: "nat \<Rightarrow> client_conn"

definition remote_new :: "bytes \<Rightarrow> remote_client" where
  "remote_new targetNode =
     \<lparr>rc_target = targetNode, rc_conn = None, clientConn = None, is_busy = False,
      pendingBuffer = buffer_new 0, rc_input = buffer_new 0, rc_sent = []\<rparr>"

definition upd_remote :: "nat \<Rightarrow> (remote_client \<Rightarrow> remote_client) \<Rightarrow> relay \<Rightarrow> relay" where
  "upd_remote r f w = w\<lparr>remotes := (remotes w)(r := f (remotes w r))\<rparr>"

definition upd_client :: "nat \<Rightarrow> (client_conn \<Rightarrow> client_conn) \<Rightarrow> relay \<Rightarrow> relay" where
  "upd_client c f w = w\<lparr>clients := (clients w)(c := f (clients w c))\<rparr>"

section \<open>Connections of a remote client\<close>

definition bindClient :: "nat \<Rightarrow> remote_client \<Rightarrow> remote_client" where
  "bindClient c rc = rc\<lparr>clientConn := Some c, is_busy := True\<rparr>"

definition unbind :: "remote_client \<Rightarrow> remote_client" where
  "unbind rc = rc\<lparr>clientConn := None, is_busy := False\<rparr>"

definition setbusy :: "remote_client \<Rightarrow> remote_client" where
  "setbusy rc = rc\<lparr>is_busy := True\<rparr>"

definition setUnbusy :: "remote_client \<Rightarrow> remote_client" where
  "setUnbusy rc = rc\<lparr>is_busy := False\<rparr>"

definition clearPendingBuffer :: "remote_client \<Rightarrow> remote_client" where
  "clearPendingBuffer rc = rc\<lparr>pendingBuffer := retrieveAll (pendingBuffer rc)\<rparr>"

text \<open>\<open>TcpClient::send\<close>: false without a connection; a connection that is not connected drops the bytes.\<close>

definition tc_send :: "bytes \<Rightarrow> remote_client \<Rightarrow> bool \<times> remote_client" where
  "tc_send data rc =
     (case rc_conn rc of
        None \<Rightarrow> (False, rc)
      | Some s \<Rightarrow> (True, if s = kConnected then rc\<lparr>rc_sent := rc_sent rc @ data\<rparr> else rc))"

definition sendToBackend :: "bytes \<Rightarrow> remote_client \<Rightarrow> remote_client" where
  "sendToBackend data rc =
     (case tc_send data rc of (ok, rc1) \<Rightarrow>
       if \<not> ok then rc1\<lparr>pendingBuffer := append_data data (pendingBuffer rc1)\<rparr> else rc1)"

text \<open>\<open>TcpClient::disconnect\<close> shuts \<open>conn_\<close> down, which must not be null.\<close>

definition tc_disconnect :: "remote_client \<Rightarrow> remote_client option" where
  "tc_disconnect rc =
     (case rc_conn rc of
        None \<Rightarrow> None
      | Some s \<Rightarrow> Some (if s = kConnected then rc\<lparr>rc_conn := Some kDisconnecting\<rparr> else rc))"

section \<open>Clients\<close>

definition client_send :: "bytes \<Rightarrow> client_conn \<Rightarrow> client_conn" where
  "client_send data c = (if cl_state c = kConnected then c\<lparr>cl_sent := cl_sent c @ data\<rparr> else c)"

definition client_shutdown :: "client_conn \<Rightarrow> client_conn" where
  "client_shutdown c = (if cl_state c = kConnected then c\<lparr>cl_state := kDisconnecting\<rparr> else c)"

text \<open>\<open>HttpContext::reset\<close> lets the backend go only after a response.\<close>

definition ctx_reset :: "client_conn \<Rightarrow> client_conn" where
  "ctx_reset c =
     (let c1 = c\<lparr>cl_parser := reset (cl_parser c)\<rparr>
      in if \<not> is_req (cl_parser c1) then c1\<lparr>cl_backend := None\<rparr> else c1)"

section \<open>The pool\<close>

definition max_conns :: nat where
  "max_conns = 10"

text \<open>\<open>rfind(':')\<close>, and \<open>std::stoi\<close> of what follows (\<open>None\<close> where it throws), cut to 16 bits.\<close>

definition parse_target :: "bytes \<Rightarrow> inet_address option" where
  "parse_target t =
     (if CHR '':'' \<notin> set t then Some \<lparr>addr_ip = ''127.0.0.1'', addr_port = 0\<rparr>
      else
        let digits = rev (takeWhile (\<lambda>c. c \<noteq> CHR '':'') (rev t));
            ip = take (length t - length digits - 1) t;
            w = takeWhile is_digit digits
        in if w = [] \<or> 2 ^ 31 \<le> dec_value w then None
           else Some \<lparr>addr_ip = ip, addr_port = dec_value w mod 2 ^ 16\<rparr>)"

definition borrowConnection :: "bytes \<Rightarrow> relay \<Rightarrow> (nat \<times> relay) option" where
  "borrowConnection targetNode w =
     (case idle_map w targetNode of
        Some (x # xs) \<Rightarrow>
          (let vs = x # xs in
           Some (last vs, upd_remote (last vs) setbusy
             (w\<lparr>idle_map := (idle_map w)(targetNode \<mapsto> butlast vs)\<rparr>)))
      | _ \<Rightarrow>
          (case parse_target targetNode of
             None \<Rightarrow> None
           | Some addr \<Rightarrow>
               (let r = next_remote w in
                Some (r, w\<lparr>remotes := (remotes w)(r := setbusy (remote_new targetNode)),
                           next_remote := r + 1\<rparr>))))"

definition returnConnection :: "bytes \<Rightarrow> nat \<Rightarrow> relay \<Rightarrow> relay option" where
  "returnConnection targetNode r w =
     (let w1 = upd_remote r (\<lambda>rc. clearPendingBuffer (setUnbusy (unbind rc))) w;
          vs = (case idle_map w1 targetNode of None \<Rightarrow> [] | Some vs \<Rightarrow> vs)
      in if length vs < max_conns then Some (w1\<lparr>idle_map := (idle_map w1)(targetNode \<mapsto> vs @ [r])\<rparr>)
         else
           let w2 = w1\<lparr>idle_map := (idle_map w1)(targetNode \<mapsto> vs)\<rparr>
           in map_option (\<lambda>rc. w2\<lparr>remotes := (remotes w2)(r := rc)\<rparr>) (tc_disconnect (remotes w2 r)))"

text \<open>The error callback, queued in the loop: \<open>std::erase\<close> from the idle list.\<close>

definition eraseConnection :: "nat \<Rightarrow> relay \<Rightarrow> relay" where
  "eraseConnection r w =
     (let targetNode = rc_target (remotes w r) in
      case idle_map w targetNode of
        None \<Rightarrow> w
      | Some vs \<Rightarrow> w\<lparr>idle_map := (idle_map w)(targetNode \<mapsto> removeAll r vs)\<rparr>)"

section \<open>The backend connection goes up and down\<close>

definition bad_gateway :: bytes where
  "bad_gateway = ''HTTP/1.1 502 Bad Gateway'' @ crlf @ crlf"

definition bound_client :: "nat \<Rightarrow> relay \<Rightarrow> nat option" where
  "bound_client r w =
     (case clientConn (remotes w r) of
        None \<Rightarrow> None
      | Some c \<Rightarrow> if cl_alive (clients w c) then Some c else None)"

text \<open>\<open>onConnection\<close> when the connection is up; \<open>TcpClient\<close> stores \<open>conn_\<close> after it.\<close>

definition backend_up :: "nat \<Rightarrow> relay \<Rightarrow> relay" where
  "backend_up r w =
     upd_remote r
       (\<lambda>rc. (if bound_client r w \<noteq> None \<and> 0 < readableBytes (pendingBuffer rc)
              then rc\<lparr>rc_sent := rc_sent rc @ readable (pendingBuffer rc),
                      pendingBuffer := retrieveAll (pendingBuffer rc)\<rparr>
              else rc)\<lparr>rc_conn := Some kConnected\<rparr>) w"

text \<open>\<open>onConnection\<close> when it is down, and \<open>TcpClient::removeConnection\<close>, which resets \<open>conn_\<close>.
  The error callback follows as \<open>eraseConnection\<close>.\<close>

definition backend_down :: "nat \<Rightarrow> relay \<Rightarrow> relay" where
  "backend_down r w =
     (let w1 = (if is_busy (remotes w r)
                then (case bound_client r w of
                        None \<Rightarrow> w
                      | Some c \<Rightarrow> upd_client c (\<lambda>c. client_shutdown (client_send bad_gateway c)) w)
                else w)
      in upd_remote r (\<lambda>rc. rc\<lparr>rc_conn := None\<rparr>) w1)"

section \<open>A response arrives\<close>

text \<open>The end mark of a chunked response, and what is done with its bytes: they are all forwarded
  (\<open>send(Buffer *)\<close> consumes them only on a connected connection).\<close>

definition zero_chunk :: bytes where
  "zero_chunk = ''0'' @ crlf @ crlf"

text \<open>
  The part of \<open>onMessage\<close> that works on the client's parser \<open>p\<close> and the backend's input buffer \<open>b\<close>; \<open>up\<close> tells whether
  the client is connected. The result: the bytes sent to the client, parser and buffer, and
  whether the response is complete.
\<close>

definition forward_chunks ::
  "bool \<Rightarrow> http_parser \<Rightarrow> buffer \<Rightarrow> bytes \<times> http_parser \<times> buffer \<times> bool" where
  "forward_chunks up p b =
     (let payload = readable b;
          finished = (sv_find payload zero_chunk 0 \<noteq> None)
      in (payload, p, if up then retrieveAll b else b, finished))"

definition forward_response ::
  "bool \<Rightarrow> http_parser \<Rightarrow> buffer \<Rightarrow> bytes \<times> http_parser \<times> buffer \<times> bool" where
  "forward_response up p b =
     (if isExpectingBody p then
        (if \<not> resp_is_chunked p then
           (if \<not> gotAll p then
              let n = min (readableBytes b) (bytesRemaining p) in
              (case consumeBody n p b of (p1, b1) \<Rightarrow> (take n (readable b), p1, b1, gotAll p1))
            else ([], p, b, False))
         else forward_chunks up p b)
      else
        (case parseResponse b p of (ok, p1) \<Rightarrow>
          if ok then
            let head = take (header_len p1) (readable b);
                b1 = (if 0 < header_len p1 then retrieve (header_len p1) b else b)
            in if \<not> resp_is_chunked p1 then
                 let n = min (readableBytes b1) (bytesRemaining p1);
                     (body, p2, b2) =
                       (if 0 < n then (case consumeBody n p1 b1 of (p2, b2) \<Rightarrow> (take n (readable b1), p2, b2))
                        else ([], p1, b1))
                 in (head @ body, p2, b2, gotAll p2)
               else (case forward_chunks up p1 b1 of (body, p2, b2, fin) \<Rightarrow> (head @ body, p2, b2, fin))
          else ([], p1, b, False)))"

definition remote_onMessage :: "nat \<Rightarrow> relay \<Rightarrow> relay option" where
  "remote_onMessage r w =
     (let rc = remotes w r in
      case bound_client r w of
        Some c \<Rightarrow>
          if is_busy rc then
            (case forward_response (cl_state (clients w c) = kConnected) (cl_parser (clients w c)) (rc_input rc) of
               (out, p, b, finished) \<Rightarrow>
                 let w1 = upd_remote r (\<lambda>rc. rc\<lparr>rc_input := b\<rparr>)
                       (upd_client c (\<lambda>c. (client_send out c)\<lparr>cl_parser := p\<rparr>) w)
                 in if finished then returnConnection (rc_target rc) r (upd_client c ctx_reset w1)
                    else Some w1)
          else map_option (\<lambda>rc. w\<lparr>remotes := (remotes w)(r := rc)\<rparr>) (tc_disconnect rc)
      | None \<Rightarrow> map_option (\<lambda>rc. w\<lparr>remotes := (remotes w)(r := rc)\<rparr>) (tc_disconnect rc))"

text \<open>\<open>TcpConnection::handleRead\<close> of the backend connection.\<close>

definition backend_data :: "bytes \<Rightarrow> nat \<Rightarrow> relay \<Rightarrow> relay option" where
  "backend_data seg r w =
     remote_onMessage r (upd_remote r (\<lambda>rc. rc\<lparr>rc_input := append_data seg (rc_input rc)\<rparr>) w)"

fun backend_segments :: "bytes list \<Rightarrow> nat \<Rightarrow> relay \<Rightarrow> relay option" where
  "backend_segments [] r w = Some w"
| "backend_segments (s # ss) r w =
     (case backend_data s r w of None \<Rightarrow> None | Some w1 \<Rightarrow> backend_segments ss r w1)"


section \<open>Forwarding a response of known length\<close>

text \<open>The client's parser before the head of the response is complete, and while its body of \<open>L\<close>
  bytes arrives, \<open>k\<close> of them forwarded.\<close>

definition head_phase :: "http_parser \<Rightarrow> bool" where
  "head_phase p \<longleftrightarrow> hp_state p = ExpectHeaders \<and> body_bytes_read p = 0"

definition body_phase :: "nat \<Rightarrow> nat \<Rightarrow> http_parser \<Rightarrow> bool" where
  "body_phase L k p \<longleftrightarrow>
     hp_state p = ExpectBody \<and> \<not> is_req p \<and> \<not> resp_is_chunked p \<and> content_length p = L
     \<and> body_bytes_read p = k \<and> k < L \<and> L < 2 ^ 64"

definition framed :: "bytes \<Rightarrow> phr_response \<Rightarrow> nat \<Rightarrow> bool" where
  "framed h x L \<longleftrightarrow>
     response_head max_headers h x \<and> response_framing (rs_headers x) (False, 0, False) = (0 < L, L, False)"

lemma framed_bound: "framed h x L \<Longrightarrow> L < 2 ^ 64"
  using response_framing_bound [of "rs_headers x" False 0 False] by (auto simp: framed_def)

lemma framed_not_empty: "framed h x L \<Longrightarrow> h \<noteq> []"
  using rs.head_not_empty by (auto simp: framed_def)

lemma forward_partial:
  assumes "head_phase p" and "framed h x L" and "h = readable b @ t" and "t \<noteq> []"
  shows "\<exists>p'. forward_response up p b = ([], p', b, False) \<and> head_phase p' \<and> \<not> is_req p'"
proof -
  have "phr_parse_response max_headers (readable b) 0 = Partial"
    unfolding phr_parse_response_def rs.entry_Partial
    using rs.proper_prefix_partial [of max_headers "readable b" t x] assms(2-4) by (simp add: framed_def)
  then have "parseResponse b p = (False, p\<lparr>is_req := False, got_all := False\<rparr>)"
    by (simp add: parseResponse_def Let_def)
  then show ?thesis
    using assms(1) by (simp add: forward_response_def head_phase_def isExpectingBody_def)
qed

text \<open>Bytes that lie within the body.\<close>

lemma consume_within:
  assumes "body_phase L k p" and "buf_inv b" and "k + readableBytes b \<le> L"
  shows "bytesRemaining p = L - k"
    and "\<exists>p' b'. consumeBody (readableBytes b) p b = (p', b') \<and> buf_inv b' \<and> readable b' = [] \<and> \<not> is_req p'
      \<and> gotAll p' = (k + readableBytes b = L)
      \<and> (k + readableBytes b < L \<longrightarrow> body_phase L (k + readableBytes b) p')"
proof -
  have "body_inv p" using assms(1) by (simp add: body_phase_def body_inv_def)
  with bytesRemaining_exact assms(1) show "bytesRemaining p = L - k" by (simp add: body_phase_def)
  have "readable (retrieve (readableBytes b) b) = []" using assms(2) by (simp add: readable_retrieve)
  then show "\<exists>p' b'. consumeBody (readableBytes b) p b = (p', b') \<and> buf_inv b' \<and> readable b' = [] \<and> \<not> is_req p'
      \<and> gotAll p' = (k + readableBytes b = L)
      \<and> (k + readableBytes b < L \<longrightarrow> body_phase L (k + readableBytes b) p')"
    using assms by (auto simp: consumeBody_def body_phase_def gotAll_def buf_inv_retrieve Let_def)
qed

lemma forward_body:
  assumes "body_phase L k p" and "buf_inv b" and "k + readableBytes b \<le> L"
  shows "\<exists>p' b'. forward_response up p b = (readable b, p', b', k + readableBytes b = L)
    \<and> buf_inv b' \<and> readable b' = [] \<and> \<not> is_req p'
    \<and> (k + readableBytes b < L \<longrightarrow> body_phase L (k + readableBytes b) p')"
proof -
  have n: "min (readableBytes b) (bytesRemaining p) = readableBytes b"
    using consume_within(1) [OF assms] assms(3) by simp
  from consume_within(2) [OF assms] obtain p' b' where
    c: "consumeBody (readableBytes b) p b = (p', b')" "buf_inv b'" "readable b' = []" "\<not> is_req p'"
      "gotAll p' = (k + readableBytes b = L)"
      "k + readableBytes b < L \<longrightarrow> body_phase L (k + readableBytes b) p'" by blast
  have "take (readableBytes b) (readable b) = readable b" using assms(2) by simp
  with n c assms(1) have "forward_response up p b = (readable b, p', b', k + readableBytes b = L)"
    by (simp add: forward_response_def body_phase_def isExpectingBody_def gotAll_def Let_def)
  with c show ?thesis by blast
qed

lemma forward_head:
  assumes "head_phase p" and "framed h x L" and "buf_inv b" and "readable b = h @ s" and "length s \<le> L"
  shows "\<exists>p' b'. forward_response up p b = (h @ s, p', b', length s = L)
    \<and> buf_inv b' \<and> readable b' = [] \<and> \<not> is_req p' \<and> (length s < L \<longrightarrow> body_phase L (length s) p')"
proof -
  let ?p = "p\<lparr>is_req := False, header_len := length h, resp_status := rs_status x,
    content_length := L, resp_is_chunked := False\<rparr>" and ?b = "retrieve (length h) b"
  define p1 where "p1 = (if 0 < L then ?p\<lparr>hp_state := ExpectBody, got_all := False\<rparr>
    else ?p\<lparr>hp_state := GotAll, got_all := True\<rparr>)"
  have "phr_parse_response max_headers (readable b) 0 = Done (x, length h)"
    unfolding phr_parse_response_def rs.entry_Done using assms(2,4) by (auto simp: framed_def)
  then have parse: "parseResponse b p = (True, p1)"
    using assms(2) by (simp add: parseResponse_def Let_def framed_def p1_def)
  have h: "0 < length h" using framed_not_empty [OF assms(2)] by simp
  have b: "buf_inv ?b" "readable ?b = s" using assms(3,4) by (simp_all add: buf_inv_retrieve readable_retrieve)
  then have rb: "readableBytes ?b = length s" by (metis length_readable)
  have start: "\<not> isExpectingBody p" using assms(1) by (simp add: head_phase_def isExpectingBody_def)
  have hl: "header_len p1 = length h" "\<not> resp_is_chunked p1" "\<not> is_req p1" "content_length p1 = L"
    "body_bytes_read p1 = 0" "gotAll p1 = (L = 0)"
    using assms(1) by (simp_all add: p1_def head_phase_def gotAll_def)
  have head: "take (length h) (readable b) = h" using assms(4) by simp
  show ?thesis
  proof (cases "L = 0")
    case True
    with assms(5) have "s = []" by simp
    with True b rb hl h head parse start
    have "forward_response up p b = (h @ s, p1, ?b, length s = L)"
      by (simp add: forward_response_def Let_def)
    with True b hl \<open>s = []\<close> show ?thesis by (intro exI [of _ p1] exI [of _ ?b]) simp
  next
    case False
    then have bp: "body_phase L 0 p1"
      using framed_bound [OF assms(2)] hl by (simp add: body_phase_def p1_def)
    note c = consume_within [OF bp b(1)]
    have rem: "bytesRemaining p1 = L" using c(1) rb assms(5) by simp
    show ?thesis
    proof (cases "s = []")
      case True
      with False b rb hl h head parse start rem
      have "forward_response up p b = (h @ s, p1, ?b, length s = L)"
        by (simp add: forward_response_def Let_def)
      with True False b hl bp show ?thesis by (intro exI [of _ p1] exI [of _ ?b]) simp
    next
      case s: False
      from c(2) rb assms(5) obtain p' b' where
        c': "consumeBody (length s) p1 ?b = (p', b')" "buf_inv b'" "readable b' = []" "\<not> is_req p'"
          "gotAll p' = (length s = L)" "length s < L \<longrightarrow> body_phase L (length s) p'" by auto
      with s rem b rb hl h head parse start assms(5)
      have "forward_response up p b = (h @ s, p', b', length s = L)"
        by (simp add: forward_response_def Let_def min_absorb1)
      with c' show ?thesis by blast
    qed
  qed
qed

text \<open>\<open>progress\<close>: what has been received of the response is \<open>sent\<close>, the part that was forwarded, and
  \<open>pend\<close>, which waits in the buffer.\<close>

definition progress :: "bytes \<Rightarrow> nat \<Rightarrow> bytes \<Rightarrow> bytes \<Rightarrow> http_parser \<Rightarrow> bool" where
  "progress h L sent pend p \<longleftrightarrow>
     (sent = [] \<and> length pend < length h \<and> head_phase p)
     \<or> (pend = [] \<and> length h \<le> length sent \<and> body_phase L (length sent - length h) p)"

lemma append_split_le:
  "xs @ ys = zs @ us \<Longrightarrow> length xs \<le> length zs \<Longrightarrow> \<exists>t. zs = xs @ t \<and> ys = t @ us"
  by (auto simp: append_eq_append_conv2)

lemma forward_step:
  assumes pr: "progress h (length body) sent pend p" and fr: "framed h x (length body)"
    and b: "buf_inv b" "readable b = pend @ s" and msg: "h @ body = sent @ pend @ s @ rest"
  shows "\<exists>out p' b'. forward_response up p b = (out, p', b', rest = []) \<and> buf_inv b' \<and> \<not> is_req p'
    \<and> sent @ out @ readable b' = sent @ pend @ s
    \<and> (if rest = [] then readable b' = []
       else progress h (length body) (sent @ out) (readable b') p')"
proof -
  have rb: "readableBytes b = length (pend @ s)" using b by (metis length_readable)
  consider (head) "sent = []" "length (pend @ s) < length h" "head_phase p"
    | (full) s' where "sent = []" "pend @ s = h @ s'" "body = s' @ rest" "head_phase p"
    | (body) "pend = []" "length h \<le> length sent" "body_phase (length body) (length sent - length h) p"
  proof (cases "length pend < length h \<and> sent = [] \<and> head_phase p")
    case True
    show thesis
    proof (cases "length (pend @ s) < length h")
      case False
      from msg True have "h @ body = (pend @ s) @ rest" by simp
      with False append_split_le [of h body "pend @ s" rest] obtain s'
        where "pend @ s = h @ s'" "body = s' @ rest" by (metis linorder_not_less)
      with True full show thesis by blast
    qed (use True head in blast)
  qed (use pr body in \<open>auto simp: progress_def\<close>)
  then show ?thesis
  proof cases
    case head
    from msg head(1) have "h @ body = readable b @ rest" using b(2) by simp
    then obtain t where t: "h = readable b @ t" "rest = t @ body"
      using append_split_le [of "readable b" rest h body] head(2) b(2) by auto
    have "t \<noteq> []" using t(1) head(2) b(2) by auto
    from forward_partial [OF head(3) fr t(1) this, of up] obtain p' where
      "forward_response up p b = ([], p', b, False)" "head_phase p'" "\<not> is_req p'" by blast
    moreover have "rest \<noteq> []" using t(2) \<open>t \<noteq> []\<close> by simp
    ultimately show ?thesis using b head(1,2)
      by (intro exI [of _ "[]"] exI [of _ p'] exI [of _ b]) (simp add: progress_def)
  next
    case full
    from forward_head [OF full(4) fr b(1), of s' up] b(2) full(2,3) obtain p' b' where
      "forward_response up p b = (h @ s', p', b', length s' = length body)" "buf_inv b'"
      "readable b' = []" "\<not> is_req p'" "length s' < length body \<longrightarrow> body_phase (length body) (length s') p'"
      by auto
    with full show ?thesis by (auto simp: progress_def)
  next
    case body
    have e: "length sent - length h + length s + length rest = length body"
      using arg_cong [OF msg, of length] body(1,2) by simp
    with forward_body [OF body(3) b(1), of up] rb b(2) body(1) obtain p' b' where
      f: "forward_response up p b = (s, p', b', length sent - length h + length s = length body)" "buf_inv b'"
      "readable b' = []" "\<not> is_req p'"
      "length sent - length h + length s < length body
        \<longrightarrow> body_phase (length body) (length sent - length h + length s) p'" by auto
    have "(length sent - length h + length s = length body) = (rest = [])" using e by auto
    moreover have "length (sent @ s) - length h = length sent - length h + length s" using body(2) by simp
    ultimately show ?thesis using f e body(1,2)
      by (intro exI [of _ s] exI [of _ p'] exI [of _ b']) (auto simp: progress_def)
  qed
qed

section \<open>The relay of a response\<close>

text \<open>Remote client \<open>r\<close> serves client \<open>c\<close>: \<open>w\<close> differs from \<open>w0\<close> in these two objects only, \<open>sent\<close>
  has gone to the client and \<open>pend\<close> waits in the input buffer of the backend connection.\<close>

definition apart :: "nat \<Rightarrow> nat \<Rightarrow> relay \<Rightarrow> relay \<Rightarrow> bool" where
  "apart r c w0 w \<longleftrightarrow>
     (\<forall>r'. r' \<noteq> r \<longrightarrow> remotes w r' = remotes w0 r') \<and> (\<forall>c'. c' \<noteq> c \<longrightarrow> clients w c' = clients w0 c')
     \<and> next_remote w = next_remote w0 \<and> rc_target (remotes w r) = rc_target (remotes w0 r)"

definition serving :: "nat \<Rightarrow> nat \<Rightarrow> relay \<Rightarrow> bool" where
  "serving r c w \<longleftrightarrow>
     clientConn (remotes w r) = Some c \<and> is_busy (remotes w r) \<and> buf_inv (rc_input (remotes w r))
     \<and> cl_alive (clients w c) \<and> cl_state (clients w c) = kConnected"

definition relaying :: "bytes \<Rightarrow> bytes \<Rightarrow> nat \<Rightarrow> nat \<Rightarrow> relay \<Rightarrow> relay \<Rightarrow> bool" where
  "relaying sent pend r c w0 w \<longleftrightarrow>
     apart r c w0 w \<and> serving r c w \<and> readable (rc_input (remotes w r)) = pend
     \<and> cl_sent (clients w c) = cl_sent (clients w0 c) @ sent \<and> idle_map w = idle_map w0"

text \<open>The response has gone through: the client has all of it and no backend, the connection is idle.\<close>

definition relayed :: "bytes \<Rightarrow> nat \<Rightarrow> nat \<Rightarrow> relay \<Rightarrow> relay \<Rightarrow> bool" where
  "relayed msg r c w0 w \<longleftrightarrow>
     apart r c w0 w \<and> cl_sent (clients w c) = cl_sent (clients w0 c) @ msg
     \<and> cl_backend (clients w c) = None \<and> isExpectingHeader (cl_parser (clients w c))
     \<and> clientConn (remotes w r) = None \<and> \<not> is_busy (remotes w r)
     \<and> readableBytes (pendingBuffer (remotes w r)) = 0
     \<and> idle_map w = (let t = rc_target (remotes w0 r) in
          (idle_map w0)(t \<mapsto> (case idle_map w0 t of None \<Rightarrow> [] | Some vs \<Rightarrow> vs) @ [r]))"

definition has_room :: "bytes \<Rightarrow> relay \<Rightarrow> bool" where
  "has_room t w \<longleftrightarrow> (case idle_map w t of None \<Rightarrow> True | Some vs \<Rightarrow> length vs < max_conns)"

lemma serving_bound: "serving r c w \<Longrightarrow> bound_client r w = Some c"
  by (simp add: serving_def bound_client_def)

lemma relay_more:
  assumes w: "relaying sent pend r c w0 w"
    and f: "forward_response True (cl_parser (clients w c)) (rc_input (remotes w r)) = (out, p', b', False)"
    and b: "buf_inv b'"
  shows "\<exists>w'. remote_onMessage r w = Some w' \<and> relaying (sent @ out) (readable b') r c w0 w'
    \<and> cl_parser (clients w' c) = p'"
proof -
  have sv: "serving r c w" using w by (simp add: relaying_def)
  then have "remote_onMessage r w = Some (upd_remote r (\<lambda>rc. rc\<lparr>rc_input := b'\<rparr>)
      (upd_client c (\<lambda>c. (client_send out c)\<lparr>cl_parser := p'\<rparr>) w))"
    using serving_bound [OF sv] f by (simp add: remote_onMessage_def Let_def serving_def)
  with w b show ?thesis
    by (auto simp: relaying_def apart_def serving_def upd_remote_def upd_client_def client_send_def)
qed

lemma relay_last:
  assumes w: "relaying sent pend r c w0 w" and room: "has_room (rc_target (remotes w0 r)) w0"
    and f: "forward_response True (cl_parser (clients w c)) (rc_input (remotes w r)) = (out, p', b', True)"
    and p: "\<not> is_req p'"
  shows "\<exists>w'. remote_onMessage r w = Some w' \<and> relayed (sent @ out) r c w0 w'"
proof -
  define w1 where "w1 = upd_client c ctx_reset (upd_remote r (\<lambda>rc. rc\<lparr>rc_input := b'\<rparr>)
      (upd_client c (\<lambda>c. (client_send out c)\<lparr>cl_parser := p'\<rparr>) w))"
  have sv: "serving r c w" using w by (simp add: relaying_def)
  then have m: "remote_onMessage r w = returnConnection (rc_target (remotes w r)) r w1"
    using serving_bound [OF sv] f
    by (simp add: remote_onMessage_def Let_def serving_def w1_def upd_client_def upd_remote_def)
  have "idle_map w1 = idle_map w0" "rc_target (remotes w r) = rc_target (remotes w0 r)"
    using w by (simp_all add: w1_def relaying_def apart_def upd_client_def upd_remote_def)
  moreover have "apart r c w0 w1" "cl_sent (clients w1 c) = cl_sent (clients w0 c) @ sent @ out"
    "cl_backend (clients w1 c) = None" "isExpectingHeader (cl_parser (clients w1 c))"
    using w sv p
    by (auto simp: w1_def relaying_def apart_def serving_def upd_client_def upd_remote_def client_send_def
        ctx_reset_def Let_def reset_def isExpectingHeader_def)
  ultimately show ?thesis
    using m room by (cases "idle_map w0 (rc_target (remotes w0 r))")
      (auto simp: returnConnection_def Let_def upd_remote_def relayed_def apart_def has_room_def
        setUnbusy_def unbind_def clearPendingBuffer_def retrieveAll_def readableBytes_def max_conns_def)
qed

lemma relay_segment:
  assumes w: "relaying sent pend r c w0 w" and room: "has_room (rc_target (remotes w0 r)) w0"
    and pr: "progress h (length body) sent pend (cl_parser (clients w c))"
    and fr: "framed h x (length body)" and msg: "h @ body = sent @ pend @ s @ rest"
  shows "\<exists>w'. backend_data s r w = Some w'
    \<and> (if rest = [] then relayed (h @ body) r c w0 w'
       else \<exists>sent' pend'. relaying sent' pend' r c w0 w' \<and> sent' @ pend' = sent @ pend @ s
         \<and> progress h (length body) sent' pend' (cl_parser (clients w' c)))"
proof -
  let ?w = "upd_remote r (\<lambda>rc. rc\<lparr>rc_input := append_data s (rc_input rc)\<rparr>) w"
  let ?b = "append_data s (rc_input (remotes w r))"
  have b: "buf_inv ?b" "readable ?b = pend @ s"
    using w by (simp_all add: relaying_def serving_def append_data_props)
  from forward_step [OF pr fr b msg] obtain out p' b' where
    f: "forward_response True (cl_parser (clients w c)) ?b = (out, p', b', rest = [])" "buf_inv b'" "\<not> is_req p'"
      "sent @ out @ readable b' = sent @ pend @ s"
      "if rest = [] then readable b' = [] else progress h (length body) (sent @ out) (readable b') p'"
    by blast
  have w': "relaying sent (pend @ s) r c w0 ?w"
    using w b by (auto simp: relaying_def apart_def serving_def upd_remote_def)
  have same: "cl_parser (clients ?w c) = cl_parser (clients w c)" "rc_input (remotes ?w r) = ?b"
    by (simp_all add: upd_remote_def)
  show ?thesis
  proof (cases "rest = []")
    case True
    with f msg have "sent @ out = h @ body" by simp
    with relay_last [OF w' room, unfolded same, of out p' b'] f(1,3) True show ?thesis
      by (simp add: backend_data_def)
  next
    case False
    with relay_more [OF w', unfolded same, of out p' b'] f obtain w2 where
      "backend_data s r w = Some w2" "relaying (sent @ out) (readable b') r c w0 w2"
      "cl_parser (clients w2 c) = p'" by (auto simp: backend_data_def)
    with False f(4,5) show ?thesis
      by (intro exI [of _ w2] conjI) (simp, simp, intro exI [of _ "sent @ out"] exI [of _ "readable b'"], simp)
  qed
qed

lemma relay_segments:
  assumes room: "has_room (rc_target (remotes w0 r)) w0" and fr: "framed h x (length body)"
  shows "relaying sent pend r c w0 w \<Longrightarrow> progress h (length body) sent pend (cl_parser (clients w c)) \<Longrightarrow>
    ss \<noteq> [] \<Longrightarrow> \<forall>s \<in> set ss. s \<noteq> [] \<Longrightarrow> h @ body = sent @ pend @ concat ss \<Longrightarrow>
    \<exists>w'. backend_segments ss r w = Some w' \<and> relayed (h @ body) r c w0 w'"
proof (induction ss arbitrary: sent pend w)
  case (Cons s ss)
  have "h @ body = sent @ pend @ s @ concat ss" using Cons.prems(5) by simp
  from relay_segment [OF Cons.prems(1) room Cons.prems(2) fr this] obtain w1 where
    d: "backend_data s r w = Some w1" and
    o: "if concat ss = [] then relayed (h @ body) r c w0 w1
       else \<exists>sent' pend'. relaying sent' pend' r c w0 w1 \<and> sent' @ pend' = sent @ pend @ s
         \<and> progress h (length body) sent' pend' (cl_parser (clients w1 c))" by blast
  show ?case
  proof (cases "ss = []")
    case False
    with Cons.prems(4) have "concat ss \<noteq> []" by (cases ss) auto
    with o have "\<exists>sent' pend'. relaying sent' pend' r c w0 w1 \<and> sent' @ pend' = sent @ pend @ s
        \<and> progress h (length body) sent' pend' (cl_parser (clients w1 c))" by (simp only: if_False)
    then obtain sent' pend' where n: "relaying sent' pend' r c w0 w1"
      "progress h (length body) sent' pend' (cl_parser (clients w1 c))" "sent' @ pend' = sent @ pend @ s"
      by blast
    have "h @ body = sent' @ pend' @ concat ss"
      using Cons.prems(5) n(3) by (metis append.assoc concat.simps(2))
    from Cons.IH [OF n(1,2) False _ this] Cons.prems(4) d show ?thesis by simp
  qed (use d o in simp)
qed simp

text \<open>
  C4. A backend's response with a \<open>Content-Length\<close> reaches the client byte for byte, in whatever
  segments it arrives, and no other connection is touched; with its last byte the client's parser
  waits for the next head, the client is released and the backend connection goes idle in the pool.
\<close>

theorem response_relayed:
  assumes "serving r c w" and "isExpectingHeader (cl_parser (clients w c))"
    and "body_bytes_read (cl_parser (clients w c)) = 0" and "readable (rc_input (remotes w r)) = []"
    and "has_room (rc_target (remotes w r)) w"
    and "framed h x (length body)" and "concat segs = h @ body" and "\<forall>s \<in> set segs. s \<noteq> []"
  shows "\<exists>w'. backend_segments segs r w = Some w' \<and> relayed (h @ body) r c w w'"
proof (rule relay_segments [OF assms(5,6)])
  show "relaying [] [] r c w w" using assms(1,4) by (simp add: relaying_def apart_def)
  show "progress h (length body) [] [] (cl_parser (clients w c))"
    using assms(2,3) framed_not_empty [OF assms(6)]
    by (simp add: progress_def head_phase_def isExpectingHeader_def)
  show "segs \<noteq> []" using assms(7) framed_not_empty [OF assms(6)] by auto
qed (use assms in simp_all)


section \<open>A connection serves one client at a time\<close>

text \<open>\<open>LB_Server::onMessage\<close> borrows and binds; a response, which needs a live connection, returns;
  the connection goes up and down; the error callback comes later, from the loop's queue.\<close>

datatype pool_op = Borrow bytes nat | Finish nat | Up nat | Down nat | Erase nat

definition relay_new :: "(nat \<Rightarrow> client_conn) \<Rightarrow> relay" where
  "relay_new cs = \<lparr>remotes = (\<lambda>_. remote_new []), next_remote = 0, idle_map = Map.empty, clients = cs\<rparr>"

definition borrow_bind :: "bytes \<Rightarrow> nat \<Rightarrow> relay \<Rightarrow> (nat \<times> relay) option" where
  "borrow_bind t c w =
     (case borrowConnection t w of
        None \<Rightarrow> None
      | Some (r, w1) \<Rightarrow> Some (r, upd_remote r (bindClient c) w1))"

fun pool_step :: "pool_op \<Rightarrow> relay \<Rightarrow> relay option" where
  "pool_step (Borrow t c) w = map_option snd (borrow_bind t c w)"
| "pool_step (Finish r) w =
     (if is_busy (remotes w r) \<and> rc_conn (remotes w r) \<noteq> None
      then returnConnection (rc_target (remotes w r)) r w else None)"
| "pool_step (Up r) w = Some (backend_up r w)"
| "pool_step (Down r) w = Some (backend_down r w)"
| "pool_step (Erase r) w = Some (eraseConnection r w)"

fun pool_run :: "pool_op list \<Rightarrow> relay \<Rightarrow> relay option" where
  "pool_run [] w = Some w"
| "pool_run (x # xs) w = (case pool_step x w of None \<Rightarrow> None | Some w1 \<Rightarrow> pool_run xs w1)"

definition idle_ok :: "relay \<Rightarrow> bytes \<Rightarrow> nat \<Rightarrow> bool" where
  "idle_ok w t r \<longleftrightarrow>
     r < next_remote w \<and> rc_target (remotes w r) = t \<and> \<not> is_busy (remotes w r)
     \<and> clientConn (remotes w r) = None \<and> readableBytes (pendingBuffer (remotes w r)) = 0"

definition pool_inv :: "relay \<Rightarrow> bool" where
  "pool_inv w \<longleftrightarrow>
     (\<forall>t vs. idle_map w t = Some vs \<longrightarrow>
        length vs \<le> max_conns \<and> distinct vs \<and> (\<forall>r \<in> set vs. idle_ok w t r))
     \<and> (\<forall>r. is_busy (remotes w r) \<longrightarrow> r < next_remote w)"

lemma pool_invD:
  assumes "pool_inv w" and "idle_map w t = Some vs"
  shows "length vs \<le> max_conns" "distinct vs" "r \<in> set vs \<Longrightarrow> idle_ok w t r"
  using assms by (auto simp: pool_inv_def)

lemma pool_inv_busy: "pool_inv w \<Longrightarrow> is_busy (remotes w r) \<Longrightarrow> r < next_remote w"
  by (simp add: pool_inv_def)

lemma busy_not_idle:
  "pool_inv w \<Longrightarrow> is_busy (remotes w r) \<Longrightarrow> idle_map w t = Some vs \<Longrightarrow> r \<notin> set vs"
  using pool_invD(3) by (auto simp: idle_ok_def)

text \<open>Operations that leave the lists and what idle connections show alone.\<close>

lemma pool_inv_frame:
  assumes "pool_inv w" and "idle_map w' = idle_map w" and "next_remote w' = next_remote w"
    and "\<And>r. is_busy (remotes w' r) = is_busy (remotes w r) \<and> rc_target (remotes w' r) = rc_target (remotes w r)
      \<and> clientConn (remotes w' r) = clientConn (remotes w r)
      \<and> (readableBytes (pendingBuffer (remotes w r)) = 0 \<longrightarrow> readableBytes (pendingBuffer (remotes w' r)) = 0)"
  shows "pool_inv w'"
  using assms by (auto simp: pool_inv_def idle_ok_def)

lemma backend_up_inv: "pool_inv w \<Longrightarrow> pool_inv (backend_up r w)"
  by (erule pool_inv_frame)
    (auto simp: backend_up_def upd_remote_def retrieveAll_def readableBytes_def)

lemma backend_down_inv: "pool_inv w \<Longrightarrow> pool_inv (backend_down r w)"
  by (erule pool_inv_frame)
    (auto simp: backend_down_def upd_remote_def upd_client_def Let_def split: option.split)

lemma eraseConnection_inv:
  assumes "pool_inv w"
  shows "pool_inv (eraseConnection r w)"
proof (cases "idle_map w (rc_target (remotes w r))")
  case (Some vs)
  have "length (removeAll r vs) \<le> max_conns" "distinct (removeAll r vs)"
    using pool_invD(1,2) [OF assms Some] le_trans [OF length_filter_le]
    by (simp_all add: removeAll_filter_not_eq)
  then show ?thesis
    using assms Some pool_invD(3) [OF assms Some]
    by (auto simp: eraseConnection_def pool_inv_def idle_ok_def)
qed (use assms in \<open>simp add: eraseConnection_def\<close>)

lemma returnConnection_inv:
  assumes inv: "pool_inv w" and busy: "is_busy (remotes w r)" and t: "t = rc_target (remotes w r)"
    and ret: "returnConnection t r w = Some w'"
  shows "pool_inv w'"
proof -
  define vs where "vs = (case idle_map w t of None \<Rightarrow> [] | Some vs \<Rightarrow> vs)"
  have vs: "distinct vs" "\<forall>x \<in> set vs. idle_ok w t x" "length vs \<le> max_conns" "r \<notin> set vs"
    using pool_invD [OF inv] busy_not_idle [OF inv busy] by (cases "idle_map w t"; simp add: vs_def)+
  define rc where "rc = clearPendingBuffer (setUnbusy (unbind (remotes w r)))"
  have rc: "rc_target rc = t" "\<not> is_busy rc" "clientConn rc = None" "readableBytes (pendingBuffer rc) = 0"
    using t by (simp_all add: rc_def clearPendingBuffer_def setUnbusy_def unbind_def retrieveAll_def
        readableBytes_def)
  obtain us rc' where w': "w' = w\<lparr>remotes := (remotes w)(r := rc'), idle_map := (idle_map w)(t \<mapsto> us)\<rparr>"
    "rc_target rc' = t" "\<not> is_busy rc'" "clientConn rc' = None" "readableBytes (pendingBuffer rc') = 0"
    "us = vs \<or> us = vs @ [r] \<and> length vs < max_conns"
  proof (cases "length vs < max_conns")
    case True
    with ret that [of "vs @ [r]" rc] rc show thesis
      by (simp add: returnConnection_def Let_def upd_remote_def vs_def rc_def)
  next
    case False
    with ret obtain rc' where "tc_disconnect rc = Some rc'"
      "w' = w\<lparr>remotes := (remotes w)(r := rc'), idle_map := (idle_map w)(t \<mapsto> vs)\<rparr>"
      by (auto simp: returnConnection_def Let_def upd_remote_def vs_def rc_def)
    with that [of vs rc'] rc show thesis
      by (auto simp: tc_disconnect_def split: option.splits if_splits)
  qed
  have us: "distinct us" "length us \<le> max_conns" "set us \<subseteq> insert r (set vs)"
    using w'(6) vs by auto
  have lt: "r < next_remote w" using pool_inv_busy [OF inv busy] .
  have "idle_ok w' t x" if "x \<in> set us" for x
    using that us(3) vs(2) w'(1-5) lt by (auto simp: idle_ok_def)
  moreover have "idle_ok w' t' x" if "idle_map w t' = Some ys" "x \<in> set ys" for t' ys x
    using pool_invD(3) [OF inv that] busy w'(1-5) by (auto simp: idle_ok_def)
  ultimately show ?thesis
    using pool_invD(1,2) [OF inv] pool_inv_busy [OF inv] us(1,2) w'(1,3)
    by (auto simp: pool_inv_def split: if_splits)
qed

lemma borrow_cases:
  assumes inv: "pool_inv w" and b: "borrowConnection t w = Some (r, w')"
  shows "pool_inv w'" and "\<not> is_busy (remotes w r)" and "is_busy (remotes w' r)"
    and "rc_target (remotes w' r) = t" and "\<forall>r'. r' \<noteq> r \<longrightarrow> remotes w' r' = remotes w r'"
proof -
  have "pool_inv w' \<and> \<not> is_busy (remotes w r) \<and> is_busy (remotes w' r) \<and> rc_target (remotes w' r) = t
    \<and> (\<forall>r'. r' \<noteq> r \<longrightarrow> remotes w' r' = remotes w r')"
  proof (cases "\<exists>x xs. idle_map w t = Some (x # xs)")
    case True
    then obtain x xs where m: "idle_map w t = Some (x # xs)" by blast
    let ?vs = "x # xs"
    have r: "r = last ?vs" and w': "w' = w\<lparr>idle_map := (idle_map w)(t \<mapsto> butlast ?vs),
        remotes := (remotes w)(r := setbusy (remotes w r))\<rparr>"
      using b m by (auto simp: borrowConnection_def Let_def upd_remote_def)
    have split: "?vs = butlast ?vs @ [r]" using r by simp
    have ok: "idle_ok w t r" using pool_invD(3) [OF inv m] r by simp
    have "distinct (butlast ?vs @ [r])" using pool_invD(2) [OF inv m] by (simp only: split [symmetric])
    then have d: "distinct (butlast ?vs)" "r \<notin> set (butlast ?vs)"
      by (simp_all del: butlast.simps)
    have "idle_ok w' t' y" if "idle_map w' t' = Some ys" "y \<in> set ys" for t' ys y
    proof (cases "t' = t")
      case True
      with that w' d(2) have "y \<in> set ?vs" "y \<noteq> r" by (auto simp del: butlast.simps dest: in_set_butlastD)
      with pool_invD(3) [OF inv m] True w' show ?thesis by (simp add: idle_ok_def)
    next
      case False
      with that w' pool_invD(3) [OF inv] have "idle_ok w t' y" by simp
      with False ok w' show ?thesis by (auto simp: idle_ok_def)
    qed
    moreover have "length ys \<le> max_conns \<and> distinct ys" if "idle_map w' t' = Some ys" for t' ys
      using that w' d(1) pool_invD(1,2) [OF inv m] pool_invD(1,2) [OF inv]
      by (auto simp del: butlast.simps split: if_splits)
    moreover have "y < next_remote w'" if "is_busy (remotes w' y)" for y
      using that w' ok pool_inv_busy [OF inv] by (auto simp: idle_ok_def split: if_splits)
    ultimately show ?thesis using ok w' by (auto simp: pool_inv_def idle_ok_def setbusy_def)
  next
    case False
    then have "w' = w\<lparr>remotes := (remotes w)(r := setbusy (remote_new t)), next_remote := r + 1\<rparr> \<and> r = next_remote w"
      using b by (auto simp: borrowConnection_def Let_def split: option.splits list.splits)
    then have w': "w' = w\<lparr>remotes := (remotes w)(r := setbusy (remote_new t)), next_remote := r + 1\<rparr>"
      "r = next_remote w" by auto
    have "\<not> is_busy (remotes w r)" using pool_inv_busy [OF inv, of r] w'(2) by auto
    moreover have "idle_ok w' t' y" if "idle_map w t' = Some ys" "y \<in> set ys" for t' ys y
      using pool_invD(3) [OF inv that] w' by (auto simp: idle_ok_def)
    ultimately show ?thesis
      using w' pool_invD(1,2) [OF inv] pool_inv_busy [OF inv]
      by (auto simp: pool_inv_def setbusy_def remote_new_def less_Suc_eq split: if_splits)
  qed
  then show "pool_inv w'" "\<not> is_busy (remotes w r)" "is_busy (remotes w' r)" "rc_target (remotes w' r) = t"
    "\<forall>r'. r' \<noteq> r \<longrightarrow> remotes w' r' = remotes w r'" by blast+
qed

lemma pool_step_inv:
  assumes "pool_inv w" and "pool_step x w = Some w'"
  shows "pool_inv w'"
proof (cases x)
  case (Borrow t c)
  with assms(2) obtain r w1 where w1: "borrowConnection t w = Some (r, w1)" "w' = upd_remote r (bindClient c) w1"
    by (auto simp: borrow_bind_def split: option.splits prod.splits)
  note b = borrow_cases [OF assms(1) w1(1)]
  have "idle_ok w' t' y" if "idle_map w1 t' = Some ys" "y \<in> set ys" for t' ys y
    using pool_invD(3) [OF b(1) that] b(3) w1(2) by (auto simp: idle_ok_def upd_remote_def)
  with pool_invD(1,2) [OF b(1)] pool_inv_busy [OF b(1)] b(3) w1(2) show ?thesis
    by (auto simp: pool_inv_def upd_remote_def split: if_splits)
next
  case (Finish r)
  with assms returnConnection_inv [OF assms(1) _ refl] show ?thesis by (auto split: if_splits)
qed (use assms backend_up_inv backend_down_inv eraseConnection_inv in auto)

lemma pool_run_inv: "pool_inv w \<Longrightarrow> pool_run xs w = Some w' \<Longrightarrow> pool_inv w'"
  by (induction xs arbitrary: w) (auto dest: pool_step_inv split: option.splits)

lemma relay_new_inv: "pool_inv (relay_new cs)"
  by (simp add: pool_inv_def relay_new_def remote_new_def)

text \<open>The key the selector's address gives finds the address again, so that borrowing never throws.\<close>

lemma digit_not_colon: "is_digit c \<Longrightarrow> c \<noteq> CHR '':''"
  by (auto simp: is_digit_def less_eq_char_def)

lemma parse_target_toIpPort:
  assumes "addr_port a < 2 ^ 16"
  shows "parse_target (toIpPort a) = Some a"
proof -
  let ?n = "to_string (addr_port a)"
  have d: "\<forall>c \<in> set ?n. is_digit c" "?n \<noteq> []" "dec_value ?n = addr_port a" by (rule to_string_value)+
  have "takeWhile (\<lambda>c. c \<noteq> CHR '':'') (rev (toIpPort a)) = rev ?n"
  proof -
    have "takeWhile (\<lambda>c. c \<noteq> CHR '':'') (rev ?n @ CHR '':'' # rev (addr_ip a)) = rev ?n"
      using d(1) digit_not_colon by (subst takeWhile_append2) auto
    then show ?thesis by (simp add: toIpPort_def)
  qed
  moreover have tw: "takeWhile is_digit ?n = ?n"
    by (rule takeWhile_eq_all_conv [THEN iffD2, OF d(1)])
  moreover have "addr_port a mod 2 ^ 16 = addr_port a" "addr_port a < 2 ^ 31"
    using assms by simp_all
  ultimately show ?thesis using d(2,3) unfolding parse_target_def Let_def
    by (simp only: rev_rev_ident tw) (simp add: toIpPort_def)
qed

lemma borrow_total: "addr_port a < 2 ^ 16 \<Longrightarrow> borrowConnection (toIpPort a) w \<noteq> None"
  by (simp add: borrowConnection_def parse_target_toIpPort Let_def split: option.split list.split)

text \<open>
  C6. After any history of borrowing, finished responses, connections that come up, break and are
  erased: a pool keeps at most ten idle connections per target, each once, to that target, without
  client and without pending bytes; borrowing gives out a connection that is serving nobody, takes
  it out of every list, and succeeds for every address a selector can return.
\<close>

theorem pool_exclusive:
  assumes "pool_run ops (relay_new cs) = Some w"
  shows "(\<forall>t vs. idle_map w t = Some vs \<longrightarrow>
        length vs \<le> 10 \<and> distinct vs \<and> (\<forall>r \<in> set vs. idle_ok w t r))
    \<and> (\<forall>t r w'. borrowConnection t w = Some (r, w') \<longrightarrow>
        \<not> is_busy (remotes w r) \<and> rc_target (remotes w' r) = t
        \<and> (\<forall>t' vs. idle_map w' t' = Some vs \<longrightarrow> r \<notin> set vs))
    \<and> (\<forall>a. addr_port a < 2 ^ 16 \<longrightarrow> borrowConnection (toIpPort a) w \<noteq> None)"
proof -
  have inv: "pool_inv w" using pool_run_inv [OF relay_new_inv assms] .
  have "\<not> is_busy (remotes w r) \<and> rc_target (remotes w' r) = t
      \<and> (\<forall>t' vs. idle_map w' t' = Some vs \<longrightarrow> r \<notin> set vs)"
    if "borrowConnection t w = Some (r, w')" for t r w'
    using borrow_cases [OF inv that] busy_not_idle by blast
  with pool_invD [OF inv] borrow_total show ?thesis by (auto simp: max_conns_def)
qed

text \<open>A broken connection stays in its list until the loop runs the error callback: borrowed before
  that, it is a dead one, and what is sent to it waits in \<open>pendingBuffer\<close>.\<close>

lemma dead_connection_borrowed:
  assumes "idle_map w t = Some (xs @ [r])" and "\<not> is_busy (remotes w r)"
  shows "\<exists>w'. borrow_bind t c (backend_down r w) = Some (r, w') \<and> rc_conn (remotes w' r) = None
    \<and> readable (pendingBuffer (sendToBackend data (remotes w' r)))
        = readable (append_data data (pendingBuffer (remotes w r)))"
proof -
  have "backend_down r w = upd_remote r (\<lambda>rc. rc\<lparr>rc_conn := None\<rparr>) w"
    using assms(2) by (simp add: backend_down_def)
  moreover from assms(1) obtain y ys where "xs @ [r] = y # ys" by (cases "xs @ [r]") simp_all
  moreover from this have "last (y # ys) = r" by (metis last_snoc)
  ultimately show ?thesis using assms(1)
    by (simp add: borrow_bind_def borrowConnection_def Let_def upd_remote_def setbusy_def bindClient_def
        sendToBackend_def tc_send_def)
qed

definition pool_client :: client_conn where
  "pool_client = \<lparr>cl_state = kConnected, cl_alive = True, cl_parser = parser_new, cl_backend = Some 0,
     cl_input = buffer_new 0, cl_sent = []\<rparr>"

theorem pool_exclusive_witness:
  "\<exists>w. pool_run [Borrow ''h:80'' 0, Up 0, Finish 0, Borrow ''h:80'' 1] (relay_new (\<lambda>_. pool_client)) = Some w
    \<and> is_busy (remotes w 0) \<and> clientConn (remotes w 0) = Some 1
    \<and> (\<forall>r w'. borrowConnection ''h:80'' w = Some (r, w') \<longrightarrow> \<not> is_busy (remotes w r) \<and> r \<noteq> 0)"
proof -
  have p: "parse_target ''h:80'' = Some \<lparr>addr_ip = ''h'', addr_port = 80\<rparr>"
  proof -
    have "toIpPort \<lparr>addr_ip = ''h'', addr_port = 80\<rparr> = ''h:80''" by code_simp
    then show ?thesis using parse_target_toIpPort [of "\<lparr>addr_ip = ''h'', addr_port = 80\<rparr>"] by simp
  qed
  define w1 where "w1 = (relay_new (\<lambda>_. pool_client))\<lparr>remotes := (\<lambda>_. remote_new [])(0 := bindClient 0 (setbusy (remote_new ''h:80''))),
    next_remote := 1\<rparr>"
  have s1: "pool_step (Borrow ''h:80'' 0) (relay_new (\<lambda>_. pool_client)) = Some w1"
    using p by (simp add: borrow_bind_def borrowConnection_def relay_new_def Let_def upd_remote_def w1_def)
  define w2 where "w2 = backend_up 0 w1"
  have w2: "is_busy (remotes w2 0)" "rc_conn (remotes w2 0) = Some kConnected" "rc_target (remotes w2 0) = ''h:80''"
    "idle_map w2 = Map.empty"
    by (simp_all add: w2_def backend_up_def w1_def upd_remote_def bindClient_def setbusy_def remote_new_def relay_new_def)
  define w3 where "w3 = w2\<lparr>remotes := (remotes w2)(0 := clearPendingBuffer (setUnbusy (unbind (remotes w2 0)))),
    idle_map := [''h:80'' \<mapsto> [0]]\<rparr>"
  have s3: "pool_step (Finish 0) w2 = Some w3"
    using w2 by (simp add: returnConnection_def Let_def upd_remote_def max_conns_def w3_def)
  have "borrow_bind ''h:80'' 1 w3
      = Some (0, upd_remote 0 (bindClient 1) (upd_remote 0 setbusy (w3\<lparr>idle_map := [''h:80'' \<mapsto> []]\<rparr>)))"
    by (simp add: borrow_bind_def borrowConnection_def Let_def w3_def)
  then have "\<exists>w. pool_run [Borrow ''h:80'' 0, Up 0, Finish 0, Borrow ''h:80'' 1] (relay_new (\<lambda>_. pool_client)) = Some w
      \<and> is_busy (remotes w 0) \<and> clientConn (remotes w 0) = Some 1"
    using s1 s3 by (simp add: w2_def [symmetric] upd_remote_def bindClient_def del: pool_step.simps(1,2))
      (simp add: upd_remote_def)
  then obtain w where w: "pool_run [Borrow ''h:80'' 0, Up 0, Finish 0, Borrow ''h:80'' 1] (relay_new (\<lambda>_. pool_client)) = Some w"
    "is_busy (remotes w 0)" "clientConn (remotes w 0) = Some 1" by blast
  with pool_exclusive [OF w(1)] show ?thesis by metis
qed

lemma framed_respond:
  assumes "100 \<le> status" and "status \<le> 999" and "length body < 2 ^ 64" and "clean_field (''Content-Type'', contentType)"
  shows "\<exists>h x. respond status body contentType = h @ body \<and> framed h x (length body)"
proof -
  from respond_head [OF assms(1,2,4)] obtain h i where
    "respond status body contentType = h @ body" "response_head max_headers h
      \<lparr>rs_minor = 1, rs_status = status, rs_msg = reason_phrase status,
       rs_headers = fields_at i (respond_fields body contentType), msg_ptr = 13\<rparr>" by blast
  with respond_framing [OF assms(3), of i contentType] show ?thesis by (auto simp: framed_def)
qed

definition sample_relay :: relay where
  "sample_relay = upd_remote 0 (\<lambda>_. (bindClient 0 (remote_new ''h:80''))\<lparr>rc_conn := Some kConnected\<rparr>)
     (relay_new (\<lambda>_. pool_client))"

theorem response_relayed_witness:
  "\<exists>w. backend_segments [take 5 (respond 200 ''hi'' ''text/plain''), drop 5 (respond 200 ''hi'' ''text/plain'')]
      0 sample_relay = Some w
    \<and> cl_sent (clients w 0) = respond 200 ''hi'' ''text/plain'' \<and> idle_map w = [''h:80'' \<mapsto> [0]]"
proof -
  define m where "m = respond 200 ''hi'' ''text/plain''"
  have "clean_field (''Content-Type'', ''text/plain'')" by code_simp
  then obtain h x where h: "m = h @ ''hi''" "framed h x (length ''hi'')"
    using framed_respond [of 200 "''hi''" "''text/plain''"] by (auto simp: m_def)
  have seg: "concat [take 5 m, drop 5 m] = h @ ''hi''" using h(1) [symmetric] by simp
  have ne: "\<forall>s \<in> set [take 5 m, drop 5 m]. s \<noteq> []" by (simp add: m_def respond_def)
  have "serving 0 0 sample_relay" "isExpectingHeader (cl_parser (clients sample_relay 0))"
    "body_bytes_read (cl_parser (clients sample_relay 0)) = 0"
    "readable (rc_input (remotes sample_relay 0)) = []" "has_room (rc_target (remotes sample_relay 0)) sample_relay"
    by (simp_all add: serving_def pool_client_def sample_relay_def upd_remote_def bindClient_def remote_new_def relay_new_def
        buf_inv_new isExpectingHeader_def readable_new has_room_def)
  from response_relayed [OF this h(2) seg ne] obtain w
    where w: "backend_segments [take 5 m, drop 5 m] 0 sample_relay = Some w"
      "relayed m 0 0 sample_relay w" unfolding h(1) [symmetric] by blast
  have "cl_sent (clients sample_relay 0) = []" "idle_map sample_relay = Map.empty"
    "rc_target (remotes sample_relay 0) = ''h:80''"
    by (simp_all add: sample_relay_def pool_client_def upd_remote_def bindClient_def remote_new_def relay_new_def)
  with w show ?thesis unfolding m_def [symmetric] relayed_def Let_def by simp
qed

end
