(* ===== verification/L7_Gateway.thy ===== *)
theory L7_Gateway
  imports L7_Pool Selector Api_Key_Auth Token_Bucket
begin

text \<open>
  The HTTP gateway, \<open>LB_Server\<close> of \<^verbatim>\<open>Proxy/src/L7/LB_Server.h\<close>, with \<open>HttpContext\<close> of
  \<^verbatim>\<open>Proxy/src/L7/HttpContext.h\<close> and \<^verbatim>\<open>Proxy/src/L7/HttpContext.cc\<close>: admission of a request
  (API key, rate limits, known path), the choice of a backend by consistent hashing, and the
  forwarding of the request, head and body, to a connection of the thread's pool.

  The selectors share the store of nodes of \<open>Selector\<close>; \<open>std::hash\<close> is the parameter \<open>hash\<close>, the
  clock reading of the rate limiters is the argument \<open>now\<close>. Using a null pointer is \<open>None\<close>.
\<close>

section \<open>State and configuration\<close>

record gateway =
  g_relay :: relay
  im_selector :: selector
  default_llm :: "selector option"
  route_table :: "bytes \<Rightarrow> selector option"
  auth :: authenticator
  llm_limiter :: token_bucket
  im_limiter :: token_bucket

definition gateway_new ::
  "(bytes \<Rightarrow> u64) \<Rightarrow> node_store \<Rightarrow> nat list \<Rightarrow> (nat \<Rightarrow> client_conn) \<Rightarrow> gateway" where
  "gateway_new hash st ns cs =
     \<lparr>g_relay = relay_new cs, im_selector = fold (addNode hash) ns (selector_new st),
      default_llm = None, route_table = Map.empty, auth = auth_new,
      llm_limiter = token_bucket_new 8192 2048, im_limiter = token_bucket_new 10000 5000\<rparr>"

definition addModelNode ::
  "(bytes \<Rightarrow> u64) \<Rightarrow> node_store \<Rightarrow> bytes \<Rightarrow> nat \<Rightarrow> gateway \<Rightarrow> gateway" where
  "addModelNode hash st model_name node g =
     (case route_table g model_name of
        None \<Rightarrow> g\<lparr>route_table := (route_table g)(model_name \<mapsto> addNode hash node (selector_new st))\<rparr>
      | Some s \<Rightarrow> g\<lparr>route_table := (route_table g)(model_name \<mapsto> addNode hash node s)\<rparr>)"

definition addDefaultLlmNode ::
  "(bytes \<Rightarrow> u64) \<Rightarrow> node_store \<Rightarrow> nat \<Rightarrow> gateway \<Rightarrow> gateway" where
  "addDefaultLlmNode hash st node g =
     (let s = (case default_llm g of None \<Rightarrow> selector_new st | Some s \<Rightarrow> s)
      in g\<lparr>default_llm := Some (addNode hash node s)\<rparr>)"

definition loadKeys :: "bytes list \<Rightarrow> gateway \<Rightarrow> gateway" where
  "loadKeys ks g = g\<lparr>auth := auth_load ks (auth g)\<rparr>"

definition updateRateLimit :: "bytes \<Rightarrow> u32 \<Rightarrow> u32 \<Rightarrow> u32 \<Rightarrow> gateway \<Rightarrow> gateway" where
  "updateRateLimit cluster_name new_cap new_rate now g =
     (if cluster_name = ''llm'' then g\<lparr>llm_limiter := update_bucket new_cap new_rate now (llm_limiter g)\<rparr>
      else if cluster_name = ''im'' then g\<lparr>im_limiter := update_bucket new_cap new_rate now (im_limiter g)\<rparr>
      else g)"

text \<open>\<open>onConnection\<close> of a new client: a fresh context.\<close>

definition client_up :: "nat \<Rightarrow> gateway \<Rightarrow> gateway" where
  "client_up c g =
     g\<lparr>g_relay := upd_client c (\<lambda>cl. cl\<lparr>cl_state := kConnected, cl_parser := parser_new, cl_backend := None\<rparr>)
        (g_relay g)\<rparr>"

section \<open>Admission and the choice of a backend\<close>

definition starts_with :: "bytes \<Rightarrow> bytes \<Rightarrow> bool" where
  "starts_with p s \<longleftrightarrow> take (length p) s = p"

text \<open>\<open>parseModelName\<close>: the string after the first \<^verbatim>\<open>"model"\<close>, looked up in what has arrived of the body.\<close>

definition model_key :: bytes where
  "model_key = [CHR 0x22] @ ''model'' @ [CHR 0x22]"

definition model_in :: "bytes \<Rightarrow> bytes" where
  "model_in body =
     (case sv_find body model_key 0 of
        None \<Rightarrow> []
      | Some pos \<Rightarrow>
          (case sv_find body '':'' pos of
             None \<Rightarrow> []
           | Some colon \<Rightarrow>
               (case sv_find body [CHR 0x22] colon of
                  None \<Rightarrow> []
                | Some start_quote \<Rightarrow>
                    (case sv_find body [CHR 0x22] (start_quote + 1) of
                       None \<Rightarrow> []
                     | Some end_quote \<Rightarrow>
                         take (end_quote - start_quote - 1) (drop (start_quote + 1) body)))))"

definition parseModelName :: "http_parser \<Rightarrow> buffer \<Rightarrow> bytes" where
  "parseModelName p b = model_in (drop (header_len p) (readable b))"

definition notFoundResponse :: bytes where
  "notFoundResponse =
     ''HTTP/1.1 404 Not Found'' @ crlf @ ''Content-Length: 0'' @ crlf @ ''Connection: close'' @ crlf @ crlf"

datatype verdict = Reject bytes | Forward inet_address

definition server_for :: "(bytes \<Rightarrow> u64) \<Rightarrow> bytes \<Rightarrow> selector \<Rightarrow> inet_address \<times> selector" where
  "server_for hash key s =
     (case getNextServer_key hash key s of (a, s1) \<Rightarrow>
       ((case a of None \<Rightarrow> \<lparr>addr_ip = ''0.0.0.0'', addr_port = 0\<rparr> | Some a \<Rightarrow> a), s1))"

definition estimated_tokens :: "nat \<Rightarrow> u32" where
  "estimated_tokens cl = max 1 (of_nat (cl div 4))"

definition choose_backend ::
  "(bytes \<Rightarrow> u64) \<Rightarrow> u32 \<Rightarrow> http_parser \<Rightarrow> buffer \<Rightarrow> gateway \<Rightarrow> verdict \<times> gateway" where
  "choose_backend hash now p b g =
     (let path = req_path (hp_header p) in
      if starts_with ''/v1'' path then
        (if \<not> authenticate_headers (map (read_header b) (req_headers (hp_header p))) (auth g)
         then (Reject unauthorizedResponse, g)
         else
           (case tryAcquire (estimated_tokens (content_length p)) now (llm_limiter g) of (ok, tb) \<Rightarrow>
             let g1 = g\<lparr>llm_limiter := tb\<rparr>;
                 model_name = parseModelName p b
             in if \<not> ok then (Reject tooManyRequestsResponse, g1)
                else
                  (case route_table g1 model_name of
                     Some s \<Rightarrow>
                       (case server_for hash model_name s of (a, s1) \<Rightarrow>
                         (Forward a, g1\<lparr>route_table := (route_table g1)(model_name \<mapsto> s1)\<rparr>))
                   | None \<Rightarrow>
                       (case default_llm g1 of
                          Some s \<Rightarrow>
                            (case server_for hash model_name s of (a, s1) \<Rightarrow>
                              (Forward a, g1\<lparr>default_llm := Some s1\<rparr>))
                        | None \<Rightarrow> (Reject notFoundResponse, g1)))))
      else if starts_with ''/im'' path \<or> starts_with ''/api/im'' path then
        (case tryAcquire 1 now (im_limiter g) of (ok, tb) \<Rightarrow>
          let g1 = g\<lparr>im_limiter := tb\<rparr> in
          if \<not> ok then (Reject tooManyRequestsResponse, g1)
          else
            (case server_for hash path (im_selector g1) of (a, s1) \<Rightarrow>
              (Forward a, g1\<lparr>im_selector := s1\<rparr>)))
      else (Reject notFoundResponse, g))"

section \<open>Forwarding\<close>

text \<open>The connection \<open>r\<close> has been borrowed and bound: the head, then what has arrived of the body.\<close>

definition forward_request :: "nat \<Rightarrow> nat \<Rightarrow> http_parser \<Rightarrow> buffer \<Rightarrow> relay \<Rightarrow> relay" where
  "forward_request c r p b w =
     (let hl = header_len p;
          w1 = upd_remote r (sendToBackend (take hl (readable b))) w;
          b1 = (if 0 < hl then retrieve hl b else b);
          n = min (readableBytes b1) (bytesRemaining p);
          (w2, p2, b2) =
            (if 0 < n then
               (case consumeBody n p b1 of (p2, b2) \<Rightarrow>
                 (upd_remote r (sendToBackend (take n (readable b1))) w1, p2, b2))
             else (w1, p, b1));
          w3 = upd_client c (\<lambda>cl. cl\<lparr>cl_parser := p2, cl_input := b2, cl_backend := Some r\<rparr>) w2
      in if gotAll p2 then upd_client c ctx_reset w3 else w3)"

definition gateway_onMessage :: "(bytes \<Rightarrow> u64) \<Rightarrow> u32 \<Rightarrow> nat \<Rightarrow> gateway \<Rightarrow> gateway option" where
  "gateway_onMessage hash now c g =
     (let cl = clients (g_relay g) c; p = cl_parser cl; b = cl_input cl in
      if isExpectingBody p then
        (case cl_backend cl of
           None \<Rightarrow> None
         | Some r \<Rightarrow>
             let n = min (readableBytes b) (bytesRemaining p);
                 w1 = upd_remote r (sendToBackend (take n (readable b))) (g_relay g);
                 (p1, b1) = consumeBody n p b;
                 w2 = upd_client c (\<lambda>cl. cl\<lparr>cl_parser := p1, cl_input := b1\<rparr>) w1
             in Some (g\<lparr>g_relay := if gotAll p1 then upd_client c ctx_reset w2 else w2\<rparr>))
      else
        (case parseRequest b p of (ok, p1, b1) \<Rightarrow>
          let g1 = g\<lparr>g_relay := upd_client c (\<lambda>cl. cl\<lparr>cl_parser := p1, cl_input := b1\<rparr>) (g_relay g)\<rparr>
          in if \<not> ok then Some g1
             else
               (case choose_backend hash now p1 b1 g1 of
                  (Reject resp, g2) \<Rightarrow>
                    Some (g2\<lparr>g_relay := upd_client c (\<lambda>cl. client_shutdown (client_send resp cl)) (g_relay g2)\<rparr>)
                | (Forward a, g2) \<Rightarrow>
                    (case borrow_bind (toIpPort a) c (g_relay g2) of
                       None \<Rightarrow> None
                     | Some (r, w) \<Rightarrow> Some (g2\<lparr>g_relay := forward_request c r p1 b1 w\<rparr>)))))"

text \<open>What happens to a client's request: its bytes arrive, a backend connection comes up.\<close>

datatype gw_event = Client_Bytes u32 bytes | Backend_Up nat

fun gw_step :: "(bytes \<Rightarrow> u64) \<Rightarrow> nat \<Rightarrow> gw_event \<Rightarrow> gateway \<Rightarrow> gateway option" where
  "gw_step hash c (Client_Bytes now s) g =
     gateway_onMessage hash now c
       (g\<lparr>g_relay := upd_client c (\<lambda>cl. cl\<lparr>cl_input := append_data s (cl_input cl)\<rparr>) (g_relay g)\<rparr>)"
| "gw_step hash c (Backend_Up r) g = Some (g\<lparr>g_relay := backend_up r (g_relay g)\<rparr>)"

fun gw_run :: "(bytes \<Rightarrow> u64) \<Rightarrow> nat \<Rightarrow> gw_event list \<Rightarrow> gateway \<Rightarrow> gateway option" where
  "gw_run hash c [] g = Some g"
| "gw_run hash c (e # es) g =
     (case gw_step hash c e g of None \<Rightarrow> None | Some g1 \<Rightarrow> gw_run hash c es g1)"

section \<open>What admission answers\<close>

text \<open>The answer of the gateway itself to a request whose body begins with \<open>t\<close>; \<open>None\<close> when the
  request goes to a backend.\<close>

definition known_model :: "bytes \<Rightarrow> gateway \<Rightarrow> bool" where
  "known_model t g \<longleftrightarrow> route_table g (model_in t) \<noteq> None \<or> default_llm g \<noteq> None"

definition reply :: "u32 \<Rightarrow> phr_request \<Rightarrow> bytes \<Rightarrow> gateway \<Rightarrow> bytes option" where
  "reply now x t g =
     (if starts_with ''/v1'' (rq_path x) then
        if \<not> authenticate_headers (map shown_header (rq_headers x)) (auth g)
        then Some unauthorizedResponse
        else if \<not> fst (tryAcquire (estimated_tokens (declared_length (rq_headers x))) now (llm_limiter g))
        then Some tooManyRequestsResponse
        else if known_model t g then None else Some notFoundResponse
      else if starts_with ''/im'' (rq_path x) \<or> starts_with ''/api/im'' (rq_path x) then
        if fst (tryAcquire 1 now (im_limiter g)) then None else Some tooManyRequestsResponse
      else Some notFoundResponse)"

text \<open>Ports are 16-bit numbers.\<close>

definition ports16 :: "(bytes \<Rightarrow> u64) \<Rightarrow> gateway \<Rightarrow> bool" where
  "ports16 hash g \<longleftrightarrow>
     (\<forall>s key. s = im_selector g \<or> default_llm g = Some s \<or> (\<exists>m. route_table g m = Some s) \<longrightarrow>
        addr_port (fst (server_for hash key s)) < 2 ^ 16)"

lemma parsed_content_length [simp]:
  "content_length (parsed_request b parser_new x n) = declared_length (rq_headers x)"
  by (simp add: parsed_request_def Let_def)

lemma choose_backend_spec:
  assumes "buf_inv b" and "readable b = h @ t" and "request_head max_headers h x"
    and "p = parsed_request b parser_new x (length h)"
  shows "case reply now x t g of
      Some resp \<Rightarrow> \<exists>g2. choose_backend hash now p b g = (Reject resp, g2) \<and> g_relay g2 = g_relay g
    | None \<Rightarrow> \<exists>a g2. choose_backend hash now p b g = (Forward a, g2) \<and> g_relay g2 = g_relay g
        \<and> (ports16 hash g \<longrightarrow> addr_port a < 2 ^ 16)"
proof -
  note pf = parsed_request_fields [OF assms(4)]
  have f: "req_path (hp_header p) = rq_path x" "header_len p = length h"
      "content_length p = declared_length (rq_headers x)"
    using pf assms(4) by simp_all
  have m: "parseModelName p b = model_in t" using f(2) assms(2) by (simp add: parseModelName_def)
  have hs: "map (read_header b) (req_headers (hp_header p)) = map shown_header (rq_headers x)"
    using shown_headers [OF assms(1) refl assms(3,2)] pf by simp
  have ports: "addr_port (fst (server_for hash key s)) < 2 ^ 16"
    if "ports16 hash g" "s = im_selector g \<or> default_llm g = Some s \<or> (\<exists>m. route_table g m = Some s)" for s key
    using that by (auto simp: ports16_def)
  note defs = choose_backend_def reply_def known_model_def f m hs Let_def
  show ?thesis
  proof (cases "starts_with ''/v1'' (rq_path x)")
    case v1: True
    obtain ok tb where t: "tryAcquire (estimated_tokens (declared_length (rq_headers x))) now (llm_limiter g) = (ok, tb)"
      by (cases "tryAcquire (estimated_tokens (declared_length (rq_headers x))) now (llm_limiter g)")
    show ?thesis
    proof (cases "route_table g (model_in t)")
      case None
      show ?thesis
      proof (cases "default_llm g")
        case (Some s)
        obtain a s1 where "server_for hash (model_in t) s = (a, s1)"
          by (cases "server_for hash (model_in t) s")
        with None Some v1 t ports [of s "model_in t"] show ?thesis by (auto simp: defs)
      qed (use None v1 t in \<open>auto simp: defs\<close>)
    next
      case (Some s)
      obtain a s1 where "server_for hash (model_in t) s = (a, s1)"
        by (cases "server_for hash (model_in t) s")
      with Some v1 t ports [of s "model_in t"] show ?thesis by (auto simp: defs)
    qed
  next
    case v1: False
    obtain ok tb where t: "tryAcquire 1 now (im_limiter g) = (ok, tb)"
      by (cases "tryAcquire 1 now (im_limiter g)")
    obtain a s1 where "server_for hash (rq_path x) (im_selector g) = (a, s1)"
      by (cases "server_for hash (rq_path x) (im_selector g)")
    with v1 t ports [of "im_selector g" "rq_path x"] show ?thesis by (auto simp: defs)
  qed
qed

text \<open>The context of a client between requests: a response leaves \<open>isRequest\<close> cleared.\<close>

definition fresh_parser :: "http_parser \<Rightarrow> bool" where
  "fresh_parser p \<longleftrightarrow> p\<lparr>is_req := True\<rparr> = parser_new"

lemma fresh_parser_new [simp]: "fresh_parser parser_new"
  by (simp add: fresh_parser_def)

lemma fresh_parser_expects: "fresh_parser p \<Longrightarrow> \<not> isExpectingBody p"
  by (cases p) (simp add: fresh_parser_def isExpectingBody_def parser_new_def)

lemma parseRequest_fresh: "fresh_parser p \<Longrightarrow> parseRequest b p = parseRequest b parser_new"
  by (simp add: fresh_parser_def parseRequest_def)

lemma parseRequest_head:
  assumes "fresh_parser p" and "readable b = h @ t" and "request_head max_headers h x"
  shows "parseRequest b p = (True, parsed_request b parser_new x (length h), b)"
proof -
  have "phr_parse_request max_headers (readable b) 0 = Done (x, length h)"
    unfolding phr_parse_request_def rq.entry_Done using assms(2,3) by blast
  from parseRequest_done [OF this] show ?thesis by (simp add: parseRequest_fresh [OF assms(1)])
qed

section \<open>The bytes a backend is given\<close>

definition rc_stream :: "remote_client \<Rightarrow> bytes" where
  "rc_stream rc = rc_sent rc @ readable (pendingBuffer rc)"

text \<open>The connection is up with nothing pending, or not up yet.\<close>

definition takes :: "remote_client \<Rightarrow> bool" where
  "takes rc \<longleftrightarrow> buf_inv (pendingBuffer rc)
     \<and> (rc_conn rc = None \<or> rc_conn rc = Some kConnected \<and> readable (pendingBuffer rc) = [])"

lemma sendToBackend_stream:
  assumes "takes rc"
  shows "rc_stream (sendToBackend d rc) = rc_stream rc @ d" and "takes (sendToBackend d rc)"
  using assms by (auto simp: takes_def rc_stream_def sendToBackend_def tc_send_def append_data_props
      split: option.split)

lemma sendToBackend_frame [simp]:
  "rc_conn (sendToBackend d rc) = rc_conn rc" "clientConn (sendToBackend d rc) = clientConn rc"
  "is_busy (sendToBackend d rc) = is_busy rc" "rc_target (sendToBackend d rc) = rc_target rc"
  by (auto simp: sendToBackend_def tc_send_def split: option.split)

lemma backend_up_stream: "rc_stream (remotes (backend_up r w) r') = rc_stream (remotes w r')"
  by (simp add: backend_up_def upd_remote_def rc_stream_def readable_retrieveAll)

lemma backend_up_frame [simp]:
  "clients (backend_up r w) = clients w" "next_remote (backend_up r w) = next_remote w"
  "idle_map (backend_up r w) = idle_map w"
  "clientConn (remotes (backend_up r w) r') = clientConn (remotes w r')"
  "is_busy (remotes (backend_up r w) r') = is_busy (remotes w r')"
  by (simp_all add: backend_up_def upd_remote_def)

lemma backend_up_takes:
  assumes "takes (remotes w r')" and "bound_client r' w \<noteq> None \<or> readable (pendingBuffer (remotes w r')) = []"
  shows "takes (remotes (backend_up r w) r')"
proof (cases "r' = r")
  case True
  have "readable (pendingBuffer (remotes w r)) = []" if "readableBytes (pendingBuffer (remotes w r)) = 0"
    using that assms(1) True by (metis takes_def length_readable length_0_conv)
  with assms True show ?thesis
    by (auto simp: backend_up_def upd_remote_def takes_def readable_retrieveAll buf_inv_retrieveAll)
qed (use assms in \<open>simp add: backend_up_def upd_remote_def\<close>)

text \<open>The idle connections can be used.\<close>

definition idle_ready :: "relay \<Rightarrow> bool" where
  "idle_ready w \<longleftrightarrow>
     (\<forall>t vs. idle_map w t = Some vs \<longrightarrow> (\<forall>r \<in> set vs. r < next_remote w \<and> takes (remotes w r)
        \<and> readable (pendingBuffer (remotes w r)) = []))"

lemma idle_ready_up: "idle_ready w \<Longrightarrow> idle_ready (backend_up r w)"
  using backend_up_takes
  by (auto simp: idle_ready_def) (auto simp: backend_up_def upd_remote_def readable_retrieveAll)

text \<open>What a borrowed connection has been given before.\<close>

definition origin :: "relay \<Rightarrow> nat \<Rightarrow> bytes" where
  "origin w r = (if r < next_remote w then rc_stream (remotes w r) else [])"

lemma borrow_bind_props:
  assumes "idle_ready w" and "addr_port a < 2 ^ 16"
  shows "\<exists>r w'. borrow_bind (toIpPort a) c w = Some (r, w') \<and> clientConn (remotes w' r) = Some c
    \<and> is_busy (remotes w' r) \<and> takes (remotes w' r) \<and> rc_stream (remotes w' r) = origin w r
    \<and> (\<forall>r'. r' \<noteq> r \<longrightarrow> remotes w' r' = remotes w r') \<and> clients w' = clients w"
proof (cases "\<exists>y ys. idle_map w (toIpPort a) = Some (y # ys)")
  case True
  then obtain y ys where m: "idle_map w (toIpPort a) = Some (y # ys)" by blast
  let ?r = "last (y # ys)"
  have "?r \<in> set (y # ys)" by (rule last_in_set) simp
  with assms(1) m have "?r < next_remote w" "takes (remotes w ?r)"
    unfolding idle_ready_def by blast+
  with m show ?thesis
    by (auto simp: borrow_bind_def borrowConnection_def Let_def upd_remote_def bindClient_def setbusy_def
        takes_def rc_stream_def origin_def simp del: last.simps butlast.simps)
next
  case False
  then have "borrow_bind (toIpPort a) c w = Some (next_remote w, upd_remote (next_remote w) (bindClient c)
      (w\<lparr>remotes := (remotes w)(next_remote w := setbusy (remote_new (toIpPort a))),
         next_remote := next_remote w + 1\<rparr>))"
    using parse_target_toIpPort [OF assms(2)]
    by (auto simp: borrow_bind_def borrowConnection_def Let_def split: option.split list.split)
  then show ?thesis
    by (simp add: upd_remote_def bindClient_def setbusy_def remote_new_def takes_def rc_stream_def
        origin_def buf_inv_new readable_new)
qed

section \<open>A request on its way to a backend\<close>

text \<open>Part of the head has arrived; no backend has been given anything.\<close>

definition same_config :: "gateway \<Rightarrow> gateway \<Rightarrow> bool" where
  "same_config g0 g \<longleftrightarrow>
     auth g = auth g0 \<and> llm_limiter g = llm_limiter g0 \<and> im_limiter g = im_limiter g0
     \<and> route_table g = route_table g0 \<and> default_llm g = default_llm g0 \<and> im_selector g = im_selector g0"

text \<open>Nobody has been answered and no other client is concerned.\<close>

definition unanswered :: "nat \<Rightarrow> gateway \<Rightarrow> gateway \<Rightarrow> bool" where
  "unanswered c g0 g \<longleftrightarrow> idle_map (g_relay g) = idle_map (g_relay g0)
     \<and> (\<forall>d. d \<noteq> c \<longrightarrow> clients (g_relay g) d = clients (g_relay g0) d)
     \<and> cl_sent (clients (g_relay g) c) = cl_sent (clients (g_relay g0) c)
     \<and> cl_state (clients (g_relay g) c) = cl_state (clients (g_relay g0) c)"

lemma unanswered_simps [simp]:
  "unanswered c g g"
  "unanswered c g0 (g\<lparr>g_relay := backend_up r (g_relay g)\<rparr>) = unanswered c g0 g"
  "unanswered c g0 (g\<lparr>g_relay := upd_client c (\<lambda>cl. cl\<lparr>cl_input := b\<rparr>) (g_relay g)\<rparr>) = unanswered c g0 g"
  "unanswered c g0 (g\<lparr>g_relay := upd_client c (\<lambda>cl. cl\<lparr>cl_input := append_data s (cl_input cl)\<rparr>) (g_relay g)\<rparr>)
     = unanswered c g0 g"
  "unanswered c g0 (g\<lparr>g_relay := upd_client c (\<lambda>cl. cl\<lparr>cl_parser := p, cl_input := b\<rparr>) (g_relay g)\<rparr>)
     = unanswered c g0 g"
  by (simp_all add: unanswered_def upd_client_def)

definition gathering :: "nat \<Rightarrow> gateway \<Rightarrow> bytes \<Rightarrow> gateway \<Rightarrow> bool" where
  "gathering c g0 rec g \<longleftrightarrow> same_config g0 g \<and> unanswered c g0 g
     \<and> (let cl = clients (g_relay g) c in
          fresh_parser (cl_parser cl) \<and> buf_inv (cl_input cl) \<and> readable (cl_input cl) = rec \<and> cl_alive cl)
     \<and> idle_ready (g_relay g) \<and> next_remote (g_relay g) = next_remote (g_relay g0)
     \<and> (\<forall>r. rc_stream (remotes (g_relay g) r) = rc_stream (remotes (g_relay g0) r))"

text \<open>Connection \<open>r\<close> serves the request and has been given \<open>sent\<close>; no other has been given anything.\<close>

definition sending :: "nat \<Rightarrow> gateway \<Rightarrow> nat \<Rightarrow> bytes \<Rightarrow> gateway \<Rightarrow> bool" where
  "sending c g0 r sent g \<longleftrightarrow>
     (let rc = remotes (g_relay g) r; cl = clients (g_relay g) c in
       clientConn rc = Some c \<and> is_busy rc \<and> takes rc \<and> rc_stream rc = origin (g_relay g0) r @ sent
       \<and> cl_alive cl \<and> cl_backend cl = Some r \<and> buf_inv (cl_input cl) \<and> readable (cl_input cl) = [])
     \<and> (\<forall>r'. r' \<noteq> r \<longrightarrow> rc_stream (remotes (g_relay g) r') = rc_stream (remotes (g_relay g0) r'))"

definition request_body :: "nat \<Rightarrow> nat \<Rightarrow> http_parser \<Rightarrow> bool" where
  "request_body L k p \<longleftrightarrow>
     hp_state p = ExpectBody \<and> is_req p \<and> content_length p = L \<and> body_bytes_read p = k \<and> k < L \<and> L < 2 ^ 64"

lemma consume_request:
  assumes "request_body L k p" and "buf_inv b" and "k + readableBytes b \<le> L"
  shows "bytesRemaining p = L - k"
    and "\<exists>p' b'. consumeBody (readableBytes b) p b = (p', b') \<and> buf_inv b' \<and> readable b' = [] \<and> is_req p'
      \<and> gotAll p' = (k + readableBytes b = L)
      \<and> (k + readableBytes b < L \<longrightarrow> request_body L (k + readableBytes b) p')"
proof -
  have "body_inv p" using assms(1) by (simp add: request_body_def body_inv_def)
  with bytesRemaining_exact assms(1) show "bytesRemaining p = L - k" by (simp add: request_body_def)
  have "readable (retrieve (readableBytes b) b) = []" using assms(2) by (simp add: readable_retrieve)
  then show "\<exists>p' b'. consumeBody (readableBytes b) p b = (p', b') \<and> buf_inv b' \<and> readable b' = [] \<and> is_req p'
      \<and> gotAll p' = (k + readableBytes b = L)
      \<and> (k + readableBytes b < L \<longrightarrow> request_body L (k + readableBytes b) p')"
    using assms by (auto simp: consumeBody_def request_body_def gotAll_def buf_inv_retrieve Let_def)
qed

definition body_state :: "nat \<Rightarrow> nat \<Rightarrow> http_parser \<Rightarrow> bool" where
  "body_state L k p \<longleftrightarrow> (if k = L then p = parser_new else request_body L k p)"

lemma forward_request_props:
  assumes p: "p = parsed_request b parser_new x (length h)" and h: "request_head max_headers h x"
    and b: "buf_inv b" "readable b = h @ t" and L: "L = declared_length (rq_headers x)" "length t \<le> L"
    and r: "takes (remotes w r)" and w': "w' = forward_request c r p b w"
  shows "takes (remotes w' r)" "rc_stream (remotes w' r) = rc_stream (remotes w r) @ h @ t"
    "clientConn (remotes w' r) = clientConn (remotes w r)" "is_busy (remotes w' r) = is_busy (remotes w r)"
    "r' \<noteq> r \<Longrightarrow> remotes w' r' = remotes w r'"
    "cl_alive (clients w' c) = cl_alive (clients w c)" "cl_backend (clients w' c) = Some r"
    "buf_inv (cl_input (clients w' c))" "readable (cl_input (clients w' c)) = []"
    "body_state L (length t) (cl_parser (clients w' c))"
proof -
  note pf = parsed_request_fields [OF p]
  have cl: "content_length p = L" using p L(1) by simp
  let ?b = "retrieve (length h) b" and ?rc = "sendToBackend h (remotes w r)"
  have hl: "h \<noteq> []" using rq.head_not_empty [OF h] by simp
  have b1: "buf_inv ?b" "readable ?b = t" using b by (simp_all add: buf_inv_retrieve readable_retrieve)
  have rb: "readableBytes ?b = length t" using b1 by (metis length_readable)
  have th: "take (length h) (readable b) = h" using b(2) by simp
  note s1 = sendToBackend_stream [OF r, of h] and s2 = sendToBackend_stream [OF s1(2), of t]
  have bound: "L < 2 ^ 64" using declared_length_bound L(1) by simp
  have rem: "bytesRemaining p = L"
    using bytesRemaining_exact [of p] pf(4) cl bound by (simp add: body_inv_def)
  have req: "is_req p" using pf(3) by simp
  note defs = w' forward_request_def Let_def pf(1) hl th rem rb
  have "takes (remotes w' r) \<and> rc_stream (remotes w' r) = rc_stream (remotes w r) @ h @ t
    \<and> clientConn (remotes w' r) = clientConn (remotes w r) \<and> is_busy (remotes w' r) = is_busy (remotes w r)
    \<and> (\<forall>r'. r' \<noteq> r \<longrightarrow> remotes w' r' = remotes w r')
    \<and> cl_alive (clients w' c) = cl_alive (clients w c) \<and> cl_backend (clients w' c) = Some r
    \<and> buf_inv (cl_input (clients w' c)) \<and> readable (cl_input (clients w' c)) = []
    \<and> body_state L (length t) (cl_parser (clients w' c))"
  proof (cases "t = []")
    case True
    have g: "gotAll p = (L = 0)"
      using pf(5) L(1) p by (auto simp: gotAll_def parsed_request_def Let_def)
    have rbody: "0 < L \<Longrightarrow> request_body L 0 p"
      using pf(3,4,5) cl L(1) bound by (simp add: request_body_def isExpectingBody_def)
    from True s1 b1 req g show ?thesis
      by (cases "L = 0") (simp_all add: defs upd_remote_def upd_client_def ctx_reset_def body_state_def rbody)
  next
    case False
    then have pos: "0 < L" using L(2) by (cases t) auto
    then have rbody: "request_body L 0 p"
      using pf(3,4,5) cl L(1) bound by (simp add: request_body_def isExpectingBody_def)
    have "0 + readableBytes ?b \<le> L" using rb L(2) by simp
    from consume_request(2) [OF rbody b1(1) this] rb obtain p' b' where
      c: "consumeBody (length t) p ?b = (p', b')" "buf_inv b'" "readable b' = []" "is_req p'"
        "gotAll p' = (length t = L)" "length t < L \<longrightarrow> request_body L (length t) p'" by auto
    have "min (length t) L = length t" "take (length t) (readable ?b) = t" using L(2) b1(2) by simp_all
    with False pos s1 s2 c L(2) show ?thesis
      by (cases "length t = L")
        (simp_all add: defs upd_remote_def upd_client_def ctx_reset_def body_state_def)
  qed
  then show "takes (remotes w' r)" "rc_stream (remotes w' r) = rc_stream (remotes w r) @ h @ t"
    "clientConn (remotes w' r) = clientConn (remotes w r)" "is_busy (remotes w' r) = is_busy (remotes w r)"
    "r' \<noteq> r \<Longrightarrow> remotes w' r' = remotes w r'"
    "cl_alive (clients w' c) = cl_alive (clients w c)" "cl_backend (clients w' c) = Some r"
    "buf_inv (cl_input (clients w' c))" "readable (cl_input (clients w' c)) = []"
    "body_state L (length t) (cl_parser (clients w' c))" by simp_all
qed

lemma idle_ready_upd_client [simp]: "idle_ready (upd_client c f w) = idle_ready w"
  by (simp add: idle_ready_def upd_client_def)

lemma same_config_reply:
  assumes "same_config g g'"
  shows "reply now x t g' = reply now x t g" and "ports16 hash g' = ports16 hash g"
  using assms by (simp_all add: same_config_def reply_def known_model_def ports16_def)

text \<open>The three kinds of segment: within the head, completing it, within the body.\<close>

definition received :: "bytes \<Rightarrow> nat \<Rightarrow> gateway \<Rightarrow> gateway" where
  "received s c g = g\<lparr>g_relay := upd_client c (\<lambda>cl. cl\<lparr>cl_input := append_data s (cl_input cl)\<rparr>) (g_relay g)\<rparr>"

lemma received_simps [simp]:
  "remotes (g_relay (received s c g)) = remotes (g_relay g)"
  "next_remote (g_relay (received s c g)) = next_remote (g_relay g)"
  "idle_map (g_relay (received s c g)) = idle_map (g_relay g)"
  "cl_input (clients (g_relay (received s c g)) c) = append_data s (cl_input (clients (g_relay g) c))"
  "cl_parser (clients (g_relay (received s c g)) c) = cl_parser (clients (g_relay g) c)"
  "cl_alive (clients (g_relay (received s c g)) c) = cl_alive (clients (g_relay g) c)"
  "cl_backend (clients (g_relay (received s c g)) c) = cl_backend (clients (g_relay g) c)"
  "same_config g0 (received s c g) = same_config g0 g"
  by (simp_all add: received_def upd_client_def same_config_def)

lemma unanswered_received [simp]: "unanswered c g0 (received s c g) = unanswered c g0 g"
  by (simp add: received_def unanswered_def upd_client_def)

lemma gathering_received:
  "gathering c g0 rec g \<Longrightarrow> gathering c g0 (rec @ s) (received s c g)"
  by (simp add: gathering_def Let_def append_data_props) (simp add: received_def)

lemma onMessage_gathering:
  assumes "gathering c g0 rec g" and "request_head max_headers (rec @ t) x" and "t \<noteq> []"
  shows "\<exists>g'. gateway_onMessage hash now c g = Some g' \<and> gathering c g0 rec g'"
proof -
  let ?cl = "clients (g_relay g) c"
  have fp: "fresh_parser (cl_parser ?cl)" and rec: "readable (cl_input ?cl) = rec"
    using assms(1) by (simp_all add: gathering_def Let_def)
  have "phr_parse_request max_headers rec 0 = Partial"
    unfolding phr_parse_request_def rq.entry_Partial using assms(2,3) by (rule rq.proper_prefix_partial)
  then have "parseRequest (cl_input ?cl) (cl_parser ?cl) = (False, parser_new, cl_input ?cl)"
    using rec by (simp add: parseRequest_fresh [OF fp] parseRequest_partial)
  with fresh_parser_expects [OF fp] assms(1) show ?thesis
    by (simp add: gateway_onMessage_def Let_def gathering_def same_config_def) (simp add: upd_client_def)
qed

lemma gathering_request:
  assumes "gathering c g0 rec g"
  shows "idle_ready (g_relay g)" "fresh_parser (cl_parser (clients (g_relay g) c))"
    "buf_inv (cl_input (clients (g_relay g) c))" "readable (cl_input (clients (g_relay g) c)) = rec"
    "same_config g0 g" "unanswered c g0 g"
    "rc_stream (remotes (g_relay g) r) = rc_stream (remotes (g_relay g0) r)"
  using assms by (simp_all add: gathering_def Let_def)

lemma onMessage_completing:
  assumes g: "gathering c g0 (h @ t) g" and h: "request_head max_headers h x"
    and t: "length t \<le> declared_length (rq_headers x)" and a: "reply now x t g = None"
    and p16: "ports16 hash g"
  shows "\<exists>g' r. gateway_onMessage hash now c g = Some g' \<and> sending c g0 r (h @ t) g'
    \<and> body_state (declared_length (rq_headers x)) (length t) (cl_parser (clients (g_relay g') c))"
proof -
  let ?cl = "clients (g_relay g) c"
  let ?b = "cl_input ?cl"
  let ?p = "parsed_request ?b parser_new x (length h)"
  let ?g1 = "g\<lparr>g_relay := upd_client c (\<lambda>cl. cl\<lparr>cl_parser := ?p, cl_input := ?b\<rparr>) (g_relay g)\<rparr>"
  have fp: "fresh_parser (cl_parser ?cl)" and b: "buf_inv ?b" "readable ?b = h @ t"
    using g by (simp_all add: gathering_def Let_def)
  have "same_config g ?g1" by (simp add: same_config_def)
  with a p16 have "reply now x t ?g1 = None" "ports16 hash ?g1" by (simp_all only: same_config_reply)
  with choose_backend_spec [OF b h refl, where now = now and g = ?g1 and hash = hash] obtain ad g2 where
    ch: "choose_backend hash now ?p ?b ?g1 = (Forward ad, g2)" "g_relay g2 = g_relay ?g1" "addr_port ad < 2 ^ 16"
    by auto
  have w2: "remotes (g_relay g2) = remotes (g_relay g)" "next_remote (g_relay g2) = next_remote (g_relay g)"
    "idle_map (g_relay g2) = idle_map (g_relay g)" "cl_alive (clients (g_relay g2) c) = cl_alive ?cl"
    using ch(2) by (simp_all add: upd_client_def)
  have "idle_ready (g_relay g2)" using g ch(2) by (simp add: gathering_def)
  from borrow_bind_props [OF this ch(3), of c] obtain r w where
    bo: "borrow_bind (toIpPort ad) c (g_relay g2) = Some (r, w)" "clientConn (remotes w r) = Some c"
      "is_busy (remotes w r)" "takes (remotes w r)" "rc_stream (remotes w r) = origin (g_relay g2) r"
      "\<forall>r'. r' \<noteq> r \<longrightarrow> remotes w r' = remotes (g_relay g2) r'" "clients w = clients (g_relay g2)" by blast
  note fw = forward_request_props [OF refl h b refl t bo(4) refl, where c = c]
  let ?g' = "g2\<lparr>g_relay := forward_request c r ?p ?b w\<rparr>"
  have run: "gateway_onMessage hash now c g = Some ?g'"
    using fresh_parser_expects [OF fp] parseRequest_head [OF fp b(2) h] ch(1) bo(1)
    by (simp add: gateway_onMessage_def Let_def)
  have org: "origin (g_relay g2) r = origin (g_relay g0) r"
    using g w2 by (simp add: origin_def gathering_def)
  have "rc_stream (remotes (forward_request c r ?p ?b w) r') = rc_stream (remotes (g_relay g0) r')"
    if "r' \<noteq> r" for r'
    using fw(5) that bo(6) w2(1) g by (simp add: gathering_def)
  moreover have "cl_alive ?cl" using g by (simp add: gathering_def Let_def)
  ultimately have "sending c g0 r (h @ t) ?g'"
    using fw(1-4,6-9) bo(2,3,5,7) org w2(4) by (simp add: sending_def Let_def)
  with run fw(10) show ?thesis by auto
qed

lemma onMessage_body:
  assumes g: "sending c g0 r sent g" and p: "request_body L k (cl_parser (clients (g_relay g) c))"
    and s: "k + length s \<le> L"
  shows "\<exists>g'. gateway_onMessage hash now c (received s c g) = Some g' \<and> sending c g0 r (sent @ s) g'
    \<and> body_state L (k + length s) (cl_parser (clients (g_relay g') c))"
proof -
  let ?g = "received s c g"
  let ?b = "cl_input (clients (g_relay ?g) c)" and ?p = "cl_parser (clients (g_relay ?g) c)"
  have b: "buf_inv ?b" "readable ?b = s" using g by (simp_all add: sending_def Let_def append_data_props)
  then have rb: "readableBytes ?b = length s" by (metis length_readable)
  have p': "request_body L k ?p" using p by simp
  have "k + readableBytes ?b \<le> L" using rb s by simp
  note cr = consume_request [OF p' b(1) this]
  from cr(2) rb obtain p2 b2 where
    c2: "consumeBody (length s) ?p ?b = (p2, b2)" "buf_inv b2" "readable b2 = []" "is_req p2"
      "gotAll p2 = (k + length s = L)" "k + length s < L \<longrightarrow> request_body L (k + length s) p2" by auto
  have n: "min (readableBytes ?b) (bytesRemaining ?p) = length s" using cr(1) rb s by simp
  have tk: "take (length s) (readable ?b) = s" using b(2) by simp
  have bk: "cl_backend (clients (g_relay ?g) c) = Some r" and tr: "takes (remotes (g_relay g) r)"
    using g by (simp_all add: sending_def Let_def)
  define w2 where "w2 = upd_client c (\<lambda>cl. cl\<lparr>cl_parser := p2, cl_input := b2\<rparr>)
    (upd_remote r (sendToBackend s) (g_relay ?g))"
  define g' where "g' = ?g\<lparr>g_relay := if gotAll p2 then upd_client c ctx_reset w2 else w2\<rparr>"
  have eb: "isExpectingBody ?p" using p' by (simp add: request_body_def isExpectingBody_def)
  have "gateway_onMessage hash now c ?g = Some g'"
    using eb bk c2(1) n tk by (simp add: gateway_onMessage_def Let_def w2_def g'_def del: received_simps)
  moreover have "sending c g0 r (sent @ s) g'"
    using g sendToBackend_stream [OF tr, of s] c2(2-4)
    by (auto simp: g'_def w2_def sending_def Let_def upd_client_def upd_remote_def ctx_reset_def)
  moreover have "body_state L (k + length s) (cl_parser (clients (g_relay g') c))"
    using c2(4-6) s by (auto simp: g'_def w2_def body_state_def upd_client_def ctx_reset_def)
  ultimately show ?thesis by blast
qed

lemma sending_up:
  assumes "sending c g0 r sent g"
  shows "sending c g0 r sent (g\<lparr>g_relay := backend_up r' (g_relay g)\<rparr>)"
proof -
  have "bound_client r (g_relay g) \<noteq> None" "takes (remotes (g_relay g) r)"
    using assms by (simp_all add: sending_def bound_client_def Let_def)
  with backend_up_takes have "takes (remotes (backend_up r' (g_relay g)) r)" by blast
  with assms show ?thesis by (simp add: sending_def Let_def backend_up_stream)
qed

lemma gathering_up:
  "gathering c g0 rec g \<Longrightarrow> gathering c g0 rec (g\<lparr>g_relay := backend_up r (g_relay g)\<rparr>)"
  by (simp add: gathering_def same_config_def backend_up_stream idle_ready_up)

section \<open>Any number of segments\<close>

fun arrived :: "gw_event list \<Rightarrow> bytes" where
  "arrived [] = []"
| "arrived (Client_Bytes now s # es) = s @ arrived es"
| "arrived (Backend_Up r # es) = arrived es"

definition segments_ok :: "gw_event list \<Rightarrow> bool" where
  "segments_ok es \<longleftrightarrow> (\<forall>now. Client_Bytes now [] \<notin> set es)"

lemma gw_step_bytes: "gw_step hash c (Client_Bytes now s) g = gateway_onMessage hash now c (received s c g)"
  by (simp add: received_def)

declare gw_step.simps(1) [simp del]

lemma segments_ok_Cons:
  "segments_ok (e # es) \<longleftrightarrow> segments_ok es \<and> (\<forall>now. e \<noteq> Client_Bytes now [])"
  by (auto simp: segments_ok_def)

lemma run_body:
  assumes "sending c g0 r sent g" and "body_state L k (cl_parser (clients (g_relay g) c))" and "k \<le> L"
    and "segments_ok es" and "k + length (arrived es) = L"
  shows "\<exists>g'. gw_run hash c es g = Some g' \<and> sending c g0 r (sent @ arrived es) g'
    \<and> cl_parser (clients (g_relay g') c) = parser_new"
  using assms
proof (induction es arbitrary: sent k g)
  case Nil
  then show ?case by (simp add: body_state_def)
next
  case (Cons e es)
  show ?case
  proof (cases e)
    case (Client_Bytes now s)
    with Cons.prems(4,5) have s: "s \<noteq> []" "k + length s \<le> L" "k + length s + length (arrived es) = L"
      "segments_ok es" by (auto simp: segments_ok_Cons)
    have "k \<noteq> L" using s by (cases s) auto
    then have p: "request_body L k (cl_parser (clients (g_relay g) c))"
      using Cons.prems(2) by (simp add: body_state_def)
    from onMessage_body [OF Cons.prems(1) p s(2), of hash now] obtain g1 where
      g1: "gateway_onMessage hash now c (received s c g) = Some g1" "sending c g0 r (sent @ s) g1"
        "body_state L (k + length s) (cl_parser (clients (g_relay g1) c))" by blast
    from Cons.IH [OF g1(2,3) s(2,4,3)] g1(1) Client_Bytes show ?thesis by (simp add: gw_step_bytes)
  next
    case (Backend_Up r')
    let ?g = "g\<lparr>g_relay := backend_up r' (g_relay g)\<rparr>"
    have "body_state L k (cl_parser (clients (g_relay ?g) c))" using Cons.prems(2) by simp
    from Cons.IH [OF sending_up [OF Cons.prems(1)] this Cons.prems(3)] Cons.prems(4,5) Backend_Up
    show ?thesis by (simp add: segments_ok_Cons)
  qed
qed

definition admitted :: "phr_request \<Rightarrow> gw_event list \<Rightarrow> gateway \<Rightarrow> bool" where
  "admitted x es g \<longleftrightarrow> (\<forall>now s t. Client_Bytes now s \<in> set es \<longrightarrow> reply now x t g = None)"

lemma run_head:
  assumes h: "request_head max_headers h x" and L: "declared_length (rq_headers x) = length body"
    and p16: "ports16 hash g0"
  shows "gathering c g0 rec g \<Longrightarrow> length rec < length h \<Longrightarrow> segments_ok es \<Longrightarrow> admitted x es g0 \<Longrightarrow>
    rec @ arrived es = h @ body \<Longrightarrow>
    \<exists>g' r. gw_run hash c es g = Some g' \<and> sending c g0 r (h @ body) g'
      \<and> cl_parser (clients (g_relay g') c) = parser_new"
proof (induction es arbitrary: rec g)
  case Nil
  then have "length rec = length (h @ body)" by simp
  with Nil.prems(2) show ?case by simp
next
  case (Cons e es)
  show ?case
  proof (cases e)
    case (Client_Bytes now s)
    let ?g = "received s c g"
    have g: "gathering c g0 (rec @ s) ?g" using Cons.prems(1) by (rule gathering_received)
    have eq: "(rec @ s) @ arrived es = h @ body" using Cons.prems(5) Client_Bytes by simp
    have ok: "segments_ok es" "admitted x es g0"
      using Cons.prems(3,4) by (auto simp: segments_ok_Cons admitted_def)
    show ?thesis
    proof (cases "length (rec @ s) < length h")
      case True
      with append_split_le [OF eq] obtain t where t: "h = (rec @ s) @ t" by fastforce
      with True have "t \<noteq> []" by auto
      with onMessage_gathering [OF g _ this, of x hash now] h t obtain g1 where
        "gateway_onMessage hash now c ?g = Some g1" "gathering c g0 (rec @ s) g1" by auto
      with Cons.IH [OF this(2) True ok eq] Client_Bytes show ?thesis by (simp add: gw_step_bytes)
    next
      case False
      with append_split_le [OF eq [symmetric]] obtain t where t: "rec @ s = h @ t" "body = t @ arrived es"
        by (metis linorder_not_less)
      have sc: "same_config g0 ?g" using g by (simp add: gathering_def)
      have "reply now x t g0 = None" using Cons.prems(4) Client_Bytes by (simp add: admitted_def)
      with sc p16 have r: "reply now x t ?g = None" "ports16 hash ?g" by (simp_all only: same_config_reply)
      have tL: "length t \<le> declared_length (rq_headers x)" using L t(2) by simp
      from onMessage_completing [OF g [unfolded t(1)] h tL r] obtain g1 r where
        g1: "gateway_onMessage hash now c ?g = Some g1" "sending c g0 r (h @ t) g1"
          "body_state (length body) (length t) (cl_parser (clients (g_relay g1) c))"
        using L by auto
      have "length t \<le> length body" "length t + length (arrived es) = length body" using t(2) by simp_all
      from run_body [OF g1(2,3) this(1) ok(1) this(2)] g1(1) t(2) Client_Bytes show ?thesis
        by (fastforce simp: gw_step_bytes)
    qed
  next
    case (Backend_Up r)
    from Cons.IH [OF gathering_up [OF Cons.prems(1)] Cons.prems(2)] Cons.prems(3-5) Backend_Up
    show ?thesis by (simp add: segments_ok_Cons admitted_def)
  qed
qed

text \<open>While the head is incomplete nothing happens.\<close>

lemma run_gathering:
  "gathering c g0 rec g \<Longrightarrow> segments_ok es \<Longrightarrow> request_head max_headers (rec @ arrived es @ t) x \<Longrightarrow> t \<noteq> [] \<Longrightarrow>
     \<exists>g'. gw_run hash c es g = Some g' \<and> gathering c g0 (rec @ arrived es) g'"
proof (induction es arbitrary: rec g)
  case (Cons e es)
  show ?case
  proof (cases e)
    case (Client_Bytes now s)
    have g: "gathering c g0 (rec @ s) (received s c g)" using Cons.prems(1) by (rule gathering_received)
    have h: "request_head max_headers ((rec @ s) @ arrived es @ t) x" "arrived es @ t \<noteq> []" "segments_ok es"
      using Cons.prems(2-4) Client_Bytes by (simp_all add: segments_ok_Cons)
    from onMessage_gathering [OF g h(1,2), of hash now] obtain g1 where
      "gateway_onMessage hash now c (received s c g) = Some g1" "gathering c g0 (rec @ s) g1" by blast
    with Cons.IH [OF this(2) h(3,1) Cons.prems(4)] Client_Bytes show ?thesis by (simp add: gw_step_bytes)
  next
    case (Backend_Up r)
    from Cons.IH [OF gathering_up [OF Cons.prems(1)]] Cons.prems(2-4) Backend_Up
    show ?thesis by (simp add: segments_ok_Cons)
  qed
qed simp

section \<open>Properties\<close>

text \<open>
  C5. An admitted request reaches one backend connection byte for byte, head and body, in whatever
  segments it arrives and whenever backend connections come up in between: the connection (idle in
  the pool before, or new) is bound to this client, its stream (written, then pending) grows by
  exactly the request, no other stream grows, and the client's parser waits for the next head.
\<close>

theorem request_forwarded:
  assumes "idle_ready (g_relay g)" and "fresh_parser (cl_parser (clients (g_relay g) c))"
    and "cl_alive (clients (g_relay g) c)" and "buf_inv (cl_input (clients (g_relay g) c))"
    and "readable (cl_input (clients (g_relay g) c)) = []"
    and "request_head max_headers h x" and "declared_length (rq_headers x) = length body"
    and "segments_ok es" and "arrived es = h @ body" and "admitted x es g" and "ports16 hash g"
  shows "\<exists>g' r. gw_run hash c es g = Some g' \<and> sending c g r (h @ body) g'
    \<and> cl_parser (clients (g_relay g') c) = parser_new"
proof (rule run_head [OF assms(6,7,11) _ _ assms(8,10)])
  show "gathering c g [] g" using assms(1-5) by (simp add: gathering_def same_config_def Let_def)
  show "length [] < length h" using rq.head_not_empty [OF assms(6)] by simp
  show "[] @ arrived es = h @ body" using assms(9) by simp
qed

lemma onMessage_rejected:
  assumes fp: "fresh_parser (cl_parser (clients (g_relay g) c))" and b: "buf_inv (cl_input (clients (g_relay g) c))"
    "readable (cl_input (clients (g_relay g) c)) = h @ t" and h: "request_head max_headers h x"
    and a: "reply now x t g = Some resp"
  shows "\<exists>g'. gateway_onMessage hash now c g = Some g' \<and> remotes (g_relay g') = remotes (g_relay g)
    \<and> idle_map (g_relay g') = idle_map (g_relay g) \<and> next_remote (g_relay g') = next_remote (g_relay g)
    \<and> (\<forall>d. d \<noteq> c \<longrightarrow> clients (g_relay g') d = clients (g_relay g) d)
    \<and> clients (g_relay g') c = client_shutdown (client_send resp ((clients (g_relay g) c)
        \<lparr>cl_parser := parsed_request (cl_input (clients (g_relay g) c)) parser_new x (length h)\<rparr>))"
proof -
  let ?b = "cl_input (clients (g_relay g) c)"
  let ?p = "parsed_request ?b parser_new x (length h)"
  let ?g1 = "g\<lparr>g_relay := upd_client c (\<lambda>cl. cl\<lparr>cl_parser := ?p, cl_input := ?b\<rparr>) (g_relay g)\<rparr>"
  have "same_config g ?g1" by (simp add: same_config_def)
  with a have "reply now x t ?g1 = Some resp" by (simp only: same_config_reply)
  with choose_backend_spec [OF b h refl, where now = now and g = ?g1 and hash = hash] obtain g2 where
    "choose_backend hash now ?p ?b ?g1 = (Reject resp, g2)" "g_relay g2 = g_relay ?g1" by auto
  then show ?thesis
    using fresh_parser_expects [OF fp] parseRequest_head [OF fp b(2) h]
    by (simp add: gateway_onMessage_def Let_def upd_client_def)
qed

text \<open>
  C3. The segment that completes a request head decides, however the head was cut. Until then no backend
  is given a byte, the pool is unchanged and the client is not answered. In the call for this
  segment, a rejected request (no or unknown key on
  \<^verbatim>\<open>/v1\<close>: 401; tokens refused: 429; unknown path, or no cluster for the model: 404) touches no
  backend, no pool and no other client: the client gets exactly the answer and its connection is shut
  down. Any other goes to one connection; on \<^verbatim>\<open>/v1\<close> its key was accepted and its tokens were granted.
  This says nothing about the bytes a rejected client sends afterwards, which can reach a backend:
  see \<open>rejected_body\<close>.
\<close>

theorem gateway_admission:
  assumes "idle_ready (g_relay g)" and "ports16 hash g"
    and "fresh_parser (cl_parser (clients (g_relay g) c))" and "cl_alive (clients (g_relay g) c)"
    and "cl_state (clients (g_relay g) c) = kConnected" and "buf_inv (cl_input (clients (g_relay g) c))"
    and "readable (cl_input (clients (g_relay g) c)) = []" and "request_head max_headers h x"
    and "segments_ok es" and "arrived es @ s = h @ t" and "length (arrived es) < length h"
    and "length t \<le> declared_length (rq_headers x)"
  shows "\<exists>g1 g'. gw_run hash c es g = Some g1 \<and> gw_step hash c (Client_Bytes now s) g1 = Some g'
    \<and> (\<forall>r. rc_stream (remotes (g_relay g1) r) = rc_stream (remotes (g_relay g) r))
    \<and> idle_map (g_relay g1) = idle_map (g_relay g)
    \<and> cl_sent (clients (g_relay g1) c) = cl_sent (clients (g_relay g) c)
    \<and> (case reply now x t g of
       Some resp \<Rightarrow> remotes (g_relay g') = remotes (g_relay g1) \<and> idle_map (g_relay g') = idle_map (g_relay g)
         \<and> next_remote (g_relay g') = next_remote (g_relay g1)
         \<and> (\<forall>d. d \<noteq> c \<longrightarrow> clients (g_relay g') d = clients (g_relay g) d)
         \<and> cl_sent (clients (g_relay g') c) = cl_sent (clients (g_relay g) c) @ resp
         \<and> cl_state (clients (g_relay g') c) = kDisconnecting
         \<and> resp \<in> {unauthorizedResponse, tooManyRequestsResponse, notFoundResponse}
     | None \<Rightarrow> (\<exists>r. sending c g r (h @ t) g')
         \<and> (starts_with ''/v1'' (rq_path x) \<longrightarrow>
              authenticate_headers (map shown_header (rq_headers x)) (auth g)
              \<and> fst (tryAcquire (estimated_tokens (declared_length (rq_headers x))) now (llm_limiter g))))"
proof -
  have g0: "gathering c g [] g" using assms(1,3-7) by (simp add: gathering_def same_config_def Let_def)
  from append_split_le [OF assms(10)] assms(11) obtain w where w: "h = arrived es @ w" by fastforce
  with assms(11) have "w \<noteq> []" by auto
  with run_gathering [OF g0 assms(9), of w x hash] w assms(8) obtain g1 where
    g1: "gw_run hash c es g = Some g1" "gathering c g (arrived es) g1" by auto
  let ?g = "received s c g1"
  have g2: "gathering c g (h @ t) ?g" using gathering_received [OF g1(2), of s] assms(10) by simp
  note q1 = gathering_request [OF g1(2)] and q2 = gathering_request [OF g2]
  note cfg = same_config_reply [OF q2(5)]
  have r: "reply now x t ?g = reply now x t g" "ports16 hash ?g" using cfg assms(2) by simp_all
  have "\<exists>g'. gw_step hash c (Client_Bytes now s) g1 = Some g' \<and> (case reply now x t g of
       Some resp \<Rightarrow> remotes (g_relay g') = remotes (g_relay g1) \<and> idle_map (g_relay g') = idle_map (g_relay g)
         \<and> next_remote (g_relay g') = next_remote (g_relay g1)
         \<and> (\<forall>d. d \<noteq> c \<longrightarrow> clients (g_relay g') d = clients (g_relay g) d)
         \<and> cl_sent (clients (g_relay g') c) = cl_sent (clients (g_relay g) c) @ resp
         \<and> cl_state (clients (g_relay g') c) = kDisconnecting
         \<and> resp \<in> {unauthorizedResponse, tooManyRequestsResponse, notFoundResponse}
     | None \<Rightarrow> (\<exists>r. sending c g r (h @ t) g')
         \<and> (starts_with ''/v1'' (rq_path x) \<longrightarrow>
              authenticate_headers (map shown_header (rq_headers x)) (auth g)
              \<and> fst (tryAcquire (estimated_tokens (declared_length (rq_headers x))) now (llm_limiter g))))"
  proof (cases "reply now x t g")
    case None
    then have "reply now x t ?g = None" using r(1) by simp
    from onMessage_completing [OF g2 assms(8,12) this r(2)] None show ?thesis
      by (auto simp: gw_step_bytes reply_def split: if_splits)
  next
    case (Some resp)
    then have "reply now x t ?g = Some resp" using r(1) by simp
    from onMessage_rejected [OF q2(2-4) assms(8) this, of hash] obtain g' where
      g': "gateway_onMessage hash now c ?g = Some g'" "remotes (g_relay g') = remotes (g_relay ?g)"
        "idle_map (g_relay g') = idle_map (g_relay ?g)" "next_remote (g_relay g') = next_remote (g_relay ?g)"
        "\<forall>d. d \<noteq> c \<longrightarrow> clients (g_relay g') d = clients (g_relay ?g) d"
        "clients (g_relay g') c = client_shutdown (client_send resp ((clients (g_relay ?g) c)
          \<lparr>cl_parser := parsed_request (cl_input (clients (g_relay ?g) c)) parser_new x (length h)\<rparr>))" by blast
    have "resp \<in> {unauthorizedResponse, tooManyRequestsResponse, notFoundResponse}"
      using Some by (auto simp: reply_def split: if_splits)
    moreover have "cl_sent (clients (g_relay g') c) = cl_sent (clients (g_relay g) c) @ resp"
      "cl_state (clients (g_relay g') c) = kDisconnecting"
      using g'(6) q2(6) assms(5) by (simp_all add: client_send_def client_shutdown_def unanswered_def)
    ultimately show ?thesis using Some g'(1-5) q2(6) by (auto simp: gw_step_bytes unanswered_def)
  qed
  with g1(1) q1(6,7) show ?thesis by (auto simp: unanswered_def)
qed

text \<open>
  C40. A rejected request that announces a body leaves the parser waiting for it, its head still in
  the buffer. The next bytes of the client are then a use of the null backend pointer, which
  crashes the gateway; with a backend still bound from the request before, the rejected bytes, head
  included, are sent to it.
\<close>

theorem rejected_body:
  assumes "fresh_parser (cl_parser (clients (g_relay g) c))" and "buf_inv (cl_input (clients (g_relay g) c))"
    and "readable (cl_input (clients (g_relay g) c)) = h @ t" and "request_head max_headers h x"
    and "0 < declared_length (rq_headers x)" and "reply now x t g = Some resp"
  shows "\<exists>g'. gateway_onMessage hash now c g = Some g' \<and>
    (case cl_backend (clients (g_relay g) c) of
       None \<Rightarrow> gateway_onMessage hash now' c (received s c g') = None
     | Some r \<Rightarrow> takes (remotes (g_relay g) r) \<longrightarrow>
         (\<exists>g''. gateway_onMessage hash now' c (received s c g') = Some g''
            \<and> rc_stream (remotes (g_relay g'') r)
                = rc_stream (remotes (g_relay g) r) @ take (declared_length (rq_headers x)) (h @ t @ s)))"
proof -
  let ?cl = "clients (g_relay g) c" and ?L = "declared_length (rq_headers x)"
  let ?p = "parsed_request (cl_input ?cl) parser_new x (length h)"
  note pf = parsed_request_fields [of ?p "cl_input ?cl" x "length h", OF refl]
  from onMessage_rejected [OF assms(1-4,6), of hash] obtain g' where g': "gateway_onMessage hash now c g = Some g'"
    "remotes (g_relay g') = remotes (g_relay g)" "cl_backend (clients (g_relay g') c) = cl_backend ?cl"
    "cl_parser (clients (g_relay g') c) = ?p" "cl_input (clients (g_relay g') c) = cl_input ?cl"
    by (auto simp: client_send_def client_shutdown_def)
  let ?g = "received s c g'"
  let ?b = "cl_input (clients (g_relay ?g) c)"
  have p: "cl_parser (clients (g_relay ?g) c) = ?p" "isExpectingBody ?p" using g'(4) pf(5) assms(5) by simp_all
  have b: "buf_inv ?b" "readable ?b = h @ t @ s" using g'(5) assms(2,3) by (simp_all add: append_data_props)
  have rem: "bytesRemaining ?p = ?L"
    using bytesRemaining_exact [of ?p] pf(4) declared_length_bound by (simp add: body_inv_def)
  have len: "readableBytes ?b = length (h @ t @ s)" using b by (metis length_readable)
  have tk: "take (min (readableBytes ?b) ?L) (readable ?b) = take ?L (h @ t @ s)"
    unfolding len b(2) by (metis take_take take_all_iff min.commute order_refl)
  show ?thesis
  proof (cases "cl_backend ?cl")
    case None
    then have "gateway_onMessage hash now' c ?g = None"
      using p g'(3) by (simp add: gateway_onMessage_def Let_def)
    with g'(1) None show ?thesis by auto
  next
    case (Some r)
    have "\<exists>g''. gateway_onMessage hash now' c ?g = Some g''
        \<and> rc_stream (remotes (g_relay g'') r) = rc_stream (remotes (g_relay g) r) @ take ?L (h @ t @ s)"
      if "takes (remotes (g_relay g) r)"
      using sendToBackend_stream(1) [OF that, of "take ?L (h @ t @ s)"] Some p g'(2,3) rem tk
      by (auto simp: gateway_onMessage_def Let_def upd_client_def upd_remote_def split: prod.split
          simp del: received_simps(4) take_append)
    with g'(1) Some show ?thesis by auto
  qed
qed

section \<open>Witnesses\<close>

lemma one_node_port:
  assumes "addr_port (node_addr (st p)) < 2 ^ 16"
  shows "addr_port (fst (server_for hash key (built hash st [Add_Node p]))) < 2 ^ 16"
proof -
  let ?s = "built hash st [Add_Node p]"
  have r: "ring_of ?s = ring_add_node hash (node_addr (st p)) []"
    using built_snoc(1) [of hash st "[]" p] by (simp add: built_empty)
  have "ring_lookup (ring_of ?s) (hash key) \<in> {None, Some (node_addr (st p))}"
  proof (cases "ring_lookup (ring_of ?s) (hash key)")
    case (Some a)
    with ring_lookup_value set_ring_add_node [of hash "node_addr (st p)" "[]"] have "a = node_addr (st p)"
      unfolding r by force
    with Some show ?thesis by simp
  qed simp
  with assms route_by_ring [OF built_inv, of hash key st "[Add_Node p]"] show ?thesis
    by (cases "getNextServer_key hash key ?s") (auto simp: server_for_def)
qed

definition sample_client :: client_conn where
  "sample_client = \<lparr>cl_state = kConnected, cl_alive = True, cl_parser = parser_new, cl_backend = None,
     cl_input = buffer_new 0, cl_sent = []\<rparr>"

definition sample_gateway :: gateway where
  "sample_gateway = gateway_new (\<lambda>_. 0) two_nodes [0] (\<lambda>_. sample_client)"

definition post_head :: "bytes \<Rightarrow> bytes" where
  "post_head path = render_request ''POST'' path [(''Content-Length'', ''2'')]"

definition post_request :: "bytes \<Rightarrow> phr_request" where
  "post_request path = \<lparr>rq_method = ''POST'', rq_path = path, rq_minor = 1,
     rq_headers = fields_at (length ''POST'' + length path + 12) [(''Content-Length'', ''2'')],
     method_ptr = 0, path_ptr = length ''POST'' + 1\<rparr>"

lemma post_head_ok:
  assumes "clean_path path"
  shows "request_head max_headers (post_head path) (post_request path)"
  unfolding post_head_def post_request_def
proof (rule render_request_head [OF _ _ assms])
  show "token ''POST''" by code_simp
  show "\<forall>f \<in> set [(''Content-Length'', ''2'')]. clean_field f" by code_simp
qed (simp_all add: max_headers_def)

lemma post_length: "declared_length (rq_headers (post_request path)) = 2"
proof -
  have "is_content_length ''Content-Length''" by code_simp
  moreover have "takeWhile is_digit ''2'' = ''2''" "dec_value ''2'' = 2" by code_simp+
  then have "from_chars ''2'' = Some 2" by (simp add: from_chars_def)
  ultimately show ?thesis by (simp add: declared_length_def post_request_def)
qed

lemma sample_gateway_facts:
  "idle_ready (g_relay sample_gateway)" "clients (g_relay sample_gateway) c = sample_client"
  "ports16 (\<lambda>_. 0) sample_gateway" "auth sample_gateway = auth_new"
  "im_limiter sample_gateway = token_bucket_new 10000 5000" "next_remote (g_relay sample_gateway) = 0"
proof -
  have "im_selector sample_gateway = built (\<lambda>_. 0) two_nodes [Add_Node 0]"
    by (simp add: sample_gateway_def gateway_new_def built_def)
  with one_node_port [of two_nodes 0] show "ports16 (\<lambda>_. 0) sample_gateway"
    by (simp add: ports16_def sample_gateway_def gateway_new_def two_nodes_def server_node_new_def)
qed (simp_all add: sample_gateway_def gateway_new_def relay_new_def idle_ready_def)

lemma sample_client_facts:
  "fresh_parser (cl_parser sample_client)" "cl_alive sample_client" "cl_state sample_client = kConnected"
  "buf_inv (cl_input sample_client)" "readable (cl_input sample_client) = []" "cl_backend sample_client = None"
  "cl_sent sample_client = []"
  by (simp_all add: sample_client_def buf_inv_new readable_new)

lemma im_granted: "fst (tryAcquire 1 0 (token_bucket_new 10000 5000))"
  by (simp add: tryAcquire_def acquire_once_def token_bucket_new_def settle_def produced_def Let_def)

theorem request_forwarded_witness:
  "\<exists>g r. gw_run (\<lambda>_. 0) 0 [Client_Bytes 0 (take 7 (post_head ''/im'')), Backend_Up 5,
        Client_Bytes 0 (drop 7 (post_head ''/im'') @ ''h''), Backend_Up 0, Client_Bytes 0 ''i''] sample_gateway = Some g
    \<and> clientConn (remotes (g_relay g) r) = Some 0
    \<and> rc_stream (remotes (g_relay g) r) = origin (g_relay sample_gateway) r @ post_head ''/im'' @ ''hi''"
proof -
  define h where "h = post_head ''/im''"
  let ?es = "[Client_Bytes 0 (take 7 h), Backend_Up 5, Client_Bytes 0 (drop 7 h @ ''h''), Backend_Up 0, Client_Bytes 0 ''i'']"
  have "clean_path ''/im''" by code_simp
  then have "request_head max_headers h (post_request ''/im'')" unfolding h_def by (rule post_head_ok)
  moreover have "arrived ?es = h @ ''hi''"
    by (simp add: append_assoc [symmetric] del: append_assoc)
  moreover have "segments_ok ?es" by (simp add: segments_ok_def h_def post_head_def render_request_def)
  moreover have "reply 0 (post_request ''/im'') t sample_gateway = None" for t
    using im_granted by (simp add: reply_def post_request_def starts_with_def sample_gateway_facts)
  then have "admitted (post_request ''/im'') ?es sample_gateway" by (auto simp: admitted_def)
  ultimately have "\<exists>g r. gw_run (\<lambda>_. 0) 0 ?es sample_gateway = Some g \<and> sending 0 sample_gateway r (h @ ''hi'') g
      \<and> cl_parser (clients (g_relay g) 0) = parser_new"
    by (intro request_forwarded) (simp_all add: sample_gateway_facts sample_client_facts post_length)
  then show ?thesis unfolding h_def [symmetric] by (auto simp: sending_def Let_def)
qed

lemma v1_rejected: "reply 0 (post_request ''/v1'') t sample_gateway = Some unauthorizedResponse"
proof -
  have "\<not> equals_ignore_case ''Content-Length'' ''Authorization''" by code_simp
  then show ?thesis
    by (simp add: reply_def post_request_def starts_with_def shown_header_def)
qed

theorem gateway_admission_witness:
  "\<exists>g1 g. gw_run (\<lambda>_. 0) 0 [Client_Bytes 0 (take 5 (post_head ''/v1'')), Backend_Up 3] sample_gateway = Some g1
    \<and> gw_step (\<lambda>_. 0) 0 (Client_Bytes 0 (drop 5 (post_head ''/v1''))) g1 = Some g
    \<and> remotes (g_relay g) = remotes (g_relay g1)
    \<and> cl_sent (clients (g_relay g) 0) = unauthorizedResponse"
proof -
  define h where "h = post_head ''/v1''"
  have "clean_path ''/v1''" by code_simp
  then have h: "request_head max_headers h (post_request ''/v1'')" unfolding h_def by (rule post_head_ok)
  let ?es = "[Client_Bytes 0 (take 5 h), Backend_Up 3]"
  have a: "arrived ?es @ drop 5 h = h @ []" by simp
  have l: "length (arrived ?es) < length h" by (simp add: h_def post_head_def render_request_def)
  have ok: "segments_ok ?es" by (simp add: segments_ok_def h_def post_head_def render_request_def)
  note f = sample_gateway_facts sample_client_facts
  have "\<exists>g1 g'. gw_run (\<lambda>_. 0) 0 ?es sample_gateway = Some g1
      \<and> gw_step (\<lambda>_. 0) 0 (Client_Bytes 0 (drop 5 h)) g1 = Some g'
      \<and> remotes (g_relay g') = remotes (g_relay g1)
      \<and> cl_sent (clients (g_relay g') 0) = cl_sent (clients (g_relay sample_gateway) 0) @ unauthorizedResponse"
    using gateway_admission [OF f(1,3) _ _ _ _ _ h ok a l, where now = 0] v1_rejected
    by (simp add: f del: gw_run.simps gw_step.simps) blast
  then show ?thesis by (auto simp: h_def f simp del: gw_run.simps gw_step.simps)
qed

theorem rejected_body_witness:
  "\<exists>g. gateway_onMessage (\<lambda>_. 0) 0 0 (received (post_head ''/v1'') 0 sample_gateway) = Some g
    \<and> gateway_onMessage (\<lambda>_. 0) 0 0 (received ''hi'' 0 g) = None"
proof -
  let ?g = "received (post_head ''/v1'') 0 sample_gateway"
  have "clean_path ''/v1''" by code_simp
  note h = post_head_ok [OF this]
  have sc: "same_config sample_gateway ?g" by (simp add: same_config_def received_def)
  have c: "fresh_parser (cl_parser (clients (g_relay ?g) 0))" "buf_inv (cl_input (clients (g_relay ?g) 0))"
    "readable (cl_input (clients (g_relay ?g) 0)) = post_head ''/v1'' @ []"
    by (simp_all add: sample_gateway_facts sample_client_facts append_data_props)
  have r: "reply 0 (post_request ''/v1'') [] ?g = Some unauthorizedResponse"
    using v1_rejected by (simp only: same_config_reply [OF sc])
  from rejected_body [OF c h _ r, of "\<lambda>_. 0" 0 "''hi''"] show ?thesis
    by (simp add: sample_gateway_facts sample_client_facts post_length)
qed

end
