(* ===== verification/Tlv_Codec.thy ===== *)
theory Tlv_Codec
  imports Byte_Buffer
begin

text \<open>
  The TLV codec of \<^verbatim>\<open>Codec/TLVCodec.cc\<close> and \<^verbatim>\<open>Codec/protocol.h\<close>: messages with a packed header of
  eleven bytes (magic, version, length, type, in network byte order) and a body. The message callback
  \<open>onTLVmessage\<close> takes the complete messages out of the buffer and calls \<open>TLVCodec::send\<close> with the type and the
  body of each; these calls, and that of \<open>shutdown\<close>, are its result.

  Of \<open>TLVCodec::send\<close> only the buffer it builds is modelled (\<open>tlv_frame\<close>): its last statement gives this
  \<open>Buffer\<close> to \<open>TcpConnection::send\<close>, which has no overload for it, so that the file does not compile
  and what would be sent is not defined.

  The header is the bytes it is in memory; \<open>htonl\<close> and \<open>ntohl\<close> are the big-endian numbers of four
  bytes. The \<open>version\<close> byte of a header that is built is never assigned: it is the parameter \<open>v\<close>.
\<close>

section \<open>The codec\<close>

definition protocol_magic :: nat where
  "protocol_magic = 0x12345678"

text \<open>\<open>sizeof(MessageHeader)\<close>, packed.\<close>

definition header_size :: nat where
  "header_size = 11"

fun be_bytes :: "nat \<Rightarrow> nat \<Rightarrow> bytes" where
  "be_bytes 0 n = []"
| "be_bytes (Suc k) n = be_bytes k (n div 256) @ [char_of (n mod 256)]"

definition be_value :: "bytes \<Rightarrow> nat" where
  "be_value s = fold (\<lambda>c n. n * 256 + of_char c) s 0"

record message_header =
  h_magic :: nat
  h_version :: char
  h_length :: nat
  h_type :: nat

definition read_message_header :: "bytes \<Rightarrow> message_header" where
  "read_message_header s =
     \<lparr>h_magic = be_value (take 4 s), h_version = s ! 4,
      h_length = be_value (take 4 (drop 5 s)), h_type = be_value (take 2 (drop 9 s))\<rparr>"

definition message_header_bytes :: "message_header \<Rightarrow> bytes" where
  "message_header_bytes h =
     be_bytes 4 (h_magic h) @ [h_version h] @ be_bytes 4 (h_length h) @ be_bytes 2 (h_type h)"

text \<open>The calls the codec makes: its own \<open>send\<close> and the connection's \<open>shutdown\<close>.\<close>

datatype tlv_call = Tlv_Send nat bytes | Tlv_Shutdown

text \<open>The bytes of the local buffer of \<open>TLVCodec::send\<close>.\<close>

definition tlv_frame :: "char \<Rightarrow> nat \<Rightarrow> bytes \<Rightarrow> bytes" where
  "tlv_frame v ty msg =
     (let header = \<lparr>h_magic = protocol_magic, h_version = v, h_length = length msg mod 2 ^ 32,
            h_type = ty\<rparr>;
          buf = append_data msg (append_data (message_header_bytes header) (buffer_new kInitiaSize))
      in readable buf)"

text \<open>The \<open>while\<close> loop; \<open>retrieveAllAsString(len)\<close> takes \<open>len\<close> bytes, which are there.\<close>

function onTLVmessage :: "buffer \<Rightarrow> tlv_call list \<times> buffer" where
  "onTLVmessage b =
     (if readableBytes b < header_size then ([], b)
      else
        let header = read_message_header (readable b);
            len = h_length header
        in if h_magic header \<noteq> protocol_magic then ([Tlv_Shutdown], b)
           else if readableBytes b < len + header_size then ([], b)
           else
             let b1 = retrieve header_size b;
                 body = take len (readable b1);
                 b2 = retrieve len b1
             in (case onTLVmessage b2 of (cs, b3) \<Rightarrow> (Tlv_Send (h_type header) body # cs, b3)))"
  by auto
termination
  by (relation "measure size")
    (auto simp: header_size_def size_buffer [symmetric] intro: le_less_trans [OF size_retrieve_le size_retrieve])

declare onTLVmessage.simps [simp del]

section \<open>Network byte order\<close>

lemma be_value_snoc [simp]: "be_value (s @ [c]) = be_value s * 256 + of_char c"
  by (simp add: be_value_def)

lemma be_value_bytes: "n < 256 ^ k \<Longrightarrow> be_value (be_bytes k n) = n"
proof (induction k arbitrary: n)
  case (Suc k)
  then have "n div 256 < 256 ^ k" by (simp add: div_less_iff_less_mult mult.commute)
  with Suc.IH [of "n div 256"] show ?case by simp
qed (simp add: be_value_def)

lemma length_be_bytes [simp]: "length (be_bytes k n) = k"
  by (induction k arbitrary: n) simp_all

lemma length_header_bytes [simp]: "length (message_header_bytes h) = header_size"
  by (simp add: message_header_bytes_def header_size_def)

definition header_fits :: "message_header \<Rightarrow> bool" where
  "header_fits h \<longleftrightarrow> h_magic h < 2 ^ 32 \<and> h_length h < 2 ^ 32 \<and> h_type h < 2 ^ 16"

lemma read_header_bytes:
  assumes "header_fits h"
  shows "read_message_header (message_header_bytes h @ s) = h"
proof -
  have v: "be_value (be_bytes 4 (h_magic h)) = h_magic h" "be_value (be_bytes 4 (h_length h)) = h_length h"
    "be_value (be_bytes 2 (h_type h)) = h_type h"
    using assms by (simp_all add: header_fits_def be_value_bytes)
  obtain m where m: "m = be_bytes 4 (h_magic h)" "length m = 4" by simp
  obtain l where l: "l = be_bytes 4 (h_length h)" "length l = 4" by simp
  obtain t where t: "t = be_bytes 2 (h_type h)" "length t = 2" by simp
  have s: "message_header_bytes h @ s = m @ [h_version h] @ l @ t @ s"
    by (simp add: message_header_bytes_def m(1) l(1) t(1))
  have "take 4 (m @ [h_version h] @ l @ t @ s) = m" "(m @ [h_version h] @ l @ t @ s) ! 4 = h_version h"
    "take 4 (drop 5 (m @ [h_version h] @ l @ t @ s)) = l" "take 2 (drop 9 (m @ [h_version h] @ l @ t @ s)) = t"
    using m(2) l(2) t(2) by (simp_all add: nth_append)
  then show ?thesis unfolding s using v m(1) l(1) t(1) by (simp add: read_message_header_def)
qed

section \<open>The messages in a byte string\<close>

text \<open>What the loop finds in \<open>s\<close>: the complete messages, the bytes left, and whether they begin with a
  wrong magic number.\<close>

function tlv_decode :: "bytes \<Rightarrow> (nat \<times> bytes) list \<times> bytes \<times> bool" where
  "tlv_decode s =
     (if length s < header_size then ([], s, False)
      else
        let h = read_message_header s in
        if h_magic h \<noteq> protocol_magic then ([], s, True)
        else if length s < h_length h + header_size then ([], s, False)
        else (case tlv_decode (drop (header_size + h_length h) s) of
                (ms, r, bad) \<Rightarrow> ((h_type h, take (h_length h) (drop header_size s)) # ms, r, bad)))"
  by auto
termination by (relation "measure length") (auto simp: header_size_def)

declare tlv_decode.simps [simp del]

definition tlv_message :: "char \<Rightarrow> nat \<Rightarrow> bytes \<Rightarrow> bytes" where
  "tlv_message v ty body =
     message_header_bytes \<lparr>h_magic = protocol_magic, h_version = v, h_length = length body mod 2 ^ 32,
       h_type = ty\<rparr> @ body"

lemma tlv_frame_eq: "tlv_frame v ty msg = tlv_message v ty msg"
  by (simp add: tlv_frame_def Let_def tlv_message_def append_data_props buf_inv_new readable_new)

definition tlv_calls :: "(nat \<times> bytes) list \<Rightarrow> bool \<Rightarrow> tlv_call list" where
  "tlv_calls ms bad = map (\<lambda>(ty, body). Tlv_Send ty body) ms @ (if bad then [Tlv_Shutdown] else [])"

text \<open>The loop on the buffer computes \<open>tlv_decode\<close> of its content.\<close>

lemma onTLVmessage_decode:
  assumes "buf_inv b" and "tlv_decode (readable b) = (ms, r, bad)" and "onTLVmessage b = (cs, b')"
  shows "buf_inv b' \<and> readable b' = r \<and> cs = tlv_calls ms bad"
  using assms
proof (induction b arbitrary: ms r bad cs rule: onTLVmessage.induct)
  case (1 b)
  let ?s = "readable b" and ?h = "read_message_header (readable b)"
  let ?b1 = "retrieve header_size b"
  let ?b2 = "retrieve (h_length ?h) ?b1" and ?body = "take (h_length ?h) (readable ?b1)"
  have rb: "readableBytes b = length ?s" using 1(2) by simp
  show ?case
  proof (cases "length ?s < header_size \<or> h_magic ?h \<noteq> protocol_magic \<or> length ?s < h_length ?h + header_size")
    case True
    let ?bad = "header_size \<le> length ?s \<and> h_magic ?h \<noteq> protocol_magic"
    have "onTLVmessage b = (if ?bad then [Tlv_Shutdown] else [], b)"
      using True by (simp add: onTLVmessage.simps [of b] Let_def rb) linarith
    moreover have "tlv_decode ?s = ([], ?s, ?bad)"
      using True by (simp add: tlv_decode.simps [of ?s] Let_def) linarith
    ultimately show ?thesis using 1(2-4) by (auto simp: tlv_calls_def)
  next
    case False
    have b2: "buf_inv ?b2" "readable ?b2 = drop (header_size + h_length ?h) ?s"
      using 1(2) by (simp_all add: buf_inv_retrieve readable_retrieve add.commute)
    have body: "?body = take (h_length ?h) (drop header_size ?s)" using 1(2) by (simp add: readable_retrieve)
    obtain ms1 where ms: "ms = (h_type ?h, ?body) # ms1" "tlv_decode (readable ?b2) = (ms1, r, bad)"
      using 1(3) False body b2(2)
      by (auto simp: tlv_decode.simps [of ?s] Let_def split: prod.splits if_splits)
    obtain cs1 where cs: "cs = Tlv_Send (h_type ?h) ?body # cs1" "onTLVmessage ?b2 = (cs1, b')"
      using 1(4) False rb by (auto simp: onTLVmessage.simps [of b] Let_def split: prod.splits)
    have "\<not> readableBytes b < header_size" "\<not> h_magic ?h \<noteq> protocol_magic"
      "\<not> readableBytes b < h_length ?h + header_size" using False rb by simp_all
    from 1(1) [OF this(1) refl refl this(2,3) refl refl refl b2(1) ms(2) cs(2)]
    show ?thesis by (simp add: cs(1) ms(1) tlv_calls_def)
  qed
qed

lemma read_header_append:
  "header_size \<le> length s \<Longrightarrow> read_message_header (s @ t) = read_message_header s"
  by (simp add: read_message_header_def header_size_def nth_append)

text \<open>More input does not change what has been decided.\<close>

lemma tlv_decode_append:
  "tlv_decode s = (ms, r, bad) \<Longrightarrow>
    tlv_decode (s @ t) =
      (if bad then (ms, r @ t, True)
       else (case tlv_decode (r @ t) of (ms', r', bad') \<Rightarrow> (ms @ ms', r', bad')))"
proof (induction s arbitrary: ms rule: tlv_decode.induct)
  case (1 s)
  let ?h = "read_message_header s"
  show ?case
  proof (cases "length s < header_size \<or> h_magic ?h \<noteq> protocol_magic \<or> length s < h_length ?h + header_size")
    case True
    then show ?thesis
    proof (cases "header_size \<le> length s \<and> h_magic ?h \<noteq> protocol_magic")
      case bad: True
      with 1(2) have "ms = [] \<and> r = s \<and> bad" by (auto simp: tlv_decode.simps [of s] Let_def)
      with bad show ?thesis by (simp add: tlv_decode.simps [of "s @ t"] read_header_append Let_def)
    next
      case False
      with True 1(2) have "ms = [] \<and> r = s \<and> \<not> bad"
        by (auto simp: tlv_decode.simps [of s] Let_def split: if_splits)
      then show ?thesis by (simp split: prod.split)
    qed
  next
    case False
    let ?s = "drop (header_size + h_length ?h) s"
    obtain ms1 where ms: "ms = (h_type ?h, take (h_length ?h) (drop header_size s)) # ms1" "tlv_decode ?s = (ms1, r, bad)"
      using 1(2) False by (auto simp: tlv_decode.simps [of s] Let_def split: prod.splits)
    have "tlv_decode (s @ t) = (case tlv_decode (?s @ t) of
        (ms', r', bad') \<Rightarrow> ((h_type ?h, take (h_length ?h) (drop header_size s)) # ms', r', bad'))"
      using False by (simp add: tlv_decode.simps [of "s @ t"] read_header_append Let_def)
    with 1(1) [OF _ refl _ _ ms(2)] False ms(1) show ?thesis by (auto split: prod.split)
  qed
qed

lemma tlv_decode_message:
  assumes "ty < 2 ^ 16" and "length body < 2 ^ 32"
  shows "tlv_decode (tlv_message v ty body @ s) = (case tlv_decode s of (ms, r, bad) \<Rightarrow> ((ty, body) # ms, r, bad))"
proof -
  let ?h = "\<lparr>h_magic = protocol_magic, h_version = v, h_length = length body, h_type = ty\<rparr>"
  have "header_fits ?h" using assms by (simp add: header_fits_def protocol_magic_def)
  from read_header_bytes [OF this, of "body @ s"]
  have "read_message_header (tlv_message v ty body @ s) = ?h"
    using assms(2) by (simp add: tlv_message_def)
  then show ?thesis
    using assms(2) by (simp add: tlv_decode.simps [of "tlv_message v ty body @ s"] Let_def)
      (simp add: tlv_message_def)
qed

lemma tlv_decode_bad_rest:
  "tlv_decode s = (ms, r, True) \<Longrightarrow> tlv_decode (r @ t) = ([], r @ t, True)"
proof (induction s arbitrary: ms rule: tlv_decode.induct)
  case (1 s)
  let ?h = "read_message_header s"
  show ?case
  proof (cases "h_magic ?h = protocol_magic \<and> header_size \<le> length s")
    case True
    with 1(2) have l: "\<not> length s < h_length ?h + header_size"
      by (auto simp: tlv_decode.simps [of s] Let_def split: if_splits)
    with True 1(2) obtain ms1 where "tlv_decode (drop (header_size + h_length ?h) s) = (ms1, r, True)"
      by (auto simp: tlv_decode.simps [of s] Let_def split: prod.splits)
    with 1(1) [OF _ refl _ _ this] True l show ?thesis by simp
  next
    case False
    with 1(2) have "r = s" "header_size \<le> length s" "h_magic ?h \<noteq> protocol_magic"
      by (auto simp: tlv_decode.simps [of s] Let_def split: if_splits)
    then show ?thesis by (simp add: tlv_decode.simps [of "s @ t"] read_header_append Let_def)
  qed
qed

section \<open>Any segmentation\<close>

text \<open>One call of \<open>onTLVmessage\<close> for each segment.\<close>

fun tlv_feed :: "bytes list \<Rightarrow> buffer \<Rightarrow> tlv_call list \<times> buffer" where
  "tlv_feed [] b = ([], b)"
| "tlv_feed (s # ss) b =
     (case onTLVmessage (append_data s b) of (cs, b1) \<Rightarrow>
       (case tlv_feed ss b1 of (ds, b2) \<Rightarrow> (cs @ ds, b2)))"

fun tlv_sends :: "tlv_call list \<Rightarrow> (nat \<times> bytes) list" where
  "tlv_sends [] = []"
| "tlv_sends (Tlv_Send ty body # cs) = (ty, body) # tlv_sends cs"
| "tlv_sends (Tlv_Shutdown # cs) = tlv_sends cs"

lemma tlv_sends_append [simp]: "tlv_sends (cs @ ds) = tlv_sends cs @ tlv_sends ds"
  by (induction cs rule: tlv_sends.induct) simp_all

lemma tlv_sends_calls [simp]: "tlv_sends (tlv_calls ms bad) = ms"
proof -
  have "tlv_sends (map (\<lambda>(ty, body). Tlv_Send ty body) ms) = ms" by (induction ms) auto
  then show ?thesis by (simp add: tlv_calls_def)
qed

lemma shutdown_in_calls [simp]: "Tlv_Shutdown \<in> set (tlv_calls ms bad) \<longleftrightarrow> bad"
  by (auto simp: tlv_calls_def)

text \<open>
  However a stream is cut into segments, \<open>TLVCodec::send\<close> is called once for each complete message, in
  order, with its type and body, and \<open>shutdown\<close> is called exactly when what follows begins with a
  wrong magic number.
\<close>

lemma tlv_feed_decode:
  assumes "buf_inv b" and "tlv_decode (readable b) = ([], readable b, bad0)"
    and "tlv_decode (readable b @ concat ss) = (ms, r, bad)" and "tlv_feed ss b = (cs, b')" and "ss \<noteq> []"
  shows "buf_inv b' \<and> readable b' = r \<and> tlv_sends cs = ms \<and> (Tlv_Shutdown \<in> set cs \<longleftrightarrow> bad)"
  using assms
proof (induction ss arbitrary: b bad0 ms r bad cs b')
  case (Cons s ss)
  let ?b = "append_data s b"
  obtain cs1 b1 where o: "onTLVmessage ?b = (cs1, b1)" by (rule prod.exhaust)
  obtain cs2 b2 where f: "tlv_feed ss b1 = (cs2, b2)" by (rule prod.exhaust)
  have e: "cs = cs1 @ cs2" "b' = b2" using Cons.prems(4) o f by simp_all
  have b: "buf_inv ?b" "readable ?b = readable b @ s" using Cons.prems(1) by (simp_all add: append_data_props)
  obtain ms1 r1 bad1 where d1: "tlv_decode (readable ?b) = (ms1, r1, bad1)" by (rule prod_cases3)
  from onTLVmessage_decode [OF b(1) d1 o]
  have b1: "buf_inv b1" "readable b1 = r1" "cs1 = tlv_calls ms1 bad1" by simp_all
  have r1: "tlv_decode r1 = ([], r1, bad1)"
    using tlv_decode_append [OF d1, of "[]"] tlv_decode_bad_rest [of "readable ?b" ms1 r1 "[]"] d1
    by (cases bad1) (auto split: prod.splits)
  have all: "tlv_decode (readable ?b @ concat ss) = (ms, r, bad)" using Cons.prems(3) b(2) by simp
  show ?case
  proof (cases "ss = []")
    case True
    with f all d1 b1 e show ?thesis by simp
  next
    case False
    obtain ms2 r2 bad2 where d2: "tlv_decode (r1 @ concat ss) = (ms2, r2, bad2)" by (rule prod_cases3)
    from Cons.IH [OF b1(1) _ _ f False, of bad1 ms2 r2 bad2] r1 d2 b1(2)
    have i: "buf_inv b2" "readable b2 = r2" "tlv_sends cs2 = ms2" "Tlv_Shutdown \<in> set cs2 \<longleftrightarrow> bad2" by simp_all
    from tlv_decode_append [OF d1, of "concat ss"] d2 all tlv_decode_bad_rest [of "readable ?b" ms1 r1 "concat ss"] d1
    have "ms = ms1 @ ms2" "r = r2" "bad = (bad1 \<or> bad2)" by (cases bad1; simp)+
    with i b1 e show ?thesis by auto
  qed
qed simp

lemma tlv_messages_delivered:
  assumes "\<forall>(u, ty, body) \<in> set ms. ty < 2 ^ 16 \<and> length body < 2 ^ 32"
    and "concat ss = concat (map (\<lambda>(u, ty, body). tlv_message u ty body) ms)" and "ss \<noteq> []"
    and "tlv_feed ss (buffer_new n) = (cs, b)"
  shows "tlv_sends cs = map snd ms \<and> Tlv_Shutdown \<notin> set cs \<and> readable b = []"
proof -
  have nil: "tlv_decode [] = ([], [], False)" by (simp add: tlv_decode.simps [of "[]"] header_size_def)
  have "tlv_decode (concat (map (\<lambda>(u, ty, body). tlv_message u ty body) ms)) = (map snd ms, [], False)"
    using assms(1)
  proof (induction ms)
    case (Cons m ms)
    obtain u ty body where m: "m = (u, ty, body)" by (cases m)
    with Cons tlv_decode_message [of ty body u "concat (map (\<lambda>(u, ty, body). tlv_message u ty body) ms)"]
    show ?case by simp
  qed (simp add: nil)
  with tlv_feed_decode [OF buf_inv_new _ _ assms(4,3), of False "map snd ms" "[]" False] assms(2) nil
  show ?thesis by (simp add: readable_new)
qed

end
