(* ===== verification/Loop_Thread.thy ===== *)
theory Loop_Thread
  imports Prelude
begin

text \<open>
  Starting an event loop in its own thread: \<open>EventLoopThread\<close> (\<^verbatim>\<open>src/EventLoopThread.cc\<close>,
  \<^verbatim>\<open>src/EventLoopThread.h\<close>) over \<open>Thread\<close> (\<^verbatim>\<open>utils/thread.cc\<close>). Two threads interleave: the
  caller of \<open>startLoop\<close> and the new thread in \<open>threadFunc\<close>. They share the pointer \<open>loop_\<close>, its
  mutex, the condition variable and the semaphore of \<open>Thread::start\<close>.

  A step is one synchronisation operation with the assignments up to the next one. A waiting caller
  is woken by \<open>notify_one\<close> or spuriously. The address of the loop on the new thread's stack is the
  parameter \<open>a\<close>.
\<close>

section \<open>The two threads\<close>

datatype starter_pc =
    S_Create      \<comment> \<open>before \<open>thread_.start()\<close>\<close>
  | S_Sem         \<comment> \<open>at \<open>sem_wait\<close>\<close>
  | S_Lock        \<comment> \<open>at \<open>unique_lock\<close>\<close>
  | S_Check       \<comment> \<open>at \<open>while(loop_==nullptr)\<close>, holding the mutex\<close>
  | S_Waiting     \<comment> \<open>in \<open>cond_.wait\<close>\<close>
  | S_Relock      \<comment> \<open>woken, taking the mutex again\<close>
  | S_Return nat  \<comment> \<open>returned\<close>

datatype worker_pc =
    T_None | T_Begin | T_Construct | T_Callback | T_Lock | T_Publish | T_Looping | T_Relock | T_Clear | T_Ended

record loop_thread =
  starter :: starter_pc
  worker :: worker_pc
  loop_ptr :: "nat option"
  locked :: bool
  sem :: nat
  callback_runs :: nat

definition loop_thread_new :: loop_thread where
  "loop_thread_new =
     \<lparr>starter = S_Create, worker = T_None, loop_ptr = None, locked = False, sem = 0, callback_runs = 0\<rparr>"

text \<open>\<open>startLoop\<close>, with \<open>Thread::start\<close>.\<close>

inductive startLoop_step :: "loop_thread \<Rightarrow> loop_thread \<Rightarrow> bool" where
  create: "starter s = S_Create \<Longrightarrow> startLoop_step s (s\<lparr>starter := S_Sem, worker := T_Begin\<rparr>)"
| sem_wait: "starter s = S_Sem \<Longrightarrow> 0 < sem s \<Longrightarrow> startLoop_step s (s\<lparr>starter := S_Lock, sem := sem s - 1\<rparr>)"
| lock: "starter s = S_Lock \<Longrightarrow> \<not> locked s \<Longrightarrow> startLoop_step s (s\<lparr>starter := S_Check, locked := True\<rparr>)"
| wait: "starter s = S_Check \<Longrightarrow> loop_ptr s = None \<Longrightarrow>
     startLoop_step s (s\<lparr>starter := S_Waiting, locked := False\<rparr>)"
| relock: "starter s = S_Relock \<Longrightarrow> \<not> locked s \<Longrightarrow> startLoop_step s (s\<lparr>starter := S_Check, locked := True\<rparr>)"
| return: "starter s = S_Check \<Longrightarrow> loop_ptr s = Some l \<Longrightarrow>
     startLoop_step s (s\<lparr>starter := S_Return l, locked := False\<rparr>)"

text \<open>\<open>threadFunc\<close> up to \<open>loop.loop()\<close>.\<close>

inductive threadFunc_step :: "nat \<Rightarrow> bool \<Rightarrow> loop_thread \<Rightarrow> loop_thread \<Rightarrow> bool" for a has_callback where
  post: "worker s = T_Begin \<Longrightarrow> threadFunc_step a has_callback s (s\<lparr>worker := T_Construct, sem := sem s + 1\<rparr>)"
| construct: "worker s = T_Construct \<Longrightarrow> threadFunc_step a has_callback s (s\<lparr>worker := T_Callback\<rparr>)"
| callback: "worker s = T_Callback \<Longrightarrow> threadFunc_step a has_callback s
     (s\<lparr>worker := T_Lock, callback_runs := callback_runs s + (if has_callback then 1 else 0)\<rparr>)"
| t_lock: "worker s = T_Lock \<Longrightarrow> \<not> locked s \<Longrightarrow>
     threadFunc_step a has_callback s (s\<lparr>worker := T_Publish, locked := True\<rparr>)"
| publish: "worker s = T_Publish \<Longrightarrow> threadFunc_step a has_callback s
     (s\<lparr>worker := T_Looping, loop_ptr := Some a, locked := False,
        starter := (if starter s = S_Waiting then S_Relock else starter s)\<rparr>)"

text \<open>\<open>loop.loop()\<close> returns, because somebody has called \<open>quit\<close>.\<close>

inductive loop_returns_step :: "loop_thread \<Rightarrow> loop_thread \<Rightarrow> bool" where
  loop_ends: "worker s = T_Looping \<Longrightarrow> loop_returns_step s (s\<lparr>worker := T_Relock\<rparr>)"

text \<open>The rest of \<open>threadFunc\<close>.\<close>

inductive thread_end_step :: "loop_thread \<Rightarrow> loop_thread \<Rightarrow> bool" where
  t_relock: "worker s = T_Relock \<Longrightarrow> \<not> locked s \<Longrightarrow> thread_end_step s (s\<lparr>worker := T_Clear, locked := True\<rparr>)"
| clear: "worker s = T_Clear \<Longrightarrow> thread_end_step s (s\<lparr>worker := T_Ended, loop_ptr := None, locked := False\<rparr>)"

inductive spurious_step :: "loop_thread \<Rightarrow> loop_thread \<Rightarrow> bool" where
  spurious: "starter s = S_Waiting \<Longrightarrow> spurious_step s (s\<lparr>starter := S_Relock\<rparr>)"

text \<open>
  \<open>start_run a cb quits n k s\<close>: after \<open>n\<close> steps of the two threads and \<open>k\<close> spurious wakeups, in any
  order, the state is \<open>s\<close>. The loop can return only if somebody may quit it (\<open>quits\<close>).
\<close>

inductive start_run :: "nat \<Rightarrow> bool \<Rightarrow> bool \<Rightarrow> nat \<Rightarrow> nat \<Rightarrow> loop_thread \<Rightarrow> bool" for a has_callback quits where
  run_new: "start_run a has_callback quits 0 0 loop_thread_new"
| run_start: "start_run a has_callback quits n k s \<Longrightarrow> startLoop_step s s' \<Longrightarrow>
     start_run a has_callback quits (Suc n) k s'"
| run_thread: "start_run a has_callback quits n k s \<Longrightarrow> threadFunc_step a has_callback s s' \<Longrightarrow>
     start_run a has_callback quits (Suc n) k s'"
| run_returns: "start_run a has_callback quits n k s \<Longrightarrow> quits \<Longrightarrow> loop_returns_step s s' \<Longrightarrow>
     start_run a has_callback quits (Suc n) k s'"
| run_end: "start_run a has_callback quits n k s \<Longrightarrow> thread_end_step s s' \<Longrightarrow>
     start_run a has_callback quits (Suc n) k s'"
| run_spurious: "start_run a has_callback quits n k s \<Longrightarrow> spurious_step s s' \<Longrightarrow>
     start_run a has_callback quits n (Suc k) s'"

text \<open>A state in which neither thread can go on by itself.\<close>

definition at_rest :: "nat \<Rightarrow> bool \<Rightarrow> loop_thread \<Rightarrow> bool" where
  "at_rest a has_callback s \<longleftrightarrow>
     (\<nexists>s'. startLoop_step s s' \<or> threadFunc_step a has_callback s s' \<or> thread_end_step s s')"

inductive_cases startLoop_stepE: "startLoop_step s s'"
inductive_cases threadFunc_stepE: "threadFunc_step a has_callback s s'"
inductive_cases thread_end_stepE: "thread_end_step s s'"
inductive_simps loop_returns_step_iff: "loop_returns_step s s'"
inductive_simps spurious_step_iff: "spurious_step s s'"

section \<open>The invariant\<close>

definition started :: "nat \<Rightarrow> bool \<Rightarrow> bool \<Rightarrow> loop_thread \<Rightarrow> bool" where
  "started a has_callback quits s \<longleftrightarrow>
     (worker s = T_None \<longleftrightarrow> starter s = S_Create)
     \<and> (worker s = T_Begin \<longrightarrow> starter s = S_Sem)
     \<and> sem s = (if starter s = S_Sem \<and> worker s \<noteq> T_Begin then 1 else 0)
     \<and> loop_ptr s = (if worker s \<in> {T_Looping, T_Relock, T_Clear} then Some a else None)
     \<and> (locked s \<longleftrightarrow> starter s = S_Check \<or> worker s \<in> {T_Publish, T_Clear})
     \<and> \<not> (starter s = S_Check \<and> worker s \<in> {T_Publish, T_Clear})
     \<and> (starter s = S_Waiting \<longrightarrow> worker s \<notin> {T_Looping, T_Relock, T_Clear})
     \<and> (\<forall>l. starter s = S_Return l \<longrightarrow> l = a \<and> worker s \<in> {T_Looping, T_Relock, T_Clear, T_Ended})
     \<and> callback_runs s = (if has_callback
         \<and> worker s \<in> {T_Lock, T_Publish, T_Looping, T_Relock, T_Clear, T_Ended} then 1 else 0)
     \<and> (worker s \<in> {T_Relock, T_Clear, T_Ended} \<longrightarrow> quits)"

lemma started_startLoop: "startLoop_step s s' \<Longrightarrow> started a cb q s \<Longrightarrow> started a cb q s'"
  by (erule startLoop_stepE; cases "worker s"; simp add: started_def)

lemma started_threadFunc: "threadFunc_step a cb s s' \<Longrightarrow> started a cb q s \<Longrightarrow> started a cb q s'"
  by (erule threadFunc_stepE) (cases "starter s"; simp add: started_def)+

lemma started_returns: "q \<Longrightarrow> loop_returns_step s s' \<Longrightarrow> started a cb q s \<Longrightarrow> started a cb q s'"
  by (cases "starter s") (auto simp: loop_returns_step_iff started_def)

lemma started_end: "thread_end_step s s' \<Longrightarrow> started a cb q s \<Longrightarrow> started a cb q s'"
  by (erule thread_end_stepE) (cases "starter s"; simp add: started_def)+

lemma started_spurious: "spurious_step s s' \<Longrightarrow> started a cb q s \<Longrightarrow> started a cb q s'"
  by (auto simp: spurious_step_iff started_def)

lemma start_run_started: "start_run a cb q n k s \<Longrightarrow> started a cb q s"
proof (induction rule: start_run.induct)
  case run_new
  show ?case by (simp add: started_def loop_thread_new_def)
next
  case (run_returns n k s s')
  then show ?case by (blast intro: started_returns)
qed (erule started_startLoop started_threadFunc started_end started_spurious, assumption)+

lemma started_return:
  "started a cb q s \<Longrightarrow> starter s = S_Return l \<Longrightarrow>
    l = a \<and> (\<not> q \<longrightarrow> loop_ptr s = Some a) \<and> callback_runs s = (if cb then 1 else 0)"
  by (cases "worker s") (auto simp: started_def)

text \<open>Until the caller has returned somebody can move, unless the thread has ended while it waits.\<close>

lemma published_progress:
  assumes "started a cb q s" and "worker s \<in> {T_Looping, T_Ended}" and "\<nexists>l. starter s = S_Return l"
    and "\<not> (starter s = S_Waiting \<and> worker s = T_Ended)"
  shows "\<exists>s'. startLoop_step s s'"
proof (cases "starter s")
  case S_Sem
  with assms have "0 < sem s" by (auto simp: started_def)
  with S_Sem show ?thesis using startLoop_step.sem_wait by blast
next
  case S_Lock
  with assms have "\<not> locked s" by (auto simp: started_def)
  with S_Lock show ?thesis using startLoop_step.lock by blast
next
  case S_Check
  then show ?thesis using startLoop_step.return startLoop_step.wait by (cases "loop_ptr s") blast+
next
  case S_Relock
  with assms have "\<not> locked s" by (auto simp: started_def)
  with S_Relock show ?thesis using startLoop_step.relock by blast
qed (use assms in \<open>auto simp: started_def\<close>)

lemma start_progress:
  assumes "started a cb q s" and "\<nexists>l. starter s = S_Return l"
    and w: "\<not> (starter s = S_Waiting \<and> worker s = T_Ended)"
  shows "\<exists>s'. startLoop_step s s' \<or> threadFunc_step a cb s s' \<or> thread_end_step s s'"
proof (cases "worker s")
  case T_Looping
  with published_progress [OF assms(1) _ assms(2) w] show ?thesis by blast
next
  case T_Ended
  with published_progress [OF assms(1) _ assms(2) w] show ?thesis by blast
next
  case T_Lock
  show ?thesis
  proof (cases "locked s")
    case True
    with assms(1) T_Lock have "starter s = S_Check" "loop_ptr s = None" by (simp_all add: started_def)
    then show ?thesis using startLoop_step.wait by blast
  next
    case False
    with T_Lock show ?thesis using threadFunc_step.t_lock by blast
  qed
next
  case T_Relock
  show ?thesis
  proof (cases "locked s")
    case True
    with assms(1) T_Relock have "starter s = S_Check" "loop_ptr s = Some a" by (simp_all add: started_def)
    then show ?thesis using startLoop_step.return by blast
  next
    case False
    with T_Relock show ?thesis using thread_end_step.t_relock by blast
  qed
next
  case T_Clear
  then show ?thesis using thread_end_step.clear by blast
qed (use assms in \<open>auto simp: started_def intro: startLoop_step.intros threadFunc_step.intros\<close>)

text \<open>And every move brings the end nearer; a spurious wakeup costs two moves.\<close>

fun starter_left :: "starter_pc \<Rightarrow> nat" where
  "starter_left S_Create = 7"
| "starter_left S_Sem = 6"
| "starter_left S_Lock = 5"
| "starter_left S_Check = 2"
| "starter_left S_Waiting = 1"
| "starter_left S_Relock = 3"
| "starter_left (S_Return l) = 0"

fun worker_left :: "worker_pc \<Rightarrow> nat" where
  "worker_left T_None = 15"
| "worker_left T_Begin = 14"
| "worker_left T_Construct = 9"
| "worker_left T_Callback = 8"
| "worker_left T_Lock = 7"
| "worker_left T_Publish = 6"
| "worker_left T_Looping = 3"
| "worker_left T_Relock = 2"
| "worker_left T_Clear = 1"
| "worker_left T_Ended = 0"

definition steps_left :: "loop_thread \<Rightarrow> nat" where
  "steps_left s = starter_left (starter s) + worker_left (worker s)"

lemma startLoop_left: "startLoop_step s s' \<Longrightarrow> started a cb q s \<Longrightarrow> steps_left s' < steps_left s"
  by (induction rule: startLoop_step.induct) (auto simp: steps_left_def started_def)

lemma threadFunc_left: "threadFunc_step a cb s s' \<Longrightarrow> steps_left s' < steps_left s"
  by (induction rule: threadFunc_step.induct) (auto simp: steps_left_def)

lemma thread_end_left: "loop_returns_step s s' \<or> thread_end_step s s' \<Longrightarrow> steps_left s' < steps_left s"
  by (auto simp: loop_returns_step_iff steps_left_def elim!: thread_end_stepE)

lemma spurious_left: "spurious_step s s' \<Longrightarrow> steps_left s' = steps_left s + 2"
  by (auto simp: spurious_step_iff steps_left_def)

lemma start_run_left: "start_run a cb q n k s \<Longrightarrow> n + steps_left s \<le> 22 + 2 * k"
proof (induction rule: start_run.induct)
  case (run_start n k s s')
  with startLoop_left [OF run_start(2) start_run_started [OF run_start(1)]] show ?case by linarith
next
  case (run_thread n k s s')
  with threadFunc_left [OF run_thread(2)] show ?case by linarith
next
  case (run_returns n k s s')
  with thread_end_left [of s s'] show ?case by simp
next
  case (run_end n k s s')
  with thread_end_left [of s s'] show ?case by simp
next
  case (run_spurious n k s s')
  with spurious_left [OF run_spurious(2)] show ?case by simp
qed (simp add: steps_left_def loop_thread_new_def)

section \<open>Properties\<close>

text \<open>
  C13. \<open>startLoop\<close> returns, whatever the interleaving with the new thread, as long as nobody quits the new
  loop (\<open>quits\<close> is false): the wakeup is never lost, so a run has at most 22 steps and two more for each
  spurious wakeup, and the two threads can come to rest only with the caller returned. When
  the loop may be quit, and the new thread then runs to its end and resets \<open>loop_\<close>, the bound is the
  same and there is one more state of rest: the thread has ended and the caller waits. In both cases the
  address returned is that of the thread's loop, the initialisation callback (if there is
  one) has then run once, and if nobody quits, the loop is still published.
\<close>

theorem startLoop_returns:
  assumes "start_run a has_callback quits n k s"
  shows "n \<le> 22 + 2 * k
    \<and> (at_rest a has_callback s \<longrightarrow>
         starter s = S_Return a \<or> quits \<and> starter s = S_Waiting \<and> worker s = T_Ended)
    \<and> (\<forall>l. starter s = S_Return l \<longrightarrow>
         l = a \<and> (\<not> quits \<longrightarrow> loop_ptr s = Some a) \<and> callback_runs s = (if has_callback then 1 else 0))"
proof -
  have st: "started a has_callback quits s" using assms by (rule start_run_started)
  have "n \<le> 22 + 2 * k" using start_run_left [OF assms] by linarith
  moreover have "starter s = S_Return a \<or> quits \<and> starter s = S_Waiting \<and> worker s = T_Ended"
    if "at_rest a has_callback s"
  proof (cases "\<exists>l. starter s = S_Return l")
    case True
    then show ?thesis using started_return [OF st] by blast
  next
    case False
    with start_progress [OF st] that have "starter s = S_Waiting \<and> worker s = T_Ended"
      unfolding at_rest_def by blast
    with st show ?thesis by (simp add: started_def)
  qed
  ultimately show ?thesis using started_return [OF st] by blast
qed

text \<open>The second state of rest is reached: a loop that is quit before the caller has read its address
  leaves the caller waiting for ever.\<close>

lemma stuck:
  assumes "starter s = S_Waiting" and "worker s = T_Ended"
  shows "at_rest a cb s"
  using assms by (auto simp: at_rest_def elim: startLoop_stepE threadFunc_stepE thread_end_stepE)

lemma quit_before_read:
  assumes r: "start_run a cb True n k s" and "starter s = S_Relock" and "worker s = T_Looping"
  shows "\<exists>s'. start_run a cb True (n + 5) k s' \<and> starter s' = S_Waiting \<and> at_rest a cb s'"
proof -
  have l: "\<not> locked s" using start_run_started [OF r] assms(2,3) by (simp add: started_def)
  let ?s1 = "s\<lparr>worker := T_Relock\<rparr>"
  let ?s2 = "?s1\<lparr>worker := T_Clear, locked := True\<rparr>"
  let ?s3 = "?s2\<lparr>worker := T_Ended, loop_ptr := None, locked := False\<rparr>"
  let ?s4 = "?s3\<lparr>starter := S_Check, locked := True\<rparr>"
  let ?s5 = "?s4\<lparr>starter := S_Waiting, locked := False\<rparr>"
  have "start_run a cb True (Suc n) k ?s1"
    by (rule run_returns [OF r TrueI]) (rule loop_returns_step.loop_ends [OF assms(3)])
  then have "start_run a cb True (Suc (Suc n)) k ?s2"
    by (rule run_end) (rule thread_end_step.t_relock; use l in simp)
  then have "start_run a cb True (Suc (Suc (Suc n))) k ?s3"
    by (rule run_end) (rule thread_end_step.clear; simp)
  then have "start_run a cb True (Suc (Suc (Suc (Suc n)))) k ?s4"
    by (rule run_start) (rule startLoop_step.relock; use assms(2) in simp)
  then have "start_run a cb True (Suc (Suc (Suc (Suc (Suc n))))) k ?s5"
    by (rule run_start) (rule startLoop_step.wait; simp)
  moreover have "at_rest a cb ?s5" by (rule stuck) simp_all
  ultimately show ?thesis by (intro exI [of _ ?s5]) (simp add: eval_nat_numeral)
qed

text \<open>A run in which the caller waits before the loop is published, up to the notification.\<close>

abbreviation lt_state :: "starter_pc \<Rightarrow> worker_pc \<Rightarrow> nat option \<Rightarrow> bool \<Rightarrow> nat \<Rightarrow> nat \<Rightarrow> loop_thread" where
  "lt_state pc w l m e k \<equiv>
     \<lparr>starter = pc, worker = w, loop_ptr = l, locked = m, sem = e, callback_runs = k\<rparr>"

lemma notified_run: "start_run 7 True q 9 0 (lt_state S_Relock T_Looping (Some 7) False 0 1)"
proof -
  let ?r = "\<lambda>n s. start_run 7 True q n 0 s"
  have "?r 0 (lt_state S_Create T_None None False 0 0)"
    using run_new [of 7 True q] by (simp add: loop_thread_new_def)
  from run_start [OF this startLoop_step.create]
  have "?r (Suc 0) (lt_state S_Sem T_Begin None False 0 0)" by simp
  from run_thread [OF this threadFunc_step.post]
  have "?r (Suc (Suc 0)) (lt_state S_Sem T_Construct None False 1 0)" by simp
  from run_start [OF this startLoop_step.sem_wait]
  have "?r (Suc (Suc (Suc 0))) (lt_state S_Lock T_Construct None False 0 0)" by simp
  from run_start [OF this startLoop_step.lock]
  have "?r (Suc (Suc (Suc (Suc 0)))) (lt_state S_Check T_Construct None True 0 0)" by simp
  from run_start [OF this startLoop_step.wait]
  have "?r (Suc (Suc (Suc (Suc (Suc 0))))) (lt_state S_Waiting T_Construct None False 0 0)" by simp
  from run_thread [OF this threadFunc_step.construct]
  have "?r (Suc (Suc (Suc (Suc (Suc (Suc 0)))))) (lt_state S_Waiting T_Callback None False 0 0)" by simp
  from run_thread [OF this threadFunc_step.callback]
  have "?r (Suc (Suc (Suc (Suc (Suc (Suc (Suc 0))))))) (lt_state S_Waiting T_Lock None False 0 1)" by simp
  from run_thread [OF this threadFunc_step.t_lock]
  have "?r (Suc (Suc (Suc (Suc (Suc (Suc (Suc (Suc 0)))))))) (lt_state S_Waiting T_Publish None True 0 1)" by simp
  from run_thread [OF this threadFunc_step.publish]
  have "?r (Suc (Suc (Suc (Suc (Suc (Suc (Suc (Suc (Suc 0))))))))) (lt_state S_Relock T_Looping (Some 7) False 0 1)" by simp
  then show ?thesis by (simp add: eval_nat_numeral)
qed

text \<open>Then the caller returns, or, if the loop is quit at this moment, waits for ever.\<close>

lemma waiting_run: "start_run 7 True q 11 0 (lt_state (S_Return 7) T_Looping (Some 7) False 0 1)"
proof -
  from run_start [OF notified_run startLoop_step.relock]
  have "start_run 7 True q (Suc 9) 0 (lt_state S_Check T_Looping (Some 7) True 0 1)" by simp
  from run_start [OF this startLoop_step.return]
  have "start_run 7 True q (Suc (Suc 9)) 0 (lt_state (S_Return 7) T_Looping (Some 7) False 0 1)" by simp
  then show ?thesis by simp
qed

lemma waits_for_ever: "\<exists>s. start_run 7 True True 14 0 s \<and> starter s = S_Waiting \<and> at_rest 7 True s"
  using quit_before_read [OF notified_run] by simp

theorem startLoop_returns_witness:
  "\<exists>s. start_run 7 True False 11 0 s \<and> starter s = S_Return 7 \<and> loop_ptr s = Some 7 \<and> callback_runs s = 1
    \<and> \<not> (\<exists>s'. start_run 7 True False 23 0 s')"
proof -
  let ?s = "lt_state (S_Return 7) T_Looping (Some 7) False 0 1"
  have "starter ?s = S_Return 7 \<and> loop_ptr ?s = Some 7 \<and> callback_runs ?s = 1"
    using startLoop_returns [OF waiting_run [of False]] by simp
  moreover have "\<not> start_run 7 True False 23 0 s'" for s'
    using startLoop_returns [of 7 True False 23 0 s'] by auto
  ultimately show ?thesis using waiting_run [of False] by blast
qed

end
