(* ===== verification/Tcp_Server.thy ===== *)
theory Tcp_Server
  imports Http_Parser Server_Node Tcp_Connection "HOL-Library.Sublist"
begin

text \<open>
  The listening side: \<open>Acceptor\<close> (\<^verbatim>\<open>src/Acceptor.cc\<close>), \<open>EventLoopThreadPool\<close>
  (\<^verbatim>\<open>src/EventLoopThreadPool.cc\<close>) and \<open>TcpServer\<close> (\<^verbatim>\<open>src/TcpServer.cc\<close>, \<^verbatim>\<open>src/TcpServer.h\<close>).

  Loops and connections are numbers. \<open>jobs l\<close> are the functors queued in loop \<open>l\<close> (their order of
  execution is the subject of \<open>Event_Loop\<close>); \<open>runInLoop\<close> from the thread of \<open>l\<close> itself runs a
  functor at once. \<open>conns c\<close> is the object of connection \<open>c\<close>, in the model of \<open>Tcp_Connection\<close>: the functors call
  its \<open>connectEstablished\<close> and \<open>connectDestroyed\<close>, and whenever it calls its close callback, the server's
  \<open>removeConnection\<close> runs. \<open>journal\<close> records what was done to a connection, and in which loop.
\<close>

section \<open>The pool of loops\<close>

record loop_pool =
  baseloop :: nat
  loops :: "nat list"
  next_loop :: nat
  numThreads :: int
  pool_started :: bool





definition getAllLoops :: "loop_pool \<Rightarrow> nat list" where
  "getAllLoops p = (if loops p = [] then [baseloop p] else loops p)"

section \<open>The server\<close>

datatype server_job = Establish nat | Destroy nat | Remove_In_Loop nat

record tcp_server =
  sv_loop :: nat
  sv_name :: bytes
  sv_ipPort :: bytes
  sv_pool :: loop_pool
  sv_started :: nat
  listening :: bool
  nexConnId :: nat
  connections :: "bytes \<Rightarrow> nat option"
  conn_name :: "nat \<Rightarrow> bytes"
  conn_loop :: "nat \<Rightarrow> nat"
  next_conn :: nat
  sv_write_complete :: bool
  conns :: "nat \<Rightarrow> tcp_connection"
  jobs :: "nat \<Rightarrow> server_job list"
  journal :: "(nat \<times> server_job) list"



text \<open>\<open>runInLoop\<close> and \<open>queueInLoop\<close>, called in the thread of loop \<open>here\<close>.\<close>

definition queue_job :: "nat \<Rightarrow> server_job \<Rightarrow> tcp_server \<Rightarrow> tcp_server" where
  "queue_job l j s = s\<lparr>jobs := (jobs s)(l := jobs s l @ [j])\<rparr>"

definition removeConnectionInLoop :: "nat \<Rightarrow> tcp_server \<Rightarrow> tcp_server" where
  "removeConnectionInLoop c s =
     queue_job (conn_loop s c) (Destroy c) (s\<lparr>connections := (connections s)(conn_name s c := None)\<rparr>)"

definition run_job :: "nat \<Rightarrow> server_job \<Rightarrow> tcp_server \<Rightarrow> tcp_server" where
  "run_job here j s =
     (let s1 = s\<lparr>journal := journal s @ [(here, j)]\<rparr>
      in case j of
        Remove_In_Loop c \<Rightarrow> removeConnectionInLoop c s1
      | Establish c \<Rightarrow> s1\<lparr>conns := (conns s)(c := connectEstablished (conns s c))\<rparr>
      | Destroy c \<Rightarrow> s1\<lparr>conns := (conns s)(c := connectDestroyed (conns s c))\<rparr>)"

definition run_in_loop :: "nat \<Rightarrow> nat \<Rightarrow> server_job \<Rightarrow> tcp_server \<Rightarrow> tcp_server" where
  "run_in_loop here l j s = (if here = l then run_job here j s else queue_job l j s)"








text \<open>The destructor, for the connections left in the map (in some order \<open>cs\<close>).\<close>

definition server_destroy :: "nat list \<Rightarrow> tcp_server \<Rightarrow> tcp_server" where
  "server_destroy cs s = fold (\<lambda>c. run_in_loop (sv_loop s) (conn_loop s c) (Destroy c)) cs s"

section \<open>Histories\<close>


text \<open>The close callback of the connection runs when its list of callbacks grows by one.\<close>

definition close_calls :: "tcp_connection \<Rightarrow> nat" where
  "close_calls k = count_list (notified k) Close_Cb"





section \<open>The life of a connection\<close>

fun about :: "server_job \<Rightarrow> nat" where
  "about (Establish c) = c"
| "about (Destroy c) = c"
| "about (Remove_In_Loop c) = c"

definition pending :: "tcp_server \<Rightarrow> nat \<Rightarrow> (nat \<times> server_job) set" where
  "pending s c = {(l, j). j \<in> set (jobs s l) \<and> about j = c}"

definition log_of :: "tcp_server \<Rightarrow> nat \<Rightarrow> (nat \<times> server_job) list" where
  "log_of s c = filter (\<lambda>x. about (snd x) = c) (journal s)"


lemma close_calls_simps [simp]:
  "close_calls (notify n x) = close_calls x + (if n = Close_Cb then 1 else 0)"
  "close_calls (x\<lparr>state := a\<rparr>) = close_calls x" "close_calls (x\<lparr>tasks := ts\<rparr>) = close_calls x"
  "close_calls (x\<lparr>inputBuffer := b\<rparr>) = close_calls x" "close_calls (x\<lparr>lastReceiveTime := m\<rparr>) = close_calls x"
  "close_calls (x\<lparr>outputBuffer := b\<rparr>) = close_calls x" "close_calls (x\<lparr>wire := w\<rparr>) = close_calls x"
  "close_calls (x\<lparr>channel_removed := r\<rparr>) = close_calls x" "close_calls (x\<lparr>fin_sent := r\<rparr>) = close_calls x"
  "close_calls (x\<lparr>channel_events := v\<rparr>) = close_calls x" "close_calls (x\<lparr>channel_tied := r\<rparr>) = close_calls x"
  by (simp_all add: close_calls_def notify_def)



















section \<open>What the operations do to jobs and journal\<close>


lemma queue_job_frame [simp]:
  "journal (queue_job l j s) = journal s" "connections (queue_job l j s) = connections s"
  "conn_name (queue_job l j s) = conn_name s" "conn_loop (queue_job l j s) = conn_loop s"
  "next_conn (queue_job l j s) = next_conn s" "nexConnId (queue_job l j s) = nexConnId s"
  "sv_loop (queue_job l j s) = sv_loop s" "sv_pool (queue_job l j s) = sv_pool s"
  "sv_name (queue_job l j s) = sv_name s" "sv_ipPort (queue_job l j s) = sv_ipPort s"
  "listening (queue_job l j s) = listening s" "conns (queue_job l j s) = conns s"
  by (simp_all add: queue_job_def)

lemma pending_update [simp]:
  "pending (s\<lparr>journal := x\<rparr>) c = pending s c" "pending (s\<lparr>connections := y\<rparr>) c = pending s c"
  "pending (s\<lparr>conns := k\<rparr>) c = pending s c" "log_of (s\<lparr>conns := k\<rparr>) c = log_of s c"
  "log_of (s\<lparr>connections := y\<rparr>) c = log_of s c" "log_of (s\<lparr>jobs := z\<rparr>) c = log_of s c"
  by (simp_all add: pending_def log_of_def)


lemma log_of_queue [simp]: "log_of (queue_job l j s) c = log_of s c"
  by (simp add: log_of_def)

lemma run_job_frame [simp]:
  "conn_name (run_job l j s) = conn_name s" "conn_loop (run_job l j s) = conn_loop s"
  "next_conn (run_job l j s) = next_conn s" "nexConnId (run_job l j s) = nexConnId s"
  "sv_loop (run_job l j s) = sv_loop s" "sv_pool (run_job l j s) = sv_pool s"
  "sv_name (run_job l j s) = sv_name s" "sv_ipPort (run_job l j s) = sv_ipPort s"
  "listening (run_job l j s) = listening s"
  by (cases j; simp add: run_job_def removeConnectionInLoop_def Let_def)+














section \<open>The invariant is kept\<close>























section \<open>Properties\<close>





end
