(* ===== verification/Tcp_Client.thy ===== *)
theory Tcp_Client
  imports Connector Tcp_Connection Server_Node
begin

text \<open>
  Outgoing connections with their user: \<open>TcpClient\<close> of \<^verbatim>\<open>src/TcpClient.h\<close> and
  \<^verbatim>\<open>src/TcpClient.cc\<close>, which joins a \<open>Connector\<close> to the \<open>TcpConnection\<close>s made from the
  descriptors it hands over.

  The connections are kept in a store indexed by their number; \<open>tl_conn\<close> is the member \<open>conn_\<close>. The
  state of the user of the client is the extension of the record, so the callbacks a user sets are
  functions on the extended record: \<open>on_up\<close> and \<open>on_down\<close> are the two branches of its connection callback
  and \<open>on_error\<close> its error callback. Everything runs in the thread of the client's loop.
\<close>

section \<open>State\<close>

record tcp_client =
  tl_connector :: connector
  tl_server :: inet_address
  tl_name :: bytes
  tl_conn :: "nat option"
  tl_conns :: "nat \<Rightarrow> tcp_connection"
  tl_names :: "nat \<Rightarrow> bytes"
  tl_count :: nat
  tl_nexConnId :: nat
  tl_retry :: bool
  tl_connect :: bool
  tl_write_complete :: bool
  tl_destroys :: "nat list"

text \<open>\<open>tl_destroys\<close>: the queued functors that call \<open>connectDestroyed\<close>.\<close>

definition tcp_client_new :: "inet_address \<Rightarrow> bytes \<Rightarrow> tcp_client" where
  "tcp_client_new serverAddr name =
     \<lparr>tl_connector = setNewConnectionCallback connector_new, tl_server = serverAddr, tl_name = name,
      tl_conn = None, tl_conns = (\<lambda>_. tcp_connection_new 0), tl_names = (\<lambda>_. []), tl_count = 0,
      tl_nexConnId = 1, tl_retry = False, tl_connect = True, tl_write_complete = False, tl_destroys = []\<rparr>"

definition upd_conn ::
  "nat \<Rightarrow> (tcp_connection \<Rightarrow> tcp_connection) \<Rightarrow> 'a tcp_client_scheme \<Rightarrow> 'a tcp_client_scheme" where
  "upd_conn c f s = s\<lparr>tl_conns := (tl_conns s)(c := f (tl_conns s c))\<rparr>"

section \<open>Operations\<close>

definition client_enableRetry :: "'a tcp_client_scheme \<Rightarrow> 'a tcp_client_scheme" where
  "client_enableRetry s = s\<lparr>tl_retry := True, tl_connector := enableRetry (tl_connector s)\<rparr>"

definition client_setErrorCallback :: "'a tcp_client_scheme \<Rightarrow> 'a tcp_client_scheme" where
  "client_setErrorCallback s = s\<lparr>tl_connector := setErrorCallback (tl_connector s)\<rparr>"

text \<open>\<open>sockfd\<close> and \<open>err\<close>: the socket that the attempt opens and the result of its \<open>connect\<close>.\<close>

definition client_connect :: "int \<Rightarrow> int \<Rightarrow> 'a tcp_client_scheme \<Rightarrow> 'a tcp_client_scheme" where
  "client_connect sockfd err s =
     (let s1 = s\<lparr>tl_connect := True\<rparr>
      in s1\<lparr>tl_connector := Connector.start True sockfd err (tl_connector s1)\<rparr>)"

text \<open>\<open>disconnect\<close> does not test \<open>conn_\<close> for null.\<close>

definition client_disconnect :: "'a tcp_client_scheme \<Rightarrow> 'a tcp_client_scheme option" where
  "client_disconnect s =
     (let s1 = s\<lparr>tl_connect := False\<rparr>
      in case tl_conn s1 of None \<Rightarrow> None | Some c \<Rightarrow> Some (upd_conn c (shutdown True) s1))"

definition client_stop :: "'a tcp_client_scheme \<Rightarrow> 'a tcp_client_scheme" where
  "client_stop s =
     (let s1 = s\<lparr>tl_connect := False, tl_connector := Connector.stop (tl_connector s)\<rparr>
      in case tl_conn s1 of None \<Rightarrow> s1 | Some c \<Rightarrow> upd_conn c (shutdown True) s1)"

definition client_connName :: "'a tcp_client_scheme \<Rightarrow> bytes" where
  "client_connName s = tl_name s @ take 63 (toIpPort (tl_server s) @ ''#'' @ to_string (tl_nexConnId s))"

text \<open>
  \<open>newConnection\<close>: \<open>connectEstablished\<close> calls the user's callback; only then is the connection
  stored in \<open>conn_\<close>.
\<close>

definition client_newConnection ::
  "(nat \<Rightarrow> 'a tcp_client_scheme \<Rightarrow> 'a tcp_client_scheme) \<Rightarrow> int
     \<Rightarrow> 'a tcp_client_scheme \<Rightarrow> 'a tcp_client_scheme" where
  "client_newConnection on_up now s =
     (let c = tl_count s;
          conn = (tcp_connection_new now)\<lparr>has_write_complete := tl_write_complete s\<rparr>;
          s1 = s\<lparr>tl_nexConnId := tl_nexConnId s + 1, tl_count := c + 1,
                tl_names := (tl_names s)(c := client_connName s), tl_conns := (tl_conns s)(c := conn)\<rparr>;
          s2 = on_up c (upd_conn c connectEstablished s1)
      in s2\<lparr>tl_conn := Some c\<rparr>)"

definition client_removeConnection :: "nat \<Rightarrow> 'a tcp_client_scheme \<Rightarrow> 'a tcp_client_scheme" where
  "client_removeConnection c s =
     (let s1 = s\<lparr>tl_conn := None\<rparr>;
          s2 = s1\<lparr>tl_destroys := tl_destroys s1 @ [c]\<rparr>
      in if tl_retry s2 \<and> tl_connect s2
         then s2\<lparr>tl_connector := Connector.restart (tl_connector s2)\<rparr> else s2)"

text \<open>\<open>send(Buffer *)\<close> and \<open>send(data, len)\<close>; the first result tells whether there is a connection.\<close>

definition client_send_buffer ::
  "buffer \<Rightarrow> write_result \<Rightarrow> 'a tcp_client_scheme \<Rightarrow> (bool \<times> buffer \<times> 'a tcp_client_scheme) option" where
  "client_send_buffer b r s =
     (case tl_conn s of
        None \<Rightarrow> Some (False, b, s)
      | Some c \<Rightarrow>
          map_option (\<lambda>(b1, conn). (True, b1, upd_conn c (\<lambda>_. conn) s))
            (send_buffer True b r (tl_conns s c)))"

definition client_send ::
  "bytes \<Rightarrow> write_result \<Rightarrow> 'a tcp_client_scheme \<Rightarrow> bool \<times> 'a tcp_client_scheme" where
  "client_send data r s =
     (case tl_conn s of
        None \<Rightarrow> (False, s)
      | Some c \<Rightarrow> (True, upd_conn c (send True data r) s))"

section \<open>What the loop does for the client\<close>

text \<open>
  A close event of connection \<open>c\<close>: \<open>TcpConnection::handleClose\<close> calls the user's callback and then
  \<open>removeConnection\<close>. \<open>forceClose\<close>, called in the loop, does the same at once.
\<close>

definition client_handleClose ::
  "(nat \<Rightarrow> 'a tcp_client_scheme \<Rightarrow> 'a tcp_client_scheme) \<Rightarrow> nat
     \<Rightarrow> 'a tcp_client_scheme \<Rightarrow> 'a tcp_client_scheme" where
  "client_handleClose on_down c s = client_removeConnection c (on_down c (upd_conn c handleClose s))"

definition client_forceClose ::
  "(nat \<Rightarrow> 'a tcp_client_scheme \<Rightarrow> 'a tcp_client_scheme) \<Rightarrow> nat
     \<Rightarrow> 'a tcp_client_scheme \<Rightarrow> 'a tcp_client_scheme" where
  "client_forceClose on_down c s =
     (if state (tl_conns s c) = kConnected \<or> state (tl_conns s c) = kDisconnecting
      then client_handleClose on_down c (upd_conn c (\<lambda>k. k\<lparr>state := kDisconnecting\<rparr>) s) else s)"

text \<open>The next queued \<open>connectDestroyed\<close> runs.\<close>

definition client_destroy_next ::
  "(nat \<Rightarrow> 'a tcp_client_scheme \<Rightarrow> 'a tcp_client_scheme)
     \<Rightarrow> 'a tcp_client_scheme \<Rightarrow> 'a tcp_client_scheme" where
  "client_destroy_next on_down s =
     (case tl_destroys s of
        [] \<Rightarrow> s
      | c # cs \<Rightarrow>
          (let s1 = upd_conn c connectDestroyed (s\<lparr>tl_destroys := cs\<rparr>)
           in if connected (tl_conns s c) then on_down c s1 else s1))"

text \<open>
  An event of the connector: \<open>handleWrite\<close> may call \<open>newConnection\<close>, and a queued functor the error
  callback.
\<close>

definition client_connector_event ::
  "(nat \<Rightarrow> 'a tcp_client_scheme \<Rightarrow> 'a tcp_client_scheme)
     \<Rightarrow> (int \<Rightarrow> 'a tcp_client_scheme \<Rightarrow> 'a tcp_client_scheme) \<Rightarrow> int \<Rightarrow> con_event
     \<Rightarrow> 'a tcp_client_scheme \<Rightarrow> 'a tcp_client_scheme option" where
  "client_connector_event on_up on_error now e s =
     (case con_step e (tl_connector s) of
        None \<Rightarrow> None
      | Some k \<Rightarrow>
          (let s1 = s\<lparr>tl_connector := k\<rparr>
           in Some (if length (handed (tl_connector s)) < length (handed k)
                    then client_newConnection on_up now s1
                    else if length (errors (tl_connector s)) < length (errors k)
                    then on_error (last (errors k)) s1
                    else s1)))"

section \<open>One attempt at a time\<close>

text \<open>
  The connector of a client that is not stopped: at most one retry timer, and none during an attempt.
\<close>

definition one_attempt :: "connector \<Rightarrow> bool" where
  "one_attempt k \<longleftrightarrow> con_inv k \<and> Start_Task \<notin> set (con_tasks k) \<and> \<not> has_error k
     \<and> (\<forall>x. Error_Task x \<notin> set (con_tasks k))
     \<and> length (retry_timers k) \<le> 1 \<and> (con_channel k \<noteq> None \<longrightarrow> retry_timers k = [])"

text \<open>The events that the loop brings to the connector.\<close>

definition loop_event :: "con_event \<Rightarrow> bool" where
  "loop_event e = (case e of Timer_Fires fd x \<Rightarrow> True | con_event.Run_Task fd x \<Rightarrow> True
     | Channel_Error x w y \<Rightarrow> True | Channel_Writable x \<Rightarrow> True | _ \<Rightarrow> False)"

definition resting :: "connector \<Rightarrow> bool" where
  "resting k \<longleftrightarrow> con_channel k = None \<and> retry_timers k = []"

lemma one_attempt_orderly:
  assumes "one_attempt k" and "loop_event e"
  shows "orderly e k"
proof -
  have "con_channel k = None" if "attempts e k"
    using that assms
    by (cases e) (auto simp: attempts_def one_attempt_def loop_event_def split: list.splits con_task.splits)
  then show ?thesis using assms(2) by (cases e) (simp_all add: orderly_def loop_event_def)
qed

lemma connect_one_attempt:
  assumes "one_attempt k" "resting k" "connect_flag k"
  shows "one_attempt (connect fd x k) \<and> handed (connect fd x k) = handed k \<and> errors (connect fd x k) = errors k"
  using assms connect_inv [of k fd x]
  by (auto simp: one_attempt_def resting_def connector_defs)

lemma startInLoop_one_attempt:
  assumes "one_attempt k" "resting k"
  shows "one_attempt (startInLoop fd x k) \<and> handed (startInLoop fd x k) = handed k
    \<and> errors (startInLoop fd x k) = errors k"
  using assms connect_one_attempt [of k fd x] by (simp add: startInLoop_def)

lemma connect_flag_frame:
  "one_attempt k \<Longrightarrow> resting k \<Longrightarrow>
     one_attempt (k\<lparr>connect_flag := True\<rparr>) \<and> resting (k\<lparr>connect_flag := True\<rparr>)"
  by (simp add: one_attempt_def resting_def con_inv_def held_def)

lemma start_one_attempt:
  assumes "one_attempt k" "resting k"
  shows "one_attempt (start True fd x k) \<and> handed (start True fd x k) = handed k
    \<and> errors (start True fd x k) = errors k"
  using startInLoop_one_attempt [of "k\<lparr>connect_flag := True\<rparr>" fd x] connect_flag_frame [OF assms]
  by (simp add: start_def Let_def)

lemma retry_one_attempt:
  assumes "one_attempt k" "con_channel k = Some fd"
  shows "one_attempt (retry fd x k) \<and> handed (retry fd x k) = handed k \<and> errors (retry fd x k) = errors k"
  using assms retry_inv [of k fd x] by (auto simp: one_attempt_def connector_defs)

lemma timers_one_attempt:
  assumes "one_attempt k" "retry_timers k = t # ts"
  shows "one_attempt (k\<lparr>retry_timers := ts\<rparr>) \<and> resting (k\<lparr>retry_timers := ts\<rparr>)"
  using assms by (cases "con_channel k") (auto simp: one_attempt_def resting_def)

lemma handleWrite_one_attempt:
  assumes k: "one_attempt k" and c: "con_channel k \<noteq> None"
  shows "\<exists>k'. Connector.handleWrite x k = Some k' \<and> one_attempt k' \<and> errors k' = errors k
    \<and> (handed k' = handed k \<or> (\<exists>fd. handed k' = handed k @ [fd] \<and> resting k'))"
proof -
  from c obtain fd where fd: "con_channel k = Some fd" by blast
  with k have s: "con_state k = cConnecting" "connect_flag k" "has_new_connection k" "retry_timers k = []"
    by (auto simp: one_attempt_def con_inv_def)
  show ?thesis
  proof (cases "x = 0")
    case True
    with s fd k show ?thesis
      by (auto simp: one_attempt_def resting_def con_inv_def Connector.handleWrite_def held_def Let_def)
  next
    case False
    with s fd retry_one_attempt [OF k fd] show ?thesis by (simp add: Connector.handleWrite_def)
  qed
qed

text \<open>Every loop event is defined, keeps this order, and hands over at most one descriptor.\<close>

lemma loop_event_step:
  assumes k: "one_attempt k" and e: "loop_event e"
  shows "\<exists>k'. con_step e k = Some k' \<and> one_attempt k' \<and> errors k' = errors k
    \<and> (handed k' = handed k \<or> (\<exists>fd. handed k' = handed k @ [fd] \<and> resting k' \<and> \<not> resting k))"
proof (cases e)
  case (Timer_Fires fd x)
  show ?thesis
  proof (cases "retry_timers k")
    case Nil
    with Timer_Fires k show ?thesis by simp
  next
    case (Cons t ts)
    note r = timers_one_attempt [OF k Cons]
    from start_one_attempt [OF conjunct1 [OF r] conjunct2 [OF r], of fd x]
      startInLoop_one_attempt [OF conjunct1 [OF r] conjunct2 [OF r], of fd x] Timer_Fires Cons
    show ?thesis by (cases t) simp_all
  qed
next
  case (Run_Task fd x)
  show ?thesis
  proof (cases "con_tasks k")
    case Nil
    with Run_Task k show ?thesis by simp
  next
    case (Cons t ts)
    with k have "t \<noteq> Start_Task" "t \<noteq> Stop_Task" "\<forall>x. t \<noteq> Error_Task x"
      by (auto simp: one_attempt_def con_inv_def)
    with Run_Task Cons k con_inv_tasks [of k t ts] show ?thesis
      by (cases t) (auto simp: one_attempt_def)
  qed
next
  case (Channel_Error x w y)
  show ?thesis
  proof (cases "con_channel k")
    case None
    with Channel_Error k show ?thesis by simp
  next
    case (Some fd)
    with retry_one_attempt [OF k Some, of x] retry_inv [of k fd x] k Channel_Error show ?thesis
      by (simp add: Connector.handleError_def Connector.handleWrite_def one_attempt_def)
  qed
next
  case (Channel_Writable x)
  show ?thesis
  proof (cases "con_channel k")
    case None
    with Channel_Writable k show ?thesis by simp
  next
    case (Some fd)
    with handleWrite_one_attempt [OF k, of x] Channel_Writable show ?thesis
      by (auto simp: resting_def)
  qed
qed (use e in \<open>simp_all add: loop_event_def\<close>)

lemma resting_step:
  assumes "one_attempt k" "resting k" "loop_event e" "con_step e k = Some k'"
  shows "resting k'"
  using assms
  by (cases e) (auto simp: resting_def one_attempt_def con_inv_def loop_event_def split: list.splits con_task.splits)

lemma restart_one_attempt: "one_attempt k \<Longrightarrow> resting k \<Longrightarrow> one_attempt (restart k)"
  by (auto simp: one_attempt_def resting_def restart_def Let_def con_inv_def held_def)

section \<open>One connection at a time\<close>

definition tl_open :: "'a tcp_client_scheme \<Rightarrow> bool" where
  "tl_open s \<longleftrightarrow> (\<exists>c. tl_conn s = Some c \<and> state (tl_conns s c) \<noteq> kDisconnected)"

text \<open>Every connection comes from one descriptor, and while one is open no other is attempted.\<close>

definition client_inv :: "'a tcp_client_scheme \<Rightarrow> bool" where
  "client_inv s \<longleftrightarrow> one_attempt (tl_connector s) \<and> tl_count s = length (handed (tl_connector s))
     \<and> (tl_open s \<longrightarrow> resting (tl_connector s))"

text \<open>What a callback of the user leaves alone.\<close>

definition client_frame :: "'a tcp_client_scheme \<Rightarrow> 'a tcp_client_scheme \<Rightarrow> bool" where
  "client_frame s s' \<longleftrightarrow> tl_connector s' = tl_connector s \<and> tl_count s' = tl_count s
     \<and> tl_retry s' = tl_retry s \<and> tl_connect s' = tl_connect s"

locale client_user =
  fixes on_up on_down :: "nat \<Rightarrow> 'a tcp_client_scheme \<Rightarrow> 'a tcp_client_scheme"
  assumes up_frame: "client_frame s (on_up c s)"
    and down_frame: "client_frame s (on_down c s)"
begin

lemma newConnection_fields [simp]:
  "tl_connector (client_newConnection on_up now s) = tl_connector s"
  "tl_count (client_newConnection on_up now s) = Suc (tl_count s)"
  "tl_conn (client_newConnection on_up now s) = Some (tl_count s)"
  "tl_retry (client_newConnection on_up now s) = tl_retry s"
  "tl_connect (client_newConnection on_up now s) = tl_connect s"
  using up_frame by (simp_all add: client_newConnection_def client_frame_def upd_conn_def Let_def)

lemma connector_event_inv:
  assumes i: "client_inv s" and e: "loop_event e"
  shows "\<exists>k. con_step e (tl_connector s) = Some k \<and>
    (client_connector_event on_up on_error now e s = Some (s\<lparr>tl_connector := k\<rparr>)
       \<and> client_inv (s\<lparr>tl_connector := k\<rparr>)
     \<or> \<not> tl_open s
       \<and> client_connector_event on_up on_error now e s = Some (client_newConnection on_up now (s\<lparr>tl_connector := k\<rparr>))
       \<and> client_inv (client_newConnection on_up now (s\<lparr>tl_connector := k\<rparr>)))"
proof -
  from i have a: "one_attempt (tl_connector s)" and n: "tl_count s = length (handed (tl_connector s))"
    and o: "tl_open s \<longrightarrow> resting (tl_connector s)" by (simp_all add: client_inv_def)
  from loop_event_step [OF a e] obtain k where k: "con_step e (tl_connector s) = Some k" "one_attempt k"
    "errors k = errors (tl_connector s)"
    and h: "handed k = handed (tl_connector s)
      \<or> (\<exists>fd. handed k = handed (tl_connector s) @ [fd] \<and> resting k \<and> \<not> resting (tl_connector s))" by blast
  from h show ?thesis
  proof
    assume h: "handed k = handed (tl_connector s)"
    moreover have "tl_open s \<longrightarrow> resting k" using o resting_step [OF a _ e k(1)] by blast
    ultimately show ?thesis using k n
      by (simp add: client_connector_event_def client_inv_def tl_open_def Let_def)
  next
    assume "\<exists>fd. handed k = handed (tl_connector s) @ [fd] \<and> resting k \<and> \<not> resting (tl_connector s)"
    then obtain fd where fd: "handed k = handed (tl_connector s) @ [fd]" "resting k" "\<not> tl_open s"
      using o by blast
    with k n show ?thesis
      by (simp add: client_connector_event_def client_inv_def Let_def)
  qed
qed

text \<open>When the open connection closes, the client with retries enabled sets one timer.\<close>

lemma client_closes_inv:
  assumes i: "client_inv s" and o: "tl_open s"
  shows "client_inv (client_handleClose on_down c s) \<and> tl_conn (client_handleClose on_down c s) = None
    \<and> tl_connector (client_handleClose on_down c s)
      = (if tl_retry s \<and> tl_connect s then restart (tl_connector s) else tl_connector s)"
proof -
  have f: "client_frame (upd_conn c handleClose s) (on_down c (upd_conn c handleClose s))" by (rule down_frame)
  have u: "client_frame s (upd_conn c handleClose s)" by (simp add: client_frame_def upd_conn_def)
  from i o have "one_attempt (tl_connector s)" "resting (tl_connector s)"
    "tl_count s = length (handed (tl_connector s))" by (simp_all add: client_inv_def)
  with f u restart_one_attempt [of "tl_connector s"] show ?thesis
    by (simp add: client_handleClose_def client_removeConnection_def Let_def client_frame_def client_inv_def
        tl_open_def) (simp add: restart_def Let_def)
qed

end

section \<open>Stopping\<close>

fun client_events ::
  "(nat \<Rightarrow> 'a tcp_client_scheme \<Rightarrow> 'a tcp_client_scheme)
     \<Rightarrow> (int \<Rightarrow> 'a tcp_client_scheme \<Rightarrow> 'a tcp_client_scheme) \<Rightarrow> con_event list
     \<Rightarrow> 'a tcp_client_scheme \<Rightarrow> 'a tcp_client_scheme option" where
  "client_events on_up on_error [] s = Some s"
| "client_events on_up on_error (e # es) s =
     (case client_connector_event on_up on_error 0 e s of
        None \<Rightarrow> None | Some s1 \<Rightarrow> client_events on_up on_error es s1)"

text \<open>
  Stopping a client does not stop it while it waits to retry: the retry timer calls \<open>start\<close>, which
  enables connecting again, so that after \<open>stop\<close> has returned, and its functor has run, the next
  attempt is made, and when it succeeds the user gets a connection.
\<close>

theorem stopped_client_reconnects:
  assumes "one_attempt (tl_connector s)" and "retry_timers (tl_connector s) = [Retry_Timer]"
    and "con_tasks (tl_connector s) = []"
  shows "\<exists>s'. client_events on_up on_error
      [con_event.Run_Task 0 0, Timer_Fires fd EINPROGRESS, Channel_Writable 0] (client_stop s) = Some s'
    \<and> tl_conn s' = Some (tl_count s)"
proof -
  let ?k = "tl_connector s"
  from assms have k: "con_channel ?k = None" "has_new_connection ?k" "retry_timers ?k = [Retry_Timer]"
    "con_tasks ?k = []" by (auto simp: one_attempt_def con_inv_def)
  obtain s1 where s1: "client_stop s = s1" "tl_connector s1 = stop ?k" "tl_count s1 = tl_count s"
    by (auto simp: client_stop_def upd_conn_def Let_def split: option.split)
  with k show ?thesis
    by (simp add: client_connector_event_def client_newConnection_def connector_defs errno_defs)
qed

theorem stopped_client_reconnects_witness:
  "\<exists>s'. client_events (\<lambda>_ s. s) (\<lambda>_ s. s)
      [con_event.Run_Task 0 0, Timer_Fires 6 EINPROGRESS, Channel_Writable 0]
      (client_stop (client_connect 5 ECONNREFUSED (client_enableRetry
         (tcp_client_new \<lparr>addr_ip = ''10.0.0.1'', addr_port = 80\<rparr> ''c'')))) = Some s'
    \<and> tl_conn s' = Some 0"
proof -
  let ?s = "client_connect 5 ECONNREFUSED (client_enableRetry
    (tcp_client_new \<lparr>addr_ip = ''10.0.0.1'', addr_port = 80\<rparr> ''c''))"
  note d = client_connect_def client_enableRetry_def tcp_client_new_def enableRetry_def
    setNewConnectionCallback_def connector_new_def connector_defs errno_defs
  have "one_attempt (tl_connector ?s)" by (simp add: one_attempt_def con_inv_def held_def d)
  moreover have "retry_timers (tl_connector ?s) = [Retry_Timer]" "con_tasks (tl_connector ?s) = []"
    "tl_count ?s = 0" by (simp_all add: d)
  ultimately show ?thesis using stopped_client_reconnects [of ?s] by metis
qed

end
