(* ===== verification/L4_Proxy.thy ===== *)
theory L4_Proxy
  imports Tcp_Client Selector
begin

text \<open>
  The TCP proxy: \<open>LB_Server\<close> (\<^verbatim>\<open>Proxy/src/L4/LB_Server.h\<close>) and \<open>RemoteClient\<close>
  (\<^verbatim>\<open>Proxy/src/L4/RemoteClient.cc\<close>, \<^verbatim>\<open>Proxy/src/L4/RemoteClient.h\<close>). Each client connection that the
  server accepts gets a \<open>RemoteClient\<close>, a \<open>TcpClient\<close> with retries that connects to the backend chosen
  for the client's address; bytes are relayed in both directions.

  A session is the state of one client connection: it extends the \<open>TcpClient\<close> by the connection to
  the client, the bytes waiting for the backend, and the backend connections whose context holds
  the weak pointer to the client's connection. All of it runs in one loop (a server without I/O
  threads). The results of the system calls a handler makes are its arguments.
\<close>

section \<open>The session\<close>

record l4_session = tcp_client +
  l4_client :: tcp_connection
  l4_client_gone :: bool
  pendingBuffer :: buffer
  l4_context :: "nat \<Rightarrow> bool"

definition remote_client_new :: "inet_address \<Rightarrow> bytes \<Rightarrow> tcp_connection \<Rightarrow> l4_session" where
  "remote_client_new serverAddr name context =
     client_enableRetry (tcp_client.extend (tcp_client_new serverAddr name)
       \<lparr>l4_client = context, l4_client_gone = False, pendingBuffer = buffer_new kInitiaSize,
        l4_context = (\<lambda>_. False)\<rparr>)"

text \<open>\<open>RemoteClient::onConnection\<close>: the connection to the backend is up, or down.\<close>

definition remote_up :: "write_result \<Rightarrow> nat \<Rightarrow> l4_session \<Rightarrow> l4_session" where
  "remote_up r c s =
     (let s1 = (if 0 < readableBytes (pendingBuffer s)
                then (upd_conn c (send True (readable (pendingBuffer s)) r) s)
                       \<lparr>pendingBuffer := retrieveAll (pendingBuffer s)\<rparr>
                else s)
      in s1\<lparr>l4_context := (l4_context s1)(c := True)\<rparr>)"

definition remote_down :: "nat \<Rightarrow> l4_session \<Rightarrow> l4_session" where
  "remote_down c s =
     (let s1 = (if l4_context s c \<and> \<not> l4_client_gone s
                then s\<lparr>l4_client := shutdown True (l4_client s)\<rparr> else s)
      in s1\<lparr>l4_context := (l4_context s1)(c := False)\<rparr>)"

text \<open>\<open>RemoteClient::onMessage\<close>: bytes from the backend are in the input buffer of connection \<open>c\<close>.\<close>

definition remote_onMessage :: "write_result \<Rightarrow> nat \<Rightarrow> l4_session \<Rightarrow> l4_session option" where
  "remote_onMessage r c s =
     (if l4_context s c then
        (if \<not> l4_client_gone s then
           map_option (\<lambda>(b, k). upd_conn c (\<lambda>conn. conn\<lparr>inputBuffer := b\<rparr>) (s\<lparr>l4_client := k\<rparr>))
             (send_buffer True (inputBuffer (tl_conns s c)) r (l4_client s))
         else Some (upd_conn c (shutdown True) s))
      else Some s)"

definition remote_sendToBackend :: "buffer \<Rightarrow> write_result \<Rightarrow> l4_session \<Rightarrow> (buffer \<times> l4_session) option" where
  "remote_sendToBackend buf r s =
     (case client_send_buffer buf r s of
        None \<Rightarrow> None
      | Some (sent, b, s1) \<Rightarrow>
          Some (if sent then (b, s1)
                else (retrieveAll b, s1\<lparr>pendingBuffer := append_data (readable b) (pendingBuffer s1)\<rparr>)))"

section \<open>The server\<close>

text \<open>
  The context of a client connection: empty when no backend was found, otherwise its session. A
  message or a close without context dereferences a null pointer.
\<close>

datatype l4_link = No_Context tcp_connection | Session l4_session

text \<open>
  \<open>onConnection\<close> (up), for a connection that was just established, with the result of the first
  \<open>connect\<close> to the backend.
\<close>

definition l4_onConnection_up ::
  "(bytes \<Rightarrow> u64) \<Rightarrow> bytes \<Rightarrow> int \<Rightarrow> int \<Rightarrow> tcp_connection \<Rightarrow> selector \<Rightarrow> l4_link \<times> selector" where
  "l4_onConnection_up hash ip sockfd err conn sel =
     (case getNextServer_key hash ip sel of
        (addr, sel1) \<Rightarrow>
          (let a = (case addr of None \<Rightarrow> \<lparr>addr_ip = ''0.0.0.0'', addr_port = 0\<rparr> | Some a \<Rightarrow> a)
           in if addr_ip a = ''0.0.0.0'' then (No_Context (shutdown True conn), sel1)
              else (Session (client_connect sockfd err (remote_client_new a ''LB_Client'' conn)), sel1)))"

definition l4_onConnection_down :: "l4_link \<Rightarrow> l4_link option" where
  "l4_onConnection_down x =
     (case x of No_Context conn \<Rightarrow> None | Session s \<Rightarrow> Some (Session (client_stop s)))"

definition l4_onMessage :: "write_result \<Rightarrow> l4_link \<Rightarrow> l4_link option" where
  "l4_onMessage r x =
     (case x of
        No_Context conn \<Rightarrow> None
      | Session s \<Rightarrow>
          map_option (\<lambda>(b, s1). Session (s1\<lparr>l4_client := (l4_client s1)\<lparr>inputBuffer := b\<rparr>\<rparr>))
            (remote_sendToBackend (inputBuffer (l4_client s)) r s))"

section \<open>What the loop does\<close>

definition l4_conn :: "(tcp_connection \<Rightarrow> tcp_connection) \<Rightarrow> l4_link \<Rightarrow> l4_link" where
  "l4_conn f x =
     (case x of No_Context conn \<Rightarrow> No_Context (f conn) | Session s \<Rightarrow> Session (s\<lparr>l4_client := f (l4_client s)\<rparr>))"

text \<open>
  Bytes or a close from the client; bytes or a close from backend connection \<open>c\<close>; an event of the
  connector; a connection is writable or runs a functor; the last reference to the client's
  connection is gone.
\<close>

datatype l4_event = Client_Data bytes write_result | Client_Closes
  | Backend_Data nat bytes write_result | Backend_Closes nat
  | Connector_Does con_event write_result
  | Client_Writable write_result | Client_Runs write_result | Client_Destroyed
  | Backend_Writable nat write_result | Backend_Runs nat write_result

fun l4_session_step :: "l4_event \<Rightarrow> l4_session \<Rightarrow> l4_session option" where
  "l4_session_step (Backend_Data c d r) s =
     remote_onMessage r c (upd_conn c (\<lambda>k. k\<lparr>inputBuffer := append_data d (inputBuffer k)\<rparr>) s)"
| "l4_session_step (Backend_Closes c) s = Some (client_handleClose remote_down c s)"
| "l4_session_step (Connector_Does e r) s = client_connector_event (remote_up r) (\<lambda>_ s. s) 0 e s"
| "l4_session_step (Backend_Writable c r) s = Some (upd_conn c (handleWrite r) s)"
| "l4_session_step (Backend_Runs c r) s = Some (upd_conn c (run_task r) s)"
| "l4_session_step Client_Destroyed s = Some (s\<lparr>l4_client_gone := True\<rparr>)"
| "l4_session_step _ s = Some s"

fun l4_step :: "l4_event \<Rightarrow> l4_link \<Rightarrow> l4_link option" where
  "l4_step (Client_Data d r) x =
     l4_onMessage r (l4_conn (\<lambda>k. k\<lparr>inputBuffer := append_data d (inputBuffer k)\<rparr>) x)"
| "l4_step Client_Closes x = l4_onConnection_down (l4_conn handleClose x)"
| "l4_step (Client_Writable r) x = Some (l4_conn (handleWrite r) x)"
| "l4_step (Client_Runs r) x = Some (l4_conn (run_task r) x)"
| "l4_step e (Session s) = map_option Session (l4_session_step e s)"
| "l4_step e (No_Context conn) = Some (No_Context conn)"

fun l4_run :: "l4_event list \<Rightarrow> l4_link \<Rightarrow> l4_link option" where
  "l4_run [] x = Some x"
| "l4_run (e # es) x = (case l4_step e x of None \<Rightarrow> None | Some x1 \<Rightarrow> l4_run es x1)"

section \<open>The relay\<close>

interpretation l4: client_user "remote_up r" remote_down for r
  by unfold_locales (simp_all add: client_frame_def remote_up_def remote_down_def upd_conn_def Let_def)

text \<open>
  Between its opening and the first close, a session has given \<open>dn\<close> to the client; \<open>up\<close> is what it
  has received from the client, given to the backend if there is a connection and waiting if not.
\<close>

definition relays :: "bytes \<Rightarrow> bytes \<Rightarrow> l4_session \<Rightarrow> bool" where
  "relays up_bytes dn_bytes s \<longleftrightarrow> client_inv s \<and> tl_retry s \<and> tl_connect s \<and> \<not> l4_client_gone s \<and> buf_inv (pendingBuffer s)
     \<and> endpoint dn_bytes (l4_client s)
     \<and> (case tl_conn s of
          None \<Rightarrow> tl_count s = 0 \<and> readable (pendingBuffer s) = up_bytes
        | Some c \<Rightarrow> c = 0 \<and> tl_count s = 1 \<and> readable (pendingBuffer s) = [] \<and> l4_context s 0
            \<and> endpoint up_bytes (tl_conns s 0))"

definition from_client :: "l4_event \<Rightarrow> bytes" where
  "from_client e = (case e of Client_Data d r \<Rightarrow> d | _ \<Rightarrow> [])"

definition from_backend :: "l4_event \<Rightarrow> bytes" where
  "from_backend e = (case e of Backend_Data c d r \<Rightarrow> d | _ \<Rightarrow> [])"

text \<open>The events that can happen, with system calls that behave; no side closes or resets.\<close>

definition relay_event :: "l4_event \<Rightarrow> l4_session \<Rightarrow> bool" where
  "relay_event e s \<longleftrightarrow> (case e of
       Client_Data d r \<Rightarrow> took r (length d)
     | Backend_Data c d r \<Rightarrow> tl_conn s = Some c \<and> took r (length d)
     | Connector_Does ce r \<Rightarrow> loop_event ce \<and> took r (readableBytes (pendingBuffer s))
     | Client_Writable r \<Rightarrow> honest (Writable r) (l4_client s)
     | Client_Runs r \<Rightarrow> honest (Run_Task r) (l4_client s)
     | Backend_Writable c r \<Rightarrow> tl_conn s = Some c \<and> honest (Writable r) (tl_conns s c)
     | Backend_Runs c r \<Rightarrow> tl_conn s = Some c \<and> honest (Run_Task r) (tl_conns s c)
     | _ \<Rightarrow> False)"

lemma relays_open: "relays u d s \<Longrightarrow> tl_conn s = Some c \<Longrightarrow> tl_open s"
  by (auto simp: relays_def tl_open_def endpoint_def live_def connected_def)

lemma relays_up:
  assumes s: "relays u d s" and k: "client_inv (client_newConnection (remote_up r) 0 (s\<lparr>tl_connector := k\<rparr>))"
    and n: "\<not> tl_open s" and t: "took r (readableBytes (pendingBuffer s))"
  shows "relays u d (client_newConnection (remote_up r) 0 (s\<lparr>tl_connector := k\<rparr>))"
proof -
  have c: "tl_conn s = None" using relays_open [OF s] n by (cases "tl_conn s") blast+
  with s have b: "buf_inv (pendingBuffer s)" "tl_count s = 0" "readable (pendingBuffer s) = u"
    "endpoint d (l4_client s)" "\<not> l4_client_gone s" "tl_retry s" "tl_connect s" by (simp_all add: relays_def)
  let ?new = "connectEstablished ((tcp_connection_new 0)\<lparr>has_write_complete := tl_write_complete s\<rparr>)"
  have e: "endpoint u (if 0 < readableBytes (pendingBuffer s) then send True u r ?new else ?new)"
    using endpoint_send [OF endpoint_new [where now = 0 and w = "tl_write_complete s"], of r u]
      endpoint_new [where now = 0 and w = "tl_write_complete s"]
      t b(1) length_readable [OF b(1)] readableBytes_empty [OF b(1)] b(3) by auto
  have p: "readable (pendingBuffer (client_newConnection (remote_up r) 0 (s\<lparr>tl_connector := k\<rparr>))) = []"
    "buf_inv (pendingBuffer (client_newConnection (remote_up r) 0 (s\<lparr>tl_connector := k\<rparr>)))"
    using length_readable [OF b(1)] readableBytes_empty [OF b(1)] b(1)
    by (auto simp: client_newConnection_def remote_up_def upd_conn_def Let_def content_simp inv_intro)
  have f: "l4_client (client_newConnection (remote_up r) 0 (s\<lparr>tl_connector := k\<rparr>)) = l4_client s"
    "\<not> l4_client_gone (client_newConnection (remote_up r) 0 (s\<lparr>tl_connector := k\<rparr>))"
    "l4_context (client_newConnection (remote_up r) 0 (s\<lparr>tl_connector := k\<rparr>)) 0"
    "tl_conns (client_newConnection (remote_up r) 0 (s\<lparr>tl_connector := k\<rparr>)) 0
      = (if 0 < readableBytes (pendingBuffer s) then send True u r ?new else ?new)"
    using b by (simp_all add: client_newConnection_def remote_up_def upd_conn_def Let_def)
  with k b e p show ?thesis by (simp add: relays_def)
qed

lemma relays_frame:
  assumes "relays u d s" and "endpoint d' k" and "buf_inv (inputBuffer k)"
  shows "relays u d' (s\<lparr>l4_client := k\<rparr>)"
  using assms by (auto simp: relays_def client_inv_def tl_open_def split: option.splits)

lemma relays_conn:
  assumes "relays u d s" and "tl_conn s = Some c" and "endpoint u' k"
  shows "relays u' d (s\<lparr>tl_conns := (tl_conns s)(c := k)\<rparr>)"
  using assms by (auto simp: relays_def client_inv_def tl_open_def endpoint_def live_def connected_def)

lemma relays_client:
  assumes "relays u d s" shows "endpoint d (l4_client s)" "buf_inv (inputBuffer (l4_client s))"
    "readable (inputBuffer (l4_client s)) = []"
  using assms by (simp_all add: relays_def endpoint_def live_def)

lemma relays_backend:
  assumes "relays u d s" "tl_conn s = Some c"
  shows "endpoint u (tl_conns s c)" "l4_context s c" "c = 0" "\<not> l4_client_gone s"
    "buf_inv (inputBuffer (tl_conns s c))" "readable (inputBuffer (tl_conns s c)) = []"
  using assms by (simp_all add: relays_def endpoint_def live_def)

lemma client_data_relayed:
  assumes s: "relays u d s" and t: "took r (length x)"
  shows "\<exists>s'. l4_step (Client_Data x r) (Session s) = Some (Session s') \<and> relays (u @ x) d s'"
proof -
  let ?b = "append_data x (inputBuffer (l4_client s))"
  let ?k = "(l4_client s)\<lparr>inputBuffer := ?b\<rparr>"
  let ?s = "s\<lparr>l4_client := ?k\<rparr>"
  note b0 = relays_client [OF s]
  have b: "buf_inv ?b" "readable ?b = x" using b0(2,3) by (simp_all add: content_simp inv_intro)
  have rest: "endpoint d (?k\<lparr>inputBuffer := retrieveAll ?b\<rparr>)"
    using endpoint_input [OF b0(1), of "retrieveAll ?b"] b(1) by (simp add: content_simp inv_intro)
  show ?thesis
  proof (cases "tl_conn s")
    case None
    with s have p: "buf_inv (pendingBuffer s)" "readable (pendingBuffer s) = u" by (simp_all add: relays_def)
    let ?s' = "s\<lparr>l4_client := ?k\<lparr>inputBuffer := retrieveAll ?b\<rparr>, pendingBuffer := append_data x (pendingBuffer s)\<rparr>"
    have "l4_step (Client_Data x r) (Session s) = Some (Session ?s')"
      using None b by (simp add: l4_onMessage_def l4_conn_def remote_sendToBackend_def client_send_buffer_def)
    moreover have "relays (u @ x) d ?s'"
      using s None rest p by (auto simp: relays_def client_inv_def tl_open_def content_simp inv_intro)
    ultimately show ?thesis by blast
  next
    case (Some c)
    note e = relays_backend [OF s Some]
    let ?s' = "s\<lparr>l4_client := ?k\<lparr>inputBuffer := retrieveAll ?b\<rparr>,
      tl_conns := (tl_conns s)(c := send True x r (tl_conns s c))\<rparr>"
    have "l4_step (Client_Data x r) (Session s) = Some (Session ?s')"
      using Some b t relay_message [OF e(1) b(1), of r]
      by (simp add: l4_onMessage_def l4_conn_def remote_sendToBackend_def client_send_buffer_def upd_conn_def)
    moreover have "relays (u @ x) d ?s'"
      using relays_conn [OF relays_frame [OF s rest] _ endpoint_send [OF e(1) t]] Some b
      by (simp add: content_simp inv_intro)
    ultimately show ?thesis by blast
  qed
qed

lemma backend_data_relayed:
  assumes s: "relays u d s" and c: "tl_conn s = Some c" and t: "took r (length x)"
  shows "\<exists>s'. l4_step (Backend_Data c x r) (Session s) = Some (Session s') \<and> relays u (d @ x) s'"
proof -
  let ?b = "append_data x (inputBuffer (tl_conns s c))"
  note e = relays_backend [OF s c]
  have b: "buf_inv ?b" "readable ?b = x" using e(5,6) by (simp_all add: content_simp inv_intro)
  let ?s' = "s\<lparr>l4_client := send True x r (l4_client s),
    tl_conns := (tl_conns s)(c := (tl_conns s c)\<lparr>inputBuffer := retrieveAll ?b\<rparr>)\<rparr>"
  have "l4_step (Backend_Data c x r) (Session s) = Some (Session ?s')"
    using b t relay_message [OF relays_client(1) [OF s] b(1), of r] e
    by (simp add: remote_onMessage_def upd_conn_def)
  moreover have k: "endpoint (d @ x) (send True x r (l4_client s))"
    by (rule endpoint_send [OF relays_client(1) [OF s] t])
  have "buf_inv (inputBuffer (send True x r (l4_client s)))" using k by (simp add: endpoint_def live_def)
  from relays_conn [OF relays_frame [OF s k this] _ endpoint_input [OF e(1), of "retrieveAll ?b"]] c b(1)
  have "relays u (d @ x) ?s'" by (simp add: content_simp inv_intro)
  ultimately show ?thesis by blast
qed

lemma connector_relays:
  assumes s: "relays u d s" and e: "loop_event e" and t: "took r (readableBytes (pendingBuffer s))"
  shows "\<exists>s'. l4_step (Connector_Does e r) (Session s) = Some (Session s') \<and> relays u d s'"
proof -
  have i: "client_inv s" using s by (simp add: relays_def)
  from l4.connector_event_inv [OF i e, of r "\<lambda>_ s. s" 0] obtain k where
    "client_connector_event (remote_up r) (\<lambda>_ s. s) 0 e s = Some (s\<lparr>tl_connector := k\<rparr>)
       \<and> client_inv (s\<lparr>tl_connector := k\<rparr>)
     \<or> \<not> tl_open s
       \<and> client_connector_event (remote_up r) (\<lambda>_ s. s) 0 e s
          = Some (client_newConnection (remote_up r) 0 (s\<lparr>tl_connector := k\<rparr>))
       \<and> client_inv (client_newConnection (remote_up r) 0 (s\<lparr>tl_connector := k\<rparr>))" by blast
  then show ?thesis
  proof
    assume k: "client_connector_event (remote_up r) (\<lambda>_ s. s) 0 e s = Some (s\<lparr>tl_connector := k\<rparr>)
       \<and> client_inv (s\<lparr>tl_connector := k\<rparr>)"
    then have "relays u d (s\<lparr>tl_connector := k\<rparr>)" using s by (simp add: relays_def split: option.splits)
    with k show ?thesis by simp
  next
    assume k: "\<not> tl_open s
       \<and> client_connector_event (remote_up r) (\<lambda>_ s. s) 0 e s
          = Some (client_newConnection (remote_up r) 0 (s\<lparr>tl_connector := k\<rparr>))
       \<and> client_inv (client_newConnection (remote_up r) 0 (s\<lparr>tl_connector := k\<rparr>))"
    with relays_up [OF s _ _ t] show ?thesis by simp
  qed
qed

lemma relay_step:
  assumes s: "relays u d s" and e: "relay_event e s"
  shows "\<exists>s'. l4_step e (Session s) = Some (Session s') \<and> relays (u @ from_client e) (d @ from_backend e) s'"
proof (cases e)
  case (Client_Data x r)
  with client_data_relayed [OF s] e show ?thesis
    by (simp add: relay_event_def from_client_def from_backend_def)
next
  case (Backend_Data c x r)
  with backend_data_relayed [OF s] e show ?thesis
    by (simp add: relay_event_def from_client_def from_backend_def)
next
  case (Connector_Does ce r)
  with connector_relays [OF s] e show ?thesis
    by (simp add: relay_event_def from_client_def from_backend_def)
next
  case (Client_Writable r)
  with e have "endpoint d (handleWrite r (l4_client s))"
    using endpoint_writable [OF relays_client(1) [OF s]] by (simp add: relay_event_def)
  with relays_frame [OF s this] Client_Writable show ?thesis
    by (simp add: l4_conn_def from_client_def from_backend_def endpoint_def live_def)
next
  case (Client_Runs r)
  with e have "endpoint d (run_task r (l4_client s))"
    using endpoint_task [OF relays_client(1) [OF s]] by (simp add: relay_event_def)
  with relays_frame [OF s this] Client_Runs show ?thesis
    by (simp add: l4_conn_def from_client_def from_backend_def endpoint_def live_def)
next
  case (Backend_Writable c r)
  with e have c: "tl_conn s = Some c" and h: "honest (Writable r) (tl_conns s c)"
    by (simp_all add: relay_event_def)
  from relays_conn [OF s c endpoint_writable [OF relays_backend(1) [OF s c] h]] Backend_Writable show ?thesis
    by (simp add: upd_conn_def from_client_def from_backend_def)
next
  case (Backend_Runs c r)
  with e have c: "tl_conn s = Some c" and h: "honest (Run_Task r) (tl_conns s c)"
    by (simp_all add: relay_event_def)
  from relays_conn [OF s c endpoint_task [OF relays_backend(1) [OF s c] h]] Backend_Runs show ?thesis
    by (simp add: upd_conn_def from_client_def from_backend_def)
qed (use e in \<open>simp_all add: relay_event_def\<close>)

section \<open>Histories of a session\<close>

fun relay_history :: "l4_event list \<Rightarrow> l4_session \<Rightarrow> bool" where
  "relay_history [] s \<longleftrightarrow> True"
| "relay_history (e # es) s \<longleftrightarrow> relay_event e s
     \<and> (case l4_step e (Session s) of Some (Session s1) \<Rightarrow> relay_history es s1 | _ \<Rightarrow> True)"

lemma relay_run:
  "relays u d s \<Longrightarrow> relay_history es s \<Longrightarrow>
     \<exists>s'. l4_run es (Session s) = Some (Session s')
       \<and> relays (u @ concat (map from_client es)) (d @ concat (map from_backend es)) s'"
proof (induction es arbitrary: s u d)
  case (Cons e es)
  from Cons.prems(2) have "relay_event e s" by simp
  from relay_step [OF Cons.prems(1) this] obtain s1 where
    s1: "l4_step e (Session s) = Some (Session s1)" "relays (u @ from_client e) (d @ from_backend e) s1" by blast
  with Cons.prems(2) have "relay_history es s1" by simp
  from Cons.IH [OF s1(2) this] s1(1) show ?case by simp
qed simp

lemma opened_relays:
  assumes "fst (l4_onConnection_up hash ip fd err (connectEstablished (tcp_connection_new now)) sel) = Session s"
  shows "relays [] [] s \<and> route hash ip sel = Some (tl_server s)"
proof -
  let ?k = "setNewConnectionCallback connector_new"
  obtain a where a: "route hash ip sel = Some a"
    and s: "s = client_connect fd err (remote_client_new a ''LB_Client'' (connectEstablished (tcp_connection_new now)))"
    using assms
    by (auto simp: l4_onConnection_up_def route_def Let_def split: prod.splits if_splits option.splits)
  have "one_attempt (enableRetry ?k)" "resting (enableRetry ?k)"
    by (simp_all add: one_attempt_def resting_def con_inv_def held_def enableRetry_def
        setNewConnectionCallback_def connector_new_def)
  from start_one_attempt [OF this, of fd err]
  have "client_inv s \<and> tl_conn s = None \<and> tl_count s = 0 \<and> tl_retry s \<and> tl_connect s"
    by (simp add: s client_connect_def remote_client_new_def client_enableRetry_def tcp_client_new_def
        tcp_client.extend_def client_inv_def tl_open_def Let_def)
      (simp add: enableRetry_def setNewConnectionCallback_def connector_new_def)
  moreover have "endpoint [] (connectEstablished (tcp_connection_new now))"
    using endpoint_new [where now = now and w = False] by (simp add: tcp_connection_new_def)
  ultimately show ?thesis using a
    by (simp add: s relays_def client_connect_def remote_client_new_def client_enableRetry_def tcp_client_new_def
        tcp_client.extend_def Let_def content_simp inv_intro)
qed

section \<open>Closing\<close>

lemma backend_closes:
  assumes s: "relays u d s" and c: "tl_conn s = Some c"
  shows "\<exists>s'. l4_step (Backend_Closes c) (Session s) = Some (Session s')
    \<and> l4_client s' = shutdown True (l4_client s) \<and> tl_conn s' = None \<and> tl_count s' = 1
    \<and> tl_connector s' = restart (tl_connector s) \<and> pendingBuffer s' = pendingBuffer s
    \<and> stream (tl_conns s' c) = u \<and> client_inv s'"
proof -
  have i: "client_inv s" using s by (simp add: relays_def)
  note h = l4.client_closes_inv [OF i relays_open [OF s c], of c]
  note b = relays_backend [OF s c]
  have "conn_inv (tl_conns s c)" "stream (tl_conns s c) = u" using b(1) by (simp_all add: endpoint_def live_def fin_inv_def)
  from handleClose_inv [OF this(1)] this(2) have "stream (handleClose (tl_conns s c)) = u" by simp
  with h b s c show ?thesis
    by (simp add: client_handleClose_def client_removeConnection_def remote_down_def upd_conn_def Let_def
        relays_def)
qed

lemma client_closes:
  assumes s: "relays u d s" and c: "tl_conn s = Some c"
  shows "\<exists>s'. l4_step Client_Closes (Session s) = Some (Session s')
    \<and> tl_conns s' c = shutdown True (tl_conns s c)"
  using c by (simp add: l4_onConnection_down_def l4_conn_def client_stop_def upd_conn_def Let_def)

text \<open>
  A client that closes before its backend is up stops the connector. When no retry timer is waiting
  (an attempt is under way), the connector never hands over a connection again.
\<close>

definition stopped :: "connector \<Rightarrow> bool" where
  "stopped k \<longleftrightarrow> \<not> connect_flag k \<and> retry_timers k = [] \<and> Start_Task \<notin> set (con_tasks k)
     \<and> (con_state k = cConnecting \<longrightarrow> con_channel k \<noteq> None)"

lemma retry_stopped:
  "stopped k \<Longrightarrow> con_channel k = Some fd \<Longrightarrow>
     stopped (retry fd x k) \<and> handed (retry fd x k) = handed k \<and> con_state (retry fd x k) = cDisconnected"
  by (auto simp: stopped_def retry_def Let_def)

lemma handleWrite_stopped:
  assumes "stopped k" "con_channel k \<noteq> None"
  shows "\<exists>k'. Connector.handleWrite x k = Some k' \<and> stopped k' \<and> handed k' = handed k"
proof -
  from assms(2) obtain fd where fd: "con_channel k = Some fd" by blast
  with assms(1) retry_stopped [OF assms(1) fd, of x] show ?thesis
    by (auto simp: Connector.handleWrite_def stopped_def Let_def)
qed

lemma stopped_step:
  assumes k: "stopped k" and e: "loop_event e"
  shows "\<exists>k'. con_step e k = Some k' \<and> stopped k' \<and> handed k' = handed k"
proof (cases e)
  case (Run_Task fd x)
  show ?thesis
  proof (cases "con_tasks k")
    case (Cons t ts)
    with k have "t \<noteq> Start_Task" by (auto simp: stopped_def)
    with k Cons Run_Task show ?thesis by (cases t) (auto simp: stopped_def stopInLoop_def Let_def split: option.split)
  qed (use k Run_Task in simp)
next
  case (Channel_Error x w y)
  show ?thesis
  proof (cases "con_channel k")
    case (Some fd)
    from retry_stopped [OF k Some, of x] Some Channel_Error show ?thesis
      by (simp add: Connector.handleError_def Connector.handleWrite_def)
  qed (use k Channel_Error in simp)
next
  case (Channel_Writable x)
  with handleWrite_stopped [OF k, of x] k show ?thesis by simp
qed (use k e in \<open>simp_all add: stopped_def loop_event_def\<close>)

definition connector_event :: "l4_event \<Rightarrow> bool" where
  "connector_event e \<longleftrightarrow> (case e of Connector_Does ce r \<Rightarrow> loop_event ce | _ \<Rightarrow> False)"

lemma stopped_run:
  assumes "stopped (tl_connector s)" and "\<forall>e \<in> set es. connector_event e"
  shows "\<exists>k. l4_run es (Session s) = Some (Session (s\<lparr>tl_connector := k\<rparr>))"
  using assms
proof (induction es arbitrary: s)
  case Nil
  then show ?case by (intro exI [of _ "tl_connector s"]) simp
next
  case (Cons e es)
  then obtain ce r where e: "e = Connector_Does ce r" "loop_event ce"
    by (cases e) (auto simp: connector_event_def)
  from stopped_step [OF Cons.prems(1) e(2)] obtain k where
    k: "con_step ce (tl_connector s) = Some k" "stopped k" "handed k = handed (tl_connector s)" by blast
  then have "l4_step e (Session s) = Some (Session (s\<lparr>tl_connector := k\<rparr>))"
    by (simp add: e client_connector_event_def Let_def)
  moreover from Cons.IH [of "s\<lparr>tl_connector := k\<rparr>"] k(2) Cons.prems(2) obtain k' where
    "l4_run es (Session (s\<lparr>tl_connector := k\<rparr>)) = Some (Session (s\<lparr>tl_connector := k'\<rparr>))" by auto
  ultimately show ?case by auto
qed

lemma client_closes_early:
  assumes s: "relays u d s" and c: "tl_conn s = None"
  shows "\<exists>s'. l4_step Client_Closes (Session s) = Some (Session s')
    \<and> tl_conn s' = None \<and> tl_count s' = 0 \<and> readable (pendingBuffer s') = u
    \<and> (retry_timers (tl_connector s) = [] \<longrightarrow> stopped (tl_connector s'))"
proof -
  have "con_state (tl_connector s) = cConnecting \<longrightarrow> con_channel (tl_connector s) \<noteq> None"
    "Start_Task \<notin> set (con_tasks (tl_connector s))"
    using s by (simp_all add: relays_def client_inv_def one_attempt_def con_inv_def)
  with s c show ?thesis
    by (simp add: l4_onConnection_down_def l4_conn_def client_stop_def relays_def stopped_def Connector.stop_def)
qed

text \<open>After a close of the backend the client reconnects, and the new connection gets what waits.\<close>

lemma restarted_connects:
  assumes "one_attempt k" "resting k"
  shows "\<exists>k'. con_step (Timer_Fires fd EINPROGRESS) (restart k) = Some k' \<and> handed k' = handed k
    \<and> errors k' = errors k
    \<and> (\<exists>k''. con_step (Channel_Writable 0) k' = Some k'' \<and> handed k'' = handed k @ [fd])"
  using assms
  by (simp add: one_attempt_def resting_def con_inv_def restart_def startInLoop_def connect_def connecting_def
      Connector.handleWrite_def Let_def)

lemma pending_flushed:
  assumes p: "buf_inv (pendingBuffer s)" "readable (pendingBuffer s) = x" and t: "took r (length x)"
  shows "stream (tl_conns (client_newConnection (remote_up r) 0 s) (tl_count s)) = x
    \<and> l4_client (client_newConnection (remote_up r) 0 s) = l4_client s
    \<and> tl_conn (client_newConnection (remote_up r) 0 s) = Some (tl_count s)
    \<and> (\<forall>c. c \<noteq> tl_count s \<longrightarrow> tl_conns (client_newConnection (remote_up r) 0 s) c = tl_conns s c)"
proof -
  let ?new = "connectEstablished ((tcp_connection_new 0)\<lparr>has_write_complete := tl_write_complete s\<rparr>)"
  note n = endpoint_new [where now = 0 and w = "tl_write_complete s"]
  have "stream (if 0 < readableBytes (pendingBuffer s) then send True x r ?new else ?new) = x"
    using endpoint_send [OF n t] n readableBytes_empty [OF p(1)] p by (auto simp: endpoint_def live_def)
  with p(2) show ?thesis
    by (auto simp: client_newConnection_def remote_up_def upd_conn_def Let_def)
qed

lemma waiting_for_backend:
  assumes "tl_conn s = None" and "buf_inv (inputBuffer (l4_client s))" and "readable (inputBuffer (l4_client s)) = []"
    and "buf_inv (pendingBuffer s)" and "readable (pendingBuffer s) = []"
  shows "\<exists>s'. l4_step (Client_Data x r) (Session s) = Some (Session s')
    \<and> tl_connector s' = tl_connector s \<and> tl_count s' = tl_count s \<and> tl_conns s' = tl_conns s
    \<and> state (l4_client s') = state (l4_client s)
    \<and> buf_inv (pendingBuffer s') \<and> readable (pendingBuffer s') = x"
  using assms
  by (simp add: l4_onMessage_def l4_conn_def remote_sendToBackend_def client_send_buffer_def content_simp inv_intro)

text \<open>The choice of the backend does not look at the health of the nodes.\<close>

lemma routing_ignores_health:
  "fst (l4_onConnection_up hash ip fd err conn (sel\<lparr>nodes := st\<rparr>)) = fst (l4_onConnection_up hash ip fd err conn sel)"
  by (simp add: l4_onConnection_up_def getNextServer_key_def Let_def split: prod.split)

text \<open>When the client has gone, what the backend sends makes the proxy close that side too.\<close>

lemma gone_client_closes_backend:
  assumes "relays u d s" "tl_conn s = Some c"
  shows "\<exists>s'. l4_run [Client_Destroyed, Backend_Data c x r] (Session s) = Some (Session s')
    \<and> state (tl_conns s' c) = kDisconnecting"
  using relays_backend [OF assms]
  by (simp add: remote_onMessage_def upd_conn_def shutdown_def shutdownInLoop_def endpoint_def live_def connected_def Let_def)

section \<open>Properties\<close>

text \<open>
  C8. The TCP proxy relays: for a client whose address hashes to a backend, after any history of
  segments from both sides, failed and successful connection attempts and partial writes, the
  proxy is in a defined state; what it has written to the client or holds for it is exactly
  what the backend sent, in order; and what it has written to the backend or holds for it
  (before the connection is up, in the pending buffer) is exactly what the client sent. At
  most one connection to the backend is made.
\<close>

theorem relay_stream:
  assumes "fst (l4_onConnection_up hash ip fd err (connectEstablished (tcp_connection_new now)) sel) = Session s0"
    and "relay_history es s0"
  shows "\<exists>s. l4_run es (Session s0) = Some (Session s) \<and> route hash ip sel = Some (tl_server s0)
    \<and> wire (l4_client s) @ readable (outputBuffer (l4_client s)) = concat (map from_backend es)
    \<and> (case tl_conn s of
         None \<Rightarrow> tl_count s = 0 \<and> readable (pendingBuffer s) = concat (map from_client es)
       | Some c \<Rightarrow> tl_count s = 1 \<and> readable (pendingBuffer s) = []
           \<and> wire (tl_conns s c) @ readable (outputBuffer (tl_conns s c)) = concat (map from_client es))"
proof -
  note o = opened_relays [OF assms(1)]
  from relay_run [OF conjunct1 [OF o] assms(2)] obtain s where s: "l4_run es (Session s0) = Some (Session s)"
    "relays (concat (map from_client es)) (concat (map from_backend es)) s" by auto
  with o show ?thesis
    by (intro exI [of _ s]) (auto simp: relays_def endpoint_def live_def stream_def split: option.splits)
qed

text \<open>
  C23. Closing. When the connection to the backend is up and the backend closes, everything it sent
  reaches the client, followed by FIN, after enough writes; when it is up and the client closes,
  everything the client sent reaches the backend, followed by FIN. When the client closes before
  the connection to the backend is up, what it sent stays in the pending buffer; and if no retry timer
  is waiting (the attempt is still under way), no later event of the connector makes a
  connection, so these bytes are never sent: a client that sends its request and closes at
  once is not served.
\<close>

theorem relay_closes:
  assumes "fst (l4_onConnection_up hash ip fd err (connectEstablished (tcp_connection_new now)) sel) = Session s0"
    and "relay_history es s0" and "l4_run es (Session s0) = Some (Session s)"
  shows "case tl_conn s of
      Some c \<Rightarrow>
        (\<exists>s'. l4_step (Backend_Closes c) (Session s) = Some (Session s')
          \<and> (\<forall>rs. draining rs (l4_client s') \<longrightarrow> fin_sent (conn_run (map Writable rs) (l4_client s'))
               \<and> wire (conn_run (map Writable rs) (l4_client s')) = concat (map from_backend es)))
        \<and> (\<exists>s'. l4_step Client_Closes (Session s) = Some (Session s')
          \<and> (\<forall>rs. draining rs (tl_conns s' c) \<longrightarrow> fin_sent (conn_run (map Writable rs) (tl_conns s' c))
               \<and> wire (conn_run (map Writable rs) (tl_conns s' c)) = concat (map from_client es)))
    | None \<Rightarrow>
        (\<exists>s'. l4_step Client_Closes (Session s) = Some (Session s')
          \<and> readable (pendingBuffer s') = concat (map from_client es)
          \<and> (retry_timers (tl_connector s) = [] \<longrightarrow>
              (\<forall>ds. (\<forall>e \<in> set ds. connector_event e) \<longrightarrow>
                (\<exists>s''. l4_run ds (Session s') = Some (Session s'') \<and> tl_conn s'' = None \<and> tl_count s'' = 0
                  \<and> readable (pendingBuffer s'') = concat (map from_client es)))))"
proof -
  from relay_run [OF conjunct1 [OF opened_relays [OF assms(1)]] assms(2)] assms(3)
  have s: "relays (concat (map from_client es)) (concat (map from_backend es)) s" by simp
  show ?thesis
  proof (cases "tl_conn s")
    case None
    from client_closes_early [OF s None] obtain s' where s': "l4_step Client_Closes (Session s) = Some (Session s')"
      "tl_conn s' = None" "tl_count s' = 0" "readable (pendingBuffer s') = concat (map from_client es)"
      "retry_timers (tl_connector s) = [] \<longrightarrow> stopped (tl_connector s')" by blast
    have "\<exists>s''. l4_run ds (Session s') = Some (Session s'') \<and> tl_conn s'' = None \<and> tl_count s'' = 0
        \<and> readable (pendingBuffer s'') = concat (map from_client es)"
      if "retry_timers (tl_connector s) = []" "\<forall>e \<in> set ds. connector_event e" for ds
      using stopped_run [of s' ds] s'(2-5) that by auto
    with s' None show ?thesis by (simp del: l4_step.simps)
  next
    case (Some c)
    note e = relays_client(1) [OF s] relays_backend(1) [OF s Some]
    from backend_closes [OF s Some] obtain s1 where
      s1: "l4_step (Backend_Closes c) (Session s) = Some (Session s1)"
      "l4_client s1 = shutdown True (l4_client s)" by blast
    from client_closes [OF s Some] obtain s2 where
      s2: "l4_step Client_Closes (Session s) = Some (Session s2)"
      "tl_conns s2 c = shutdown True (tl_conns s c)" by blast
    from s1 s2 shutdown_drains [OF e(1)] shutdown_drains [OF e(2)] Some show ?thesis by auto
  qed
qed

text \<open>
  Without a backend the proxy crashes: when the ring has no server for a client, its connection
  is shut down for writing but stays open without context, and the next bytes from the
  client, or its close, dereference a null pointer.
\<close>

theorem no_backend_crashes:
  assumes "route hash ip sel = None"
  shows "\<exists>conn. fst (l4_onConnection_up hash ip fd err (connectEstablished (tcp_connection_new now)) sel)
        = No_Context conn
    \<and> state conn = kDisconnecting
    \<and> (\<forall>d r. l4_run [Client_Data d r] (No_Context conn) = None)
    \<and> l4_run [Client_Closes] (No_Context conn) = None"
proof -
  have "fst (l4_onConnection_up hash ip fd err (connectEstablished (tcp_connection_new now)) sel)
      = No_Context (shutdown True (connectEstablished (tcp_connection_new now)))"
    using assms by (auto simp: l4_onConnection_up_def route_def split: prod.split)
  then show ?thesis
    by (simp add: l4_onMessage_def l4_onConnection_down_def l4_conn_def shutdown_def shutdownInLoop_def
        connectEstablished_def notify_def enable_reading_def Let_def)
qed

text \<open>
  A client's stream can be split over two backend connections: after the backend has closed, the
  proxy reconnects half a second later and sends what the client says next to the new
  connection.
\<close>

theorem tail_to_second_backend:
  assumes "fst (l4_onConnection_up hash ip fd err (connectEstablished (tcp_connection_new now)) sel) = Session s0"
    and "relay_history es s0" and "l4_run es (Session s0) = Some (Session s)" and "tl_conn s = Some c"
    and "took r (length x)"
  shows "\<exists>s'. l4_run [Backend_Closes c, Client_Data x w, Connector_Does (Timer_Fires fd' EINPROGRESS) r,
        Connector_Does (Channel_Writable 0) r] (Session s) = Some (Session s')
    \<and> tl_conn s' = Some 1 \<and> stream (tl_conns s' 0) = concat (map from_client es)
    \<and> stream (tl_conns s' 1) = x \<and> state (l4_client s') = kDisconnecting"
proof -
  from relay_run [OF conjunct1 [OF opened_relays [OF assms(1)]] assms(2)] assms(3)
  have s: "relays (concat (map from_client es)) (concat (map from_backend es)) s" by simp
  note e = relays_client [OF s] relays_backend [OF s assms(4)]
  from s have i: "one_attempt (tl_connector s)" "tl_open s \<longrightarrow> resting (tl_connector s)"
    "buf_inv (pendingBuffer s)" by (simp_all add: relays_def client_inv_def)
  with relays_open [OF s assms(4)] have rest: "resting (tl_connector s)" by blast
  from s assms(4) have p: "readable (pendingBuffer s) = []" by (simp add: relays_def)
  from backend_closes [OF s assms(4)] obtain s1 where
    s1: "l4_step (Backend_Closes c) (Session s) = Some (Session s1)"
    "l4_client s1 = shutdown True (l4_client s)" "tl_conn s1 = None" "tl_count s1 = 1"
    "tl_connector s1 = restart (tl_connector s)" "pendingBuffer s1 = pendingBuffer s"
    "stream (tl_conns s1 c) = concat (map from_client es)" by blast
  have k: "state (l4_client s1) = kDisconnecting" "inputBuffer (l4_client s1) = inputBuffer (l4_client s)"
    using e(1) s1(2) by (simp_all add: shutdown_def shutdownInLoop_def endpoint_def live_def connected_def Let_def)
  from waiting_for_backend [of s1 x w] s1(3,6) k(2) e(2,3) i(3) p obtain s2 where
    s2: "l4_step (Client_Data x w) (Session s1) = Some (Session s2)"
    "tl_connector s2 = tl_connector s1" "tl_count s2 = 1" "tl_conns s2 = tl_conns s1"
    "state (l4_client s2) = kDisconnecting" "buf_inv (pendingBuffer s2)" "readable (pendingBuffer s2) = x"
    using k(1) s1(4) by auto
  from restarted_connects [OF i(1) rest, of fd'] obtain k1 k2 where
    k1: "con_step (Timer_Fires fd' EINPROGRESS) (tl_connector s2) = Some k1"
    "handed k1 = handed (tl_connector s)" "errors k1 = errors (tl_connector s)"
    and k2: "con_step (Channel_Writable 0) k1 = Some k2" "handed k2 = handed (tl_connector s) @ [fd']"
    using s1(5) s2(2) by auto
  let ?s3 = "s2\<lparr>tl_connector := k1\<rparr>"
  let ?s4 = "client_newConnection (remote_up r) 0 (s2\<lparr>tl_connector := k2\<rparr>)"
  have h: "handed (tl_connector s2) = handed (tl_connector s)" "errors (tl_connector s2) = errors (tl_connector s)"
    using s1(5) s2(2) by (simp_all add: restart_def Let_def)
  have "l4_step (Connector_Does (Timer_Fires fd' EINPROGRESS) r) (Session s2) = Some (Session ?s3)"
    using k1 h by (simp add: client_connector_event_def Let_def)
  moreover have "l4_step (Connector_Does (Channel_Writable 0) r) (Session ?s3) = Some (Session ?s4)"
    using k1(2) k2 by (simp add: client_connector_event_def Let_def del: con_step.simps)
  ultimately have "l4_run [Backend_Closes c, Client_Data x w, Connector_Does (Timer_Fires fd' EINPROGRESS) r,
      Connector_Does (Channel_Writable 0) r] (Session s) = Some (Session ?s4)"
    using s1(1) s2(1) by (simp del: l4_step.simps)
  moreover have "c = 0" by (rule e(6))
  ultimately show ?thesis
    using pending_flushed [of "s2\<lparr>tl_connector := k2\<rparr>" x r] s2 s1(7) assms(5)
    by (intro exI [of _ ?s4]) simp
qed

section \<open>A session\<close>

text \<open>A selector with one node, for a hash that maps every key to 0.\<close>

definition one_backend :: selector where
  "one_backend = built (\<lambda>_. 0) (\<lambda>_. server_node_new \<lparr>addr_ip = ''10.0.0.1'', addr_port = 80\<rparr> 1 1 1) [Add_Node 0]"

lemma insert_same: "fold (\<lambda>i. ring_insert 0 a) is [(0, a)] = [(0, a)]"
  by (induction "is") simp_all

lemma ring_of_empty: "ring_of (built hash st []) = []"
  by (simp add: built_def ring_of_def selector_new_def content_simp)

lemma route_one_backend: "route (\<lambda>_. 0) key one_backend = Some \<lparr>addr_ip = ''10.0.0.1'', addr_port = 80\<rparr>"
proof -
  have "[0..<kVirtualNodes] = 0 # [1..<kVirtualNodes]"
    by (simp add: kVirtualNodes_def upt_conv_Cons)
  then have "ring_add_node (\<lambda>_. 0) a [] = [(0, a)]" for a
    by (simp add: ring_add_node_def insert_same)
  then have "ring_of one_backend = [(0, \<lparr>addr_ip = ''10.0.0.1'', addr_port = 80\<rparr>)]"
    using built_snoc(1) [of "\<lambda>_. 0" "\<lambda>_. server_node_new \<lparr>addr_ip = ''10.0.0.1'', addr_port = 80\<rparr> 1 1 1" "[]" 0]
    by (simp add: one_backend_def server_node_new_def ring_of_empty)
  then show ?thesis
    using route_by_ring [OF built_inv] by (simp add: route_def one_backend_def ring_lookup_def)
qed

definition sample_session :: l4_session where
  "sample_session = client_connect 7 EINPROGRESS (remote_client_new \<lparr>addr_ip = ''10.0.0.1'', addr_port = 80\<rparr>
     ''LB_Client'' (connectEstablished (tcp_connection_new 0)))"

lemma sample_opened:
  "fst (l4_onConnection_up (\<lambda>_. 0) ''10.1.1.1'' 7 EINPROGRESS (connectEstablished (tcp_connection_new 0)) one_backend)
     = Session sample_session"
proof -
  have "fst (getNextServer_key (\<lambda>_. 0) ''10.1.1.1'' one_backend) = Some \<lparr>addr_ip = ''10.0.0.1'', addr_port = 80\<rparr>"
    using route_one_backend by (simp add: route_def)
  then show ?thesis by (auto simp: l4_onConnection_up_def sample_session_def split: prod.split)
qed

text \<open>The client speaks first, the backend comes up and takes two bytes, then it answers.\<close>

definition sample_relay_events :: "l4_event list" where
  "sample_relay_events = [Client_Data ''get'' (Wrote 0), Connector_Does (Channel_Writable 0) (Wrote 2),
     Backend_Data 0 ''ok'' (Wrote 1)]"

lemmas l4_eval = sample_session_def sample_relay_events_def relay_event_def took_def l4_onMessage_def l4_conn_def
  remote_sendToBackend_def client_send_buffer_def client_connector_event_def loop_event_def
  client_newConnection_def remote_up_def remote_onMessage_def upd_conn_def send_buffer_def
  remote_client_new_def client_enableRetry_def tcp_client_new_def tcp_client.extend_def client_connect_def
  Connector.start_def startInLoop_def Connector.connect_def connecting_def enableRetry_def
  setNewConnectionCallback_def connector_new_def Connector.handleWrite_def EINPROGRESS_def

lemma sample_history_relays:
  "relay_history sample_relay_events sample_session
   \<and> (\<exists>s. l4_run sample_relay_events (Session sample_session) = Some (Session s) \<and> tl_conn s = Some 0)"
  by (simp add: l4_eval conn_eval peek_bytes_def readable_def)

theorem relay_stream_witness:
  "\<exists>s. l4_run sample_relay_events (Session sample_session) = Some (Session s)
    \<and> wire (l4_client s) @ readable (outputBuffer (l4_client s)) = ''ok''"
  using relay_stream [OF sample_opened conjunct1 [OF sample_history_relays]]
  by (auto simp: sample_relay_events_def from_backend_def)

theorem relay_closes_witness:
  "(\<exists>s s'. l4_run (sample_relay_events @ [Backend_Closes 0]) (Session sample_session) = Some (Session s')
      \<and> l4_run sample_relay_events (Session sample_session) = Some (Session s)
      \<and> (\<forall>rs. draining rs (l4_client s') \<longrightarrow> wire (conn_run (map Writable rs) (l4_client s')) = ''ok''))
   \<and> (\<exists>s s'. l4_run [Client_Data ''get'' (Wrote 0)] (Session sample_session) = Some (Session s)
      \<and> l4_run [Client_Closes, Connector_Does (Channel_Writable 0) (Wrote 0)] (Session s) = Some (Session s')
      \<and> tl_conn s = None \<and> tl_conn s' = None)"
proof (intro conjI)
  from sample_history_relays obtain s where s: "relay_history sample_relay_events sample_session"
    "l4_run sample_relay_events (Session sample_session) = Some (Session s)" "tl_conn s = Some 0" by blast
  from relay_closes [OF sample_opened s(1,2)] s(3) obtain s' where
    s': "l4_step (Backend_Closes 0) (Session s) = Some (Session s')"
    "\<forall>rs. draining rs (l4_client s') \<longrightarrow> wire (conn_run (map Writable rs) (l4_client s')) = ''ok''"
    by (auto simp: sample_relay_events_def from_backend_def)
  moreover have "l4_run (es @ [e]) x = (case l4_run es x of None \<Rightarrow> None | Some y \<Rightarrow> l4_run [e] y)" for es e x
    by (induction es arbitrary: x) (simp_all del: l4_step.simps split: option.split)
  ultimately show "\<exists>s s'. l4_run (sample_relay_events @ [Backend_Closes 0]) (Session sample_session) = Some (Session s')
      \<and> l4_run sample_relay_events (Session sample_session) = Some (Session s)
      \<and> (\<forall>rs. draining rs (l4_client s') \<longrightarrow> wire (conn_run (map Writable rs) (l4_client s')) = ''ok'')"
    using s(2) by (intro exI [of _ s] exI [of _ s']) simp
next
  have h: "relay_history [Client_Data ''get'' (Wrote 0)] sample_session"
    by (simp add: l4_eval conn_eval peek_bytes_def readable_def)
  obtain s where s: "l4_run [Client_Data ''get'' (Wrote 0)] (Session sample_session) = Some (Session s)"
    "tl_conn s = None" "retry_timers (tl_connector s) = []"
    by (simp add: l4_eval conn_eval peek_bytes_def readable_def)
  let ?ds = "[Connector_Does (Channel_Writable 0) (Wrote 0)]"
  have d: "\<forall>e \<in> set ?ds. connector_event e" by (simp add: connector_event_def loop_event_def)
  note early = relay_closes [OF sample_opened h s(1), unfolded s(2) option.case]
  from early obtain s' where s': "l4_step Client_Closes (Session s) = Some (Session s')"
    "\<forall>ds. (\<forall>e \<in> set ds. connector_event e) \<longrightarrow> (\<exists>s''. l4_run ds (Session s') = Some (Session s'') \<and> tl_conn s'' = None
      \<and> tl_count s'' = 0 \<and> readable (pendingBuffer s'') = concat (map from_client [Client_Data ''get'' (Wrote 0)]))"
    using s(3) by (elim exE conjE) (rule that, assumption, blast)
  from s'(2) [THEN spec, THEN mp, OF d] obtain s'' where "l4_run ?ds (Session s') = Some (Session s'')" "tl_conn s'' = None"
    by (elim exE conjE) (rule that)
  with s s'(1) show "\<exists>s s''. l4_run [Client_Data ''get'' (Wrote 0)] (Session sample_session) = Some (Session s)
      \<and> l4_run [Client_Closes, Connector_Does (Channel_Writable 0) (Wrote 0)] (Session s) = Some (Session s'')
      \<and> tl_conn s = None \<and> tl_conn s'' = None"
    by (intro exI [of _ s] exI [of _ s'']) (simp del: l4_step.simps)
qed

theorem no_backend_crashes_witness:
  "\<exists>conn. fst (l4_onConnection_up (\<lambda>_. 0) ''10.1.1.1'' 7 0 (connectEstablished (tcp_connection_new 0))
      (built (\<lambda>_. 0) (\<lambda>_. server_node_new \<lparr>addr_ip = ''10.0.0.1'', addr_port = 80\<rparr> 1 1 1) [])) = No_Context conn
    \<and> l4_run [Client_Closes] (No_Context conn) = None"
proof -
  have "route (\<lambda>_. 0) ''10.1.1.1''
      (built (\<lambda>_. 0) (\<lambda>_. server_node_new \<lparr>addr_ip = ''10.0.0.1'', addr_port = 80\<rparr> 1 1 1) []) = None"
    using route_by_ring [OF built_inv] by (simp add: route_def ring_of_empty ring_lookup_def)
  from no_backend_crashes [OF this, of 7 0 0] show ?thesis by blast
qed

theorem tail_to_second_backend_witness:
  "\<exists>s s'. l4_run sample_relay_events (Session sample_session) = Some (Session s)
    \<and> l4_run [Backend_Closes 0, Client_Data ''more'' (Wrote 0), Connector_Does (Timer_Fires 8 EINPROGRESS) (Wrote 4),
        Connector_Does (Channel_Writable 0) (Wrote 4)] (Session s) = Some (Session s')
    \<and> stream (tl_conns s' 0) = ''get'' \<and> stream (tl_conns s' 1) = ''more''"
proof -
  from sample_history_relays obtain s where s: "relay_history sample_relay_events sample_session"
    "l4_run sample_relay_events (Session sample_session) = Some (Session s)" "tl_conn s = Some 0" by blast
  have "took (Wrote 4) (length ''more'')" by (simp add: took_def)
  from tail_to_second_backend [OF sample_opened s this, of "Wrote 0" 8] s(2) show ?thesis
    by (auto simp: sample_relay_events_def from_client_def simp del: l4_run.simps)
qed

end
