(* ===== verification/Health_Checker.thy ===== *)
theory Health_Checker
  imports Complex_Main Tcp_Client
begin

text \<open>
  Health checks of the TCP proxy: \<open>CheckerTask\<close> (\<^verbatim>\<open>Proxy/src/L4/HealthCheck/CheckerTask.cc\<close>,
  \<^verbatim>\<open>Proxy/src/L4/HealthCheck/CheckerTask.h\<close>) and \<open>HealthChecker\<close>
  (\<^verbatim>\<open>Proxy/src/L4/HealthCheck/HealthChecker.cc\<close>, \<^verbatim>\<open>HealthChecker.h\<close>). A task probes one node: it
  connects to it and decides by what comes first, the connection, an error, or a timer of two
  seconds. The checker starts the tasks in turn, one round in three seconds.

  A task extends its \<open>TcpClient\<close>. Its timers are numbers: \<open>ct_timers\<close> are pending and \<open>ct_ran\<close> have
  run; cancelling a timer that has run is undefined (see \<open>Timer_Queue\<close>) and sets \<open>ct_fault\<close>.
  \<open>ct_journal\<close> records the probes begun and how they ended.
\<close>

section \<open>The task\<close>

datatype probe_note = Probe_Begun | Verdict bool | Probe_Skipped

record checker_task = tcp_client +
  ct_node :: server_node
  has_determined :: bool
  is_probing :: bool
  timerId :: "nat option"
  ct_timers :: "nat list"
  ct_ran :: "nat list"
  ct_next_timer :: nat
  ct_fault :: bool
  ct_journal :: "probe_note list"

definition checker_task_new :: "bytes \<Rightarrow> server_node \<Rightarrow> checker_task" where
  "checker_task_new name node =
     client_setErrorCallback (tcp_client.extend (tcp_client_new (node_addr node) name)
       \<lparr>ct_node = node, has_determined = False, is_probing = False, timerId = None, ct_timers = [],
        ct_ran = [], ct_next_timer = 0, ct_fault = False, ct_journal = []\<rparr>)"

definition note_probe :: "probe_note \<Rightarrow> checker_task \<Rightarrow> checker_task" where
  "note_probe n s = s\<lparr>ct_journal := ct_journal s @ [n]\<rparr>"

text \<open>\<open>node_->updateStatus(success)\<close>\<close>

definition report :: "bool \<Rightarrow> checker_task \<Rightarrow> checker_task" where
  "report success s = note_probe (Verdict success) (s\<lparr>ct_node := updateStatus success (ct_node s)\<rparr>)"

definition cancel_timer :: "nat \<Rightarrow> checker_task \<Rightarrow> checker_task" where
  "cancel_timer t s =
     (if t \<in> set (ct_ran s) then s\<lparr>ct_fault := True\<rparr>
      else s\<lparr>ct_timers := filter (\<lambda>x. x \<noteq> t) (ct_timers s)\<rparr>)"

text \<open>\<open>start\<close>, with the socket of the attempt and the result of its \<open>connect\<close>.\<close>

definition ct_start :: "int \<Rightarrow> int \<Rightarrow> checker_task \<Rightarrow> checker_task" where
  "ct_start sockfd err s =
     (if is_probing s then s
      else
        let s1 = note_probe Probe_Begun (s\<lparr>is_probing := True, has_determined := False\<rparr>);
            s2 = client_connect sockfd err s1
        in s2\<lparr>timerId := Some (ct_next_timer s2), ct_timers := ct_timers s2 @ [ct_next_timer s2],
              ct_next_timer := ct_next_timer s2 + 1\<rparr>)"

definition ct_onTimeout :: "checker_task \<Rightarrow> checker_task" where
  "ct_onTimeout s =
     (if has_determined s then s\<lparr>has_determined := True\<rparr>
      else (client_stop (report False (s\<lparr>has_determined := True\<rparr>)))\<lparr>is_probing := False\<rparr>)"

text \<open>\<open>onConnection\<close>: \<open>forceClose\<close> calls it again for the connection that is then down.\<close>

definition ct_cancel :: "checker_task \<Rightarrow> checker_task" where
  "ct_cancel s = (case timerId s of None \<Rightarrow> s | Some t \<Rightarrow> cancel_timer t s)"

definition ct_onConnection_down :: "nat \<Rightarrow> checker_task \<Rightarrow> checker_task" where
  "ct_onConnection_down c s = (ct_cancel s)\<lparr>is_probing := False\<rparr>"

definition ct_onConnection :: "nat \<Rightarrow> checker_task \<Rightarrow> checker_task" where
  "ct_onConnection c s =
     (let s1 = ct_cancel s
      in if connected (tl_conns s1 c) then
           (if has_determined s1 then s1
            else (client_forceClose ct_onConnection_down c (report True (s1\<lparr>has_determined := True\<rparr>)))
                   \<lparr>is_probing := False\<rparr>)
         else s1\<lparr>is_probing := False\<rparr>)"

definition EMFILE :: int where "EMFILE = 24"

text \<open>\<open>onError\<close> dereferences \<open>timerId_\<close>, which is set from the first \<open>start\<close> on.\<close>

definition ct_onError :: "int \<Rightarrow> checker_task \<Rightarrow> checker_task" where
  "ct_onError saveError s =
     (if has_determined s then s
      else
        let s1 = s\<lparr>has_determined := True\<rparr>
        in if saveError = EAGAIN \<or> saveError = EMFILE
           then note_probe Probe_Skipped (s1\<lparr>is_probing := False\<rparr>)
           else
             let s2 = (case timerId s1 of None \<Rightarrow> s1\<lparr>ct_fault := True\<rparr> | Some t \<Rightarrow> cancel_timer t s1)
             in (client_stop (report False s2))\<lparr>is_probing := False\<rparr>)"

section \<open>What the loop does\<close>

text \<open>The checker starts the task; a timer fires; an event of the connector; a functor destroys a connection.\<close>

datatype ct_event = Probe int int | Timer_Expires nat | Connecting con_event | Destroy_Next

fun ct_step :: "ct_event \<Rightarrow> checker_task \<Rightarrow> checker_task option" where
  "ct_step (Probe fd err) s = Some (ct_start fd err s)"
| "ct_step (Timer_Expires t) s =
     (if t \<in> set (ct_timers s)
      then Some (ct_onTimeout (s\<lparr>ct_timers := filter (\<lambda>x. x \<noteq> t) (ct_timers s), ct_ran := ct_ran s @ [t]\<rparr>))
      else Some s)"
| "ct_step (Connecting e) s = client_connector_event ct_onConnection ct_onError 0 e s"
| "ct_step Destroy_Next s = Some (client_destroy_next ct_onConnection_down s)"

fun ct_run :: "ct_event list \<Rightarrow> checker_task \<Rightarrow> checker_task option" where
  "ct_run [] s = Some s"
| "ct_run (e # es) s = (case ct_step e s of None \<Rightarrow> None | Some s1 \<Rightarrow> ct_run es s1)"

section \<open>The checker\<close>

record health_checker =
  hc_tasks :: "checker_task list"
  TaskIndex :: nat

definition checkInterval :: nat where
  "checkInterval = 3"

definition hc_addNode :: "server_node \<Rightarrow> health_checker \<Rightarrow> health_checker" where
  "hc_addNode node h = h\<lparr>hc_tasks := hc_tasks h @ [checker_task_new ''CheckerClient'' node]\<rparr>"

text \<open>\<open>start\<close>: the interval in seconds at which \<open>hc_tick\<close> will run, if there are tasks.\<close>

definition hc_start :: "health_checker \<Rightarrow> rat option" where
  "hc_start h =
     (if hc_tasks h = [] then None else Some (of_nat checkInterval / of_nat (length (hc_tasks h))))"

definition hc_tick :: "int \<Rightarrow> int \<Rightarrow> health_checker \<Rightarrow> health_checker" where
  "hc_tick sockfd err h =
     (let k = TaskIndex h
      in h\<lparr>hc_tasks := (hc_tasks h)[k := ct_start sockfd err (hc_tasks h ! k)],
           TaskIndex := (k + 1) mod length (hc_tasks h)\<rparr>)"

section \<open>The connector of a task\<close>

text \<open>It never retries and reports errors; an error waits to be reported only when no attempt is under way.\<close>

definition probe_connector :: "connector \<Rightarrow> bool" where
  "probe_connector k \<longleftrightarrow> has_new_connection k \<and> has_error k \<and> \<not> retry_flag k \<and> retry_timers k = []
     \<and> Start_Task \<notin> set (con_tasks k) \<and> (con_state k = cConnecting \<longrightarrow> con_channel k \<noteq> None)
     \<and> ((\<exists>x. Error_Task x \<in> set (con_tasks k)) \<longrightarrow> con_channel k = None)"

text \<open>No connection can come from it.\<close>

definition dormant :: "connector \<Rightarrow> bool" where
  "dormant k \<longleftrightarrow> con_channel k = None \<or> \<not> connect_flag k"

definition untouched :: "connector \<Rightarrow> bool" where
  "untouched k \<longleftrightarrow> con_channel k = None \<and> con_tasks k = []"

definition con_outcome :: "connector \<Rightarrow> connector \<Rightarrow> bool" where
  "con_outcome k k' \<longleftrightarrow>
     handed k' = handed k \<and> errors k' = errors k
     \<or> \<not> dormant k \<and> (\<exists>fd. handed k' = handed k @ [fd]) \<and> con_channel k' = None \<and> errors k' = errors k
     \<or> handed k' = handed k \<and> (\<exists>x. errors k' = errors k @ [x]) \<and> \<not> untouched k \<and> con_channel k' = None"

lemma retry_probe:
  "probe_connector k \<Longrightarrow> con_channel k = Some fd \<Longrightarrow>
     probe_connector (retry fd x k) \<and> con_channel (retry fd x k) = None \<and> con_state (retry fd x k) = cDisconnected
     \<and> handed (retry fd x k) = handed k \<and> errors (retry fd x k) = errors k"
  by (auto simp: probe_connector_def retry_def Let_def)

lemma probe_connector_step:
  assumes k: "probe_connector k" and e: "loop_event e"
  shows "\<exists>k'. con_step e k = Some k' \<and> probe_connector k' \<and> (dormant k \<longrightarrow> dormant k')
    \<and> (untouched k \<longrightarrow> untouched k') \<and> con_outcome k k'"
proof (cases e)
  case (Timer_Fires fd x)
  with k show ?thesis by (simp add: probe_connector_def con_outcome_def)
next
  case (Run_Task fd x)
  show ?thesis
  proof (cases "con_tasks k")
    case Nil
    with Run_Task k show ?thesis by (simp add: con_outcome_def)
  next
    case (Cons t ts)
    with k have "t \<noteq> Start_Task" by (auto simp: probe_connector_def)
    with Run_Task Cons k show ?thesis
      by (cases t) (auto simp: probe_connector_def dormant_def untouched_def con_outcome_def stopInLoop_def Let_def
          split: option.splits)
  qed
next
  case (Channel_Error x w y)
  show ?thesis
  proof (cases "con_channel k")
    case None
    with Channel_Error k show ?thesis by (simp add: con_outcome_def)
  next
    case (Some fd)
    with retry_probe [OF k Some, of x] Channel_Error show ?thesis
      by (simp add: Connector.handleError_def Connector.handleWrite_def dormant_def untouched_def con_outcome_def)
  qed
next
  case (Channel_Writable x)
  show ?thesis
  proof (cases "con_channel k = None \<or> con_state k \<noteq> cConnecting")
    case True
    with Channel_Writable k show ?thesis by (auto simp: con_outcome_def Connector.handleWrite_def)
  next
    case False
    then obtain fd where fd: "con_channel k = Some fd" "con_state k = cConnecting" by auto
    show ?thesis
    proof (cases "x = 0")
      case True
      with fd Channel_Writable k show ?thesis
        by (auto simp: con_outcome_def Connector.handleWrite_def probe_connector_def dormant_def untouched_def Let_def)
    next
      case False
      with fd Channel_Writable retry_probe [OF k fd(1), of x] show ?thesis
        by (simp add: con_outcome_def Connector.handleWrite_def dormant_def untouched_def)
    qed
  qed
qed (use e in \<open>simp_all add: loop_event_def\<close>)

lemma connect_probe:
  assumes "probe_connector k" "con_tasks k = []"
  shows "probe_connector (connect fd x k) \<and> handed (connect fd x k) = handed k \<and> errors (connect fd x k) = errors k"
proof -
  have "probe_connector (connecting fd (k\<lparr>opened := opened k @ [fd]\<rparr>))
      \<and> handed (connecting fd (k\<lparr>opened := opened k @ [fd]\<rparr>)) = handed k
      \<and> errors (connecting fd (k\<lparr>opened := opened k @ [fd]\<rparr>)) = errors k"
    using assms by (simp add: probe_connector_def connecting_def Let_def split: option.split)
  moreover have "probe_connector (retry fd x (k\<lparr>opened := opened k @ [fd]\<rparr>))
      \<and> handed (retry fd x (k\<lparr>opened := opened k @ [fd]\<rparr>)) = handed k
      \<and> errors (retry fd x (k\<lparr>opened := opened k @ [fd]\<rparr>)) = errors k"
    using assms by (simp add: probe_connector_def retry_def Let_def split: option.split)
  moreover have "probe_connector (k\<lparr>opened := opened k @ [fd], closed := closed k @ [fd]\<rparr>)"
    using assms by (simp add: probe_connector_def)
  ultimately show ?thesis by (simp add: connect_def Let_def)
qed

lemma start_probe:
  assumes "probe_connector k" "con_tasks k = []"
  shows "probe_connector (start True fd x k) \<and> handed (start True fd x k) = handed k
    \<and> errors (start True fd x k) = errors k"
proof -
  have "probe_connector (k\<lparr>connect_flag := True\<rparr>)" "con_tasks (k\<lparr>connect_flag := True\<rparr>) = []"
    using assms by (simp_all add: probe_connector_def)
  from connect_probe [OF this] show ?thesis by (simp add: start_def startInLoop_def Let_def)
qed

lemma stop_probe:
  "probe_connector k \<Longrightarrow> probe_connector (stop k) \<and> dormant (stop k)"
  by (simp add: probe_connector_def dormant_def stop_def)

section \<open>Probes\<close>

fun verdicts :: "probe_note list \<Rightarrow> bool list" where
  "verdicts [] = []"
| "verdicts (Verdict b # js) = b # verdicts js"
| "verdicts (j # js) = verdicts js"

lemma verdicts_append [simp]: "verdicts (js @ ks) = verdicts js @ verdicts ks"
  by (induction js rule: verdicts.induct) simp_all

text \<open>Each probe that was begun has ended in one way before the next began; the last may be under way.\<close>

definition rounds :: "probe_note list \<Rightarrow> bool \<Rightarrow> bool" where
  "rounds js busy \<longleftrightarrow> (\<exists>os. Probe_Begun \<notin> set os
     \<and> js = concat (map (\<lambda>x. [Probe_Begun, x]) os) @ (if busy then [Probe_Begun] else []))"

lemma rounds_begin: "rounds js False \<Longrightarrow> rounds (js @ [Probe_Begun]) True"
  by (auto simp: rounds_def)

lemma rounds_end:
  assumes "rounds js True" "x \<noteq> Probe_Begun" shows "rounds (js @ [x]) False"
proof -
  from assms(1) obtain os where "Probe_Begun \<notin> set os"
    "js = concat (map (\<lambda>x. [Probe_Begun, x]) os) @ [Probe_Begun]" by (auto simp: rounds_def)
  with assms(2) show ?thesis by (auto simp: rounds_def intro!: exI [of _ "os @ [x]"])
qed

lemma count_list_snoc [simp]: "count_list (xs @ [x]) y = count_list xs y + (if x = y then 1 else 0)"
  by (induction xs) simp_all

definition timers_ok :: "checker_task \<Rightarrow> bool" where
  "timers_ok s \<longleftrightarrow> (\<forall>t \<in> set (ct_timers s) \<union> set (ct_ran s). t < ct_next_timer s)
     \<and> set (ct_timers s) \<inter> set (ct_ran s) = {} \<and> \<not> ct_fault s"

definition conns_ok :: "checker_task \<Rightarrow> bool" where
  "conns_ok s \<longleftrightarrow> \<not> tl_retry s \<and> (\<forall>c < tl_count s. state (tl_conns s c) = kDisconnected)
     \<and> tl_conn s = (if tl_count s = 0 then None else Some (tl_count s - 1)) \<and> (\<forall>c \<in> set (tl_destroys s). c < tl_count s)"

text \<open>While a probe is under way its timer runs and nothing is decided; otherwise nothing can be.\<close>

definition probing_ok :: "checker_task \<Rightarrow> bool" where
  "probing_ok s \<longleftrightarrow>
     (if is_probing s then \<not> has_determined s \<and> (\<exists>t. timerId s = Some t \<and> t \<in> set (ct_timers s))
      else dormant (tl_connector s)
        \<and> (has_determined s \<or> untouched (tl_connector s) \<and> ct_timers s = []))"

definition journal_ok :: "server_node \<Rightarrow> checker_task \<Rightarrow> bool" where
  "journal_ok n s \<longleftrightarrow> rounds (ct_journal s) (is_probing s) \<and> ct_node s = probed (verdicts (ct_journal s)) n
     \<and> tl_count s = count_list (ct_journal s) (Verdict True)"

definition ct_inv :: "server_node \<Rightarrow> checker_task \<Rightarrow> bool" where
  "ct_inv n s \<longleftrightarrow> probe_connector (tl_connector s) \<and> timers_ok s \<and> conns_ok s \<and> probing_ok s \<and> journal_ok n s"

lemmas ct_parts = timers_ok_def conns_ok_def probing_ok_def journal_ok_def

lemma checker_task_new_inv: "ct_inv node (checker_task_new name node)"
  by (simp add: ct_inv_def ct_parts checker_task_new_def client_setErrorCallback_def tcp_client.extend_def
      tcp_client_new_def setErrorCallback_def setNewConnectionCallback_def connector_new_def
      probe_connector_def dormant_def untouched_def rounds_def probed_def)

lemma client_stop_done:
  assumes "conns_ok s"
  shows "client_stop s = s\<lparr>tl_connect := False, tl_connector := stop (tl_connector s)\<rparr>"
proof -
  have "shutdown True (tl_conns s c) = tl_conns s c" if "tl_conn s = Some c" for c
    using assms that by (auto simp: conns_ok_def shutdown_def split: if_splits)
  then show ?thesis by (simp add: client_stop_def upd_conn_def Let_def split: option.split)
qed

lemma ct_start_begins:
  "\<not> is_probing s \<Longrightarrow> ct_start fd err s = s\<lparr>is_probing := True, has_determined := False,
     ct_journal := ct_journal s @ [Probe_Begun], tl_connect := True,
     tl_connector := start True fd err (tl_connector s), timerId := Some (ct_next_timer s),
     ct_timers := ct_timers s @ [ct_next_timer s], ct_next_timer := ct_next_timer s + 1\<rparr>"
  by (simp add: ct_start_def note_probe_def client_connect_def Let_def)

text \<open>A call during a probe changes nothing.\<close>

lemma ct_start_busy: "is_probing s \<Longrightarrow> ct_start fd err s = s"
  by (simp add: ct_start_def)

lemma ct_start_inv:
  assumes i: "ct_inv n s" and t: "is_probing s \<or> con_tasks (tl_connector s) = []"
  shows "ct_inv n (ct_start fd err s)"
proof (cases "is_probing s")
  case True
  with i show ?thesis by (simp add: ct_start_busy)
next
  case False
  with i t start_probe [of "tl_connector s"] have "probe_connector (start True fd err (tl_connector s))"
    by (simp add: ct_inv_def)
  moreover have "timers_ok (ct_start fd err s)"
    using i False by (auto simp: ct_inv_def timers_ok_def ct_start_begins less_Suc_eq)
  moreover have "conns_ok (ct_start fd err s)" using i False by (simp add: ct_inv_def conns_ok_def ct_start_begins)
  moreover have "probing_ok (ct_start fd err s)" using False by (simp add: probing_ok_def ct_start_begins)
  moreover have "journal_ok n (ct_start fd err s)"
    using i False rounds_begin [of "ct_journal s"] by (simp add: ct_inv_def journal_ok_def ct_start_begins)
  ultimately show ?thesis using False by (simp add: ct_inv_def ct_start_begins)
qed

text \<open>A probe ends without a connection.\<close>

lemma give_up_inv:
  assumes i: "ct_inv n s" and p: "is_probing s"
    and ts: "set ts \<subseteq> set (ct_timers s)" "set rs \<subseteq> set (ct_timers s) \<union> set (ct_ran s)" "set ts \<inter> set rs = {}"
  shows "ct_inv n ((client_stop (report False (s\<lparr>ct_timers := ts, ct_ran := rs, has_determined := True\<rparr>)))
    \<lparr>is_probing := False\<rparr>)"
proof -
  let ?k = "stop (tl_connector s)"
  let ?s = "s\<lparr>has_determined := True, ct_timers := ts, ct_ran := rs, ct_node := updateStatus False (ct_node s),
    ct_journal := ct_journal s @ [Verdict False], tl_connect := False, tl_connector := ?k, is_probing := False\<rparr>"
  have "conns_ok (report False (s\<lparr>ct_timers := ts, ct_ran := rs, has_determined := True\<rparr>))"
    using i by (simp add: ct_inv_def conns_ok_def report_def note_probe_def)
  then have "(client_stop (report False (s\<lparr>ct_timers := ts, ct_ran := rs, has_determined := True\<rparr>)))
    \<lparr>is_probing := False\<rparr> = ?s"
    by (simp add: client_stop_done) (simp add: report_def note_probe_def)
  moreover have "probe_connector ?k" "dormant ?k" using stop_probe i by (simp_all add: ct_inv_def)
  moreover have "timers_ok ?s" using i ts by (auto simp: ct_inv_def timers_ok_def)
  moreover have "conns_ok ?s" using i by (simp add: ct_inv_def conns_ok_def)
  moreover have "probing_ok ?s" using \<open>dormant ?k\<close> by (simp add: probing_ok_def)
  moreover have "journal_ok n ?s"
    using i p rounds_end [of "ct_journal s" "Verdict False"] by (simp add: ct_inv_def journal_ok_def probed_def)
  ultimately show ?thesis by (simp add: ct_inv_def)
qed

lemma timer_inv:
  assumes i: "ct_inv n s" and t: "t \<in> set (ct_timers s)"
  shows "ct_inv n (ct_onTimeout (s\<lparr>ct_timers := filter (\<lambda>x. x \<noteq> t) (ct_timers s), ct_ran := ct_ran s @ [t]\<rparr>))"
proof (cases "has_determined s")
  case True
  then have "\<not> is_probing s" using i by (auto simp: ct_inv_def probing_ok_def)
  with True i t show ?thesis by (auto simp: ct_inv_def ct_parts ct_onTimeout_def)
next
  case False
  then have p: "is_probing s" using i t by (auto simp: ct_inv_def probing_ok_def split: if_splits)
  have d: "set (ct_timers s) \<inter> set (ct_ran s) = {}" using i by (simp add: ct_inv_def timers_ok_def)
  have "ct_inv n ((client_stop (report False (s\<lparr>ct_timers := filter (\<lambda>x. x \<noteq> t) (ct_timers s),
      ct_ran := ct_ran s @ [t], has_determined := True\<rparr>)))\<lparr>is_probing := False\<rparr>)"
    by (rule give_up_inv [OF i p]) (use t d in auto)
  with False show ?thesis by (simp add: ct_onTimeout_def)
qed

lemma connector_frame_inv:
  assumes "ct_inv n s" "probe_connector k" "dormant (tl_connector s) \<longrightarrow> dormant k"
    "untouched (tl_connector s) \<longrightarrow> untouched k"
  shows "ct_inv n (s\<lparr>tl_connector := k\<rparr>)"
proof -
  let ?s = "s\<lparr>tl_connector := k\<rparr>"
  have "timers_ok ?s = timers_ok s" "conns_ok ?s = conns_ok s" "journal_ok n ?s = journal_ok n s"
    by (simp_all add: ct_parts)
  moreover have "probing_ok s \<longrightarrow> probing_ok ?s" using assms(3,4) by (auto simp: probing_ok_def)
  ultimately show ?thesis using assms(1,2) by (simp add: ct_inv_def)
qed

lemma probing_timer:
  assumes "ct_inv n s" "is_probing s"
  shows "\<exists>t. timerId s = Some t \<and> t \<in> set (ct_timers s) \<and> t \<notin> set (ct_ran s)" "\<not> has_determined s"
  using assms by (auto simp: ct_inv_def probing_ok_def timers_ok_def)

lemma onError_inv:
  assumes i: "ct_inv n s" and c: "con_channel (tl_connector s) = None" and p: "has_determined s \<or> is_probing s"
  shows "ct_inv n (ct_onError x s)"
proof (cases "has_determined s")
  case True
  with i show ?thesis by (simp add: ct_onError_def)
next
  case False
  with p have b: "is_probing s" by simp
  from probing_timer(1) [OF i b] obtain t where t: "timerId s = Some t" "t \<in> set (ct_timers s)" "t \<notin> set (ct_ran s)"
    by blast
  show ?thesis
  proof (cases "x = EAGAIN \<or> x = EMFILE")
    case True
    have "dormant (tl_connector s)" using c by (simp add: dormant_def)
    moreover have "rounds (ct_journal s @ [Probe_Skipped]) False"
      using i b by (intro rounds_end) (simp_all add: ct_inv_def journal_ok_def)
    moreover let ?s = "s\<lparr>has_determined := True, is_probing := False, ct_journal := ct_journal s @ [Probe_Skipped]\<rparr>"
    have "timers_ok ?s = timers_ok s" "conns_ok ?s = conns_ok s" by (simp_all add: ct_parts)
    moreover have "ct_onError x s = ?s" using False True by (simp add: ct_onError_def note_probe_def Let_def)
    ultimately show ?thesis using i by (simp add: ct_inv_def probing_ok_def journal_ok_def)
  next
    case other: False
    have d: "set (ct_timers s) \<inter> set (ct_ran s) = {}" using i by (simp add: ct_inv_def timers_ok_def)
    have "ct_inv n ((client_stop (report False (s\<lparr>ct_timers := filter (\<lambda>x. x \<noteq> t) (ct_timers s),
        ct_ran := ct_ran s, has_determined := True\<rparr>)))\<lparr>is_probing := False\<rparr>)"
      by (rule give_up_inv [OF i b]) (use t d in auto)
    moreover have eq: "s\<lparr>ct_timers := filter (\<lambda>x. x \<noteq> t) (ct_timers s), ct_ran := ct_ran s, has_determined := True\<rparr>
      = s\<lparr>has_determined := True, ct_timers := filter (\<lambda>x. x \<noteq> t) (ct_timers s)\<rparr>" by simp
    ultimately show ?thesis using False other t
      by (simp only: eq) (simp add: ct_onError_def cancel_timer_def Let_def)
  qed
qed

text \<open>
  A connection ends the probe at once. The connection itself is closed in its own callback, before
  \<open>newConnection\<close> stores it.
\<close>

lemma newConnection_probed:
  assumes i: "ct_inv n s" and b: "is_probing s"
  shows "\<exists>t conn. t \<notin> set (ct_ran s) \<and> state conn = kDisconnected \<and>
    client_newConnection ct_onConnection 0 s = s\<lparr>tl_nexConnId := tl_nexConnId s + 1, tl_count := tl_count s + 1,
      tl_names := (tl_names s)(tl_count s := client_connName s), tl_conns := (tl_conns s)(tl_count s := conn),
      ct_timers := filter (\<lambda>x. x \<noteq> t) (ct_timers s), has_determined := True,
      ct_node := updateStatus True (ct_node s), ct_journal := ct_journal s @ [Verdict True], is_probing := False,
      tl_conn := Some (tl_count s), tl_destroys := tl_destroys s @ [tl_count s]\<rparr>"
proof -
  from probing_timer [OF i b] obtain t where t: "timerId s = Some t" "t \<notin> set (ct_ran s)" "\<not> has_determined s"
    by blast
  let ?conn = "handleClose ((connectEstablished ((tcp_connection_new 0)\<lparr>has_write_complete := tl_write_complete s\<rparr>))
    \<lparr>state := kDisconnecting\<rparr>)"
  have "state ?conn = kDisconnected" by (simp add: handleClose_def)
  moreover have "\<not> tl_retry s" using i by (simp add: ct_inv_def conns_ok_def)
  moreover have "state (connectEstablished c) = kConnected" for c
    by (simp add: connectEstablished_def notify_def enable_reading_def)
  ultimately show ?thesis using t
    by (intro exI [of _ t] exI [of _ ?conn])
      (simp add: client_newConnection_def ct_onConnection_def ct_cancel_def cancel_timer_def connected_def
        client_forceClose_def client_handleClose_def client_removeConnection_def ct_onConnection_down_def
        report_def note_probe_def upd_conn_def Let_def)
qed

lemma probed_connection_inv:
  assumes i: "ct_inv n s" and b: "is_probing s" and c: "con_channel (tl_connector s) = None"
  shows "ct_inv n (client_newConnection ct_onConnection 0 s)"
proof -
  from newConnection_probed [OF i b] obtain t conn where
    n: "t \<notin> set (ct_ran s)" "state conn = kDisconnected"
      "client_newConnection ct_onConnection 0 s = s\<lparr>tl_nexConnId := tl_nexConnId s + 1, tl_count := tl_count s + 1,
      tl_names := (tl_names s)(tl_count s := client_connName s), tl_conns := (tl_conns s)(tl_count s := conn),
      ct_timers := filter (\<lambda>x. x \<noteq> t) (ct_timers s), has_determined := True,
      ct_node := updateStatus True (ct_node s), ct_journal := ct_journal s @ [Verdict True], is_probing := False,
      tl_conn := Some (tl_count s), tl_destroys := tl_destroys s @ [tl_count s]\<rparr>" (is "_ = ?s") by blast
  have "timers_ok ?s" using i by (auto simp: ct_inv_def timers_ok_def)
  moreover have "conns_ok ?s" using i n(2) by (auto simp: ct_inv_def conns_ok_def less_Suc_eq)
  moreover have "probing_ok ?s" using c by (simp add: probing_ok_def dormant_def)
  moreover have "journal_ok n ?s"
    using i b rounds_end [of "ct_journal s" "Verdict True"] by (simp add: ct_inv_def journal_ok_def probed_def)
  ultimately show ?thesis using i n(3) by (simp add: ct_inv_def)
qed

lemma connecting_inv:
  assumes i: "ct_inv n s" and e: "loop_event e"
  shows "\<exists>s'. ct_step (Connecting e) s = Some s' \<and> ct_inv n s'"
proof -
  have p: "probe_connector (tl_connector s)" using i by (simp add: ct_inv_def)
  from probe_connector_step [OF p e] obtain k where k: "con_step e (tl_connector s) = Some k" "probe_connector k"
    "dormant (tl_connector s) \<longrightarrow> dormant k" "untouched (tl_connector s) \<longrightarrow> untouched k"
    "con_outcome (tl_connector s) k" by blast
  let ?s = "s\<lparr>tl_connector := k\<rparr>"
  have i1: "ct_inv n ?s" by (rule connector_frame_inv [OF i k(2-4)])
  from k(5) show ?thesis unfolding con_outcome_def
  proof (elim disjE)
    assume "handed k = handed (tl_connector s) \<and> errors k = errors (tl_connector s)"
    with k(1) i1 show ?thesis by (simp add: client_connector_event_def Let_def)
  next
    assume h: "\<not> dormant (tl_connector s) \<and> (\<exists>fd. handed k = handed (tl_connector s) @ [fd])
      \<and> con_channel k = None \<and> errors k = errors (tl_connector s)"
    then have "is_probing ?s" using i by (auto simp: ct_inv_def probing_ok_def split: if_splits)
    from probed_connection_inv [OF i1 this] h k(1) show ?thesis
      by (auto simp: client_connector_event_def Let_def)
  next
    assume h: "handed k = handed (tl_connector s) \<and> (\<exists>x. errors k = errors (tl_connector s) @ [x])
      \<and> \<not> untouched (tl_connector s) \<and> con_channel k = None"
    then have "has_determined ?s \<or> is_probing ?s" using i by (auto simp: ct_inv_def probing_ok_def split: if_splits)
    with onError_inv [OF i1] h k(1) show ?thesis
      by (auto simp: client_connector_event_def Let_def)
  qed
qed

lemma destroy_inv:
  assumes i: "ct_inv n s"
  shows "ct_inv n (client_destroy_next ct_onConnection_down s)"
proof (cases "tl_destroys s")
  case (Cons c cs)
  with i have d: "state (tl_conns s c) = kDisconnected" by (simp add: ct_inv_def conns_ok_def)
  then have "connectDestroyed (tl_conns s c) = (tl_conns s c)\<lparr>channel_removed := True\<rparr>"
    by (simp add: connectDestroyed_def Let_def)
  moreover let ?s = "s\<lparr>tl_destroys := cs, tl_conns := (tl_conns s)(c := (tl_conns s c)\<lparr>channel_removed := True\<rparr>)\<rparr>"
  have "timers_ok ?s = timers_ok s" "probing_ok ?s = probing_ok s" "journal_ok n ?s = journal_ok n s"
    by (simp_all add: ct_parts)
  moreover have "conns_ok s \<longrightarrow> conns_ok ?s" using Cons by (auto simp: conns_ok_def)
  ultimately show ?thesis using Cons d i
    by (simp add: client_destroy_next_def connected_def upd_conn_def ct_inv_def)
qed (use i in \<open>simp add: client_destroy_next_def\<close>)

text \<open>
  The calls of \<open>start\<close> may come at any time. The one condition is that a probe does not begin
  while a functor that the connector queued for an earlier one is still waiting: the loop runs
  its functors within one iteration, and the calls are three seconds apart.
\<close>

fun paced :: "ct_event list \<Rightarrow> checker_task \<Rightarrow> bool" where
  "paced [] s \<longleftrightarrow> True"
| "paced (e # es) s \<longleftrightarrow>
     (case e of
        Probe fd err \<Rightarrow> is_probing s \<or> con_tasks (tl_connector s) = []
      | Connecting ce \<Rightarrow> loop_event ce
      | _ \<Rightarrow> True)
     \<and> (case ct_step e s of None \<Rightarrow> True | Some s1 \<Rightarrow> paced es s1)"

text \<open>The calls of \<open>start\<close> that find no probe under way.\<close>

definition begins_probe :: "ct_event \<Rightarrow> checker_task \<Rightarrow> bool" where
  "begins_probe e s \<longleftrightarrow> (case e of Probe fd err \<Rightarrow> \<not> is_probing s | _ \<Rightarrow> False)"

fun probes_begun :: "ct_event list \<Rightarrow> checker_task \<Rightarrow> nat" where
  "probes_begun [] s = 0"
| "probes_begun (e # es) s =
     (if begins_probe e s then 1 else 0) + (case ct_step e s of None \<Rightarrow> 0 | Some s1 \<Rightarrow> probes_begun es s1)"

abbreviation begun :: "checker_task \<Rightarrow> nat" where
  "begun s \<equiv> count_list (ct_journal s) Probe_Begun"

lemma begun_stop [simp]: "ct_journal (client_stop s) = ct_journal s"
  by (simp add: client_stop_def upd_conn_def Let_def split: option.split)

lemma begun_onTimeout: "begun (ct_onTimeout s) = begun s"
  by (simp add: ct_onTimeout_def report_def note_probe_def)

lemma begun_onError: "begun (ct_onError x s) = begun s"
  by (simp add: ct_onError_def report_def note_probe_def cancel_timer_def Let_def split: option.split)

lemma begun_newConnection: "ct_inv n s \<Longrightarrow> is_probing s \<Longrightarrow> begun (client_newConnection ct_onConnection 0 s) = begun s"
  using newConnection_probed [of n s] by auto

lemma connecting_begun:
  assumes i: "ct_inv n s" and e: "loop_event e" and s': "ct_step (Connecting e) s = Some s'"
  shows "begun s' = begun s"
proof -
  have p: "probe_connector (tl_connector s)" using i by (simp add: ct_inv_def)
  from probe_connector_step [OF p e] obtain k where k: "con_step e (tl_connector s) = Some k" "probe_connector k"
    "dormant (tl_connector s) \<longrightarrow> dormant k" "untouched (tl_connector s) \<longrightarrow> untouched k"
    "con_outcome (tl_connector s) k" by blast
  note i1 = connector_frame_inv [OF i k(2-4)]
  have "is_probing s" if "\<not> dormant (tl_connector s)"
    using that i by (auto simp: ct_inv_def probing_ok_def split: if_splits)
  with begun_newConnection [OF i1] begun_onError k(1,5) s' show ?thesis
    by (auto simp: con_outcome_def client_connector_event_def Let_def split: if_splits)
qed

lemma ct_step_inv:
  assumes i: "ct_inv n s" and p: "paced [e] s"
  shows "\<exists>s'. ct_step e s = Some s' \<and> ct_inv n s' \<and> begun s' = begun s + (if begins_probe e s then 1 else 0)"
proof (cases e)
  case (Probe fd err)
  with p have t: "is_probing s \<or> con_tasks (tl_connector s) = []" by simp
  have "begun (ct_start fd err s) = begun s + (if is_probing s then 0 else 1)"
    by (simp add: ct_start_busy ct_start_begins)
  with ct_start_inv [OF i t] Probe show ?thesis by (simp add: begins_probe_def)
next
  case (Timer_Expires t)
  with timer_inv [OF i] i show ?thesis by (simp add: begins_probe_def begun_onTimeout)
next
  case (Connecting ce)
  with p have e: "loop_event ce" by simp
  from connecting_inv [OF i e] connecting_begun [OF i e] Connecting show ?thesis by (auto simp: begins_probe_def)
next
  case Destroy_Next
  have "begun (client_destroy_next ct_onConnection_down s) = begun s"
    by (simp add: client_destroy_next_def upd_conn_def ct_onConnection_down_def ct_cancel_def cancel_timer_def
        Let_def split: list.split option.split)
  with destroy_inv [OF i] Destroy_Next show ?thesis by (simp add: begins_probe_def)
qed

lemma ct_run_inv:
  "ct_inv n s \<Longrightarrow> paced es s \<Longrightarrow>
     \<exists>s'. ct_run es s = Some s' \<and> ct_inv n s' \<and> begun s' = begun s + probes_begun es s"
proof (induction es arbitrary: s)
  case (Cons e es)
  then have "paced [e] s" by (auto split: option.split)
  from ct_step_inv [OF Cons.prems(1) this] obtain s1 where
    s1: "ct_step e s = Some s1" "ct_inv n s1" "begun s1 = begun s + (if begins_probe e s then 1 else 0)" by blast
  with Cons.prems(2) have "paced es s1" by simp
  from Cons.IH [OF s1(2) this] s1(1,3) show ?case by auto
qed simp

section \<open>Properties\<close>

text \<open>
  C9. Every probe is decided exactly once. \<open>start\<close> may be called at any time; the calls that find
  a probe under way do nothing, each of the others begins a probe. Whatever the order in which
  the timers, the connection, its errors and the functors of the loop then come, the node is told
  of one result for each probe (none when the error is a local shortage) before the next one
  begins, and a probe under way has a timer that will decide it; the result is success exactly when a
  connection was made; and no timer is cancelled after it has run. So the node's state is
  that of \<open>updateStatus\<close> over these results. A timer that a skipped probe left behind may be the one
  that decides the next probe. The histories are those where the connector's own queued functors
  have run when a new probe begins (\<open>paced\<close>).
\<close>

theorem probes_decided_once:
  assumes "paced es (checker_task_new name node)"
  shows "\<exists>s. ct_run es (checker_task_new name node) = Some s \<and> \<not> ct_fault s
    \<and> count_list (ct_journal s) Probe_Begun = probes_begun es (checker_task_new name node)
    \<and> rounds (ct_journal s) (is_probing s) \<and> (is_probing s \<longrightarrow> (\<exists>t. timerId s = Some t \<and> t \<in> set (ct_timers s)))
    \<and> tl_count s = count_list (ct_journal s) (Verdict True)
    \<and> ct_node s = probed (verdicts (ct_journal s)) node"
proof -
  have "begun (checker_task_new name node) = 0"
    by (simp add: checker_task_new_def client_setErrorCallback_def tcp_client.extend_def tcp_client_new_def)
  with ct_run_inv [OF checker_task_new_inv assms] obtain s where
    "ct_run es (checker_task_new name node) = Some s" "ct_inv node s" "begun s = probes_begun es (checker_task_new name node)" by auto
  then show ?thesis by (auto simp: ct_inv_def ct_parts split: if_splits)
qed

text \<open>
  The connection of a successful probe is not released: \<open>forceClose\<close> closes it within its own
  callback, after which \<open>newConnection\<close> stores the closed connection in \<open>conn_\<close>, where it
  stays, with its descriptor, until the next success.
\<close>

theorem probe_connection_kept:
  assumes "paced es (checker_task_new name node)"
    and "ct_run es (checker_task_new name node) = Some s" and "Verdict True \<in> set (ct_journal s)"
  shows "\<exists>c. tl_conn s = Some c \<and> c + 1 = tl_count s \<and> state (tl_conns s c) = kDisconnected"
proof -
  from ct_run_inv [OF checker_task_new_inv assms(1)] assms(2) have i: "ct_inv node s" by auto
  have "0 < count_list (ct_journal s) (Verdict True)" using assms(3) by (metis count_list_0_iff gr0I)
  with i show ?thesis by (auto simp: ct_inv_def ct_parts)
qed

definition sample_node :: server_node where
  "sample_node = server_node_new \<lparr>addr_ip = ''10.0.0.1'', addr_port = 80\<rparr> 1 1 1"

text \<open>
  One probe connects; the next is skipped for want of a local port (EAGAIN) and leaves its timer behind, which
  decides the third, during which \<open>start\<close> is called once more.
\<close>

definition sample_probes :: "ct_event list" where
  "sample_probes = [Probe 5 EINPROGRESS, Connecting (Channel_Writable 0), Connecting (con_event.Run_Task 0 0),
     Destroy_Next, Probe 6 EAGAIN, Connecting (con_event.Run_Task 0 0), Probe 7 EINPROGRESS, Probe 8 EINPROGRESS,
     Timer_Expires 1]"

lemmas ct_eval = checker_task_new_def client_setErrorCallback_def tcp_client.extend_def tcp_client_new_def
  setErrorCallback_def setNewConnectionCallback_def connector_new_def ct_start_def note_probe_def
  client_connect_def client_connector_event_def client_newConnection_def ct_onConnection_def ct_cancel_def
  cancel_timer_def connected_def client_forceClose_def client_handleClose_def client_removeConnection_def
  ct_onConnection_down_def report_def upd_conn_def client_destroy_next_def ct_onTimeout_def client_stop_def
  connector_defs errno_defs loop_event_def sample_node_def server_node_new_def updateStatus_def
  connectEstablished_def handleClose_def connectDestroyed_def notify_def enable_reading_def disable_all_def
  tcp_connection_new_def shutdown_def ct_onError_def EMFILE_def

lemma sample_probes_paced: "paced sample_probes (checker_task_new ''c'' sample_node)"
  by (simp add: sample_probes_def ct_eval)

lemma sample_probes_run:
  "\<exists>s. ct_run sample_probes (checker_task_new ''c'' sample_node) = Some s
    \<and> ct_journal s = [Probe_Begun, Verdict True, Probe_Begun, Probe_Skipped, Probe_Begun, Verdict False]"
  by (simp add: sample_probes_def ct_eval)

theorem probes_decided_once_witness:
  "\<exists>s. ct_run sample_probes (checker_task_new ''c'' sample_node) = Some s
    \<and> rounds (ct_journal s) (is_probing s) \<and> tl_count s = 1 \<and> \<not> is_alive (ct_node s)"
proof -
  from probes_decided_once [OF sample_probes_paced] sample_probes_run obtain s where
    s: "ct_run sample_probes (checker_task_new ''c'' sample_node) = Some s" "rounds (ct_journal s) (is_probing s)"
    "tl_count s = count_list (ct_journal s) (Verdict True)"
    "ct_node s = probed (verdicts (ct_journal s)) sample_node"
    "ct_journal s = [Probe_Begun, Verdict True, Probe_Begun, Probe_Skipped, Probe_Begun, Verdict False]" by auto
  then show ?thesis
    by (simp add: probed_def sample_node_def server_node_new_def updateStatus_def)
qed

theorem probe_connection_kept_witness:
  "\<exists>s. ct_run sample_probes (checker_task_new ''c'' sample_node) = Some s
    \<and> (\<exists>c. tl_conn s = Some c \<and> state (tl_conns s c) = kDisconnected)"
proof -
  from sample_probes_run obtain s where
    s: "ct_run sample_probes (checker_task_new ''c'' sample_node) = Some s" "Verdict True \<in> set (ct_journal s)"
    by (metis list.set_intros(1) list.set_intros(2))
  from probe_connection_kept [OF sample_probes_paced s] s(1) show ?thesis by blast
qed

text \<open>A round of the checker takes three seconds, so a task is started again after its timer of two.\<close>

lemma round_takes_three_seconds: "hc_start h = Some p \<Longrightarrow> p * of_nat (length (hc_tasks h)) = 3"
  by (auto simp: hc_start_def checkInterval_def split: if_splits)

text \<open>The tasks take turns.\<close>

fun hc_ticks :: "(int \<times> int) list \<Rightarrow> health_checker \<Rightarrow> nat list" where
  "hc_ticks [] h = []"
| "hc_ticks (a # as) h = TaskIndex h # hc_ticks as (hc_tick (fst a) (snd a) h)"

lemma tasks_in_turn:
  "hc_tasks h \<noteq> [] \<Longrightarrow> TaskIndex h < length (hc_tasks h) \<Longrightarrow>
     hc_ticks as h = map (\<lambda>i. (TaskIndex h + i) mod length (hc_tasks h)) [0..<length as]"
proof (induction as arbitrary: h)
  case (Cons a as)
  let ?h = "hc_tick (fst a) (snd a) h"
  have l: "length (hc_tasks ?h) = length (hc_tasks h)" "TaskIndex ?h = (TaskIndex h + 1) mod length (hc_tasks h)"
    by (simp_all add: hc_tick_def Let_def)
  have "hc_tasks ?h \<noteq> []" "TaskIndex ?h < length (hc_tasks ?h)" using Cons.prems l by auto
  from Cons.IH [OF this] l Cons.prems have "hc_ticks (a # as) h = TaskIndex h #
      map (\<lambda>i. ((TaskIndex h + 1) mod length (hc_tasks h) + i) mod length (hc_tasks h)) [0..<length as]" by simp
  also have "\<dots> = map (\<lambda>i. (TaskIndex h + i) mod length (hc_tasks h)) [0..<length (a # as)]"
    using Cons.prems(2) by (simp add: upt_conv_Cons mod_simps del: upt_Suc)
      (simp add: map_Suc_upt [symmetric] mod_simps del: upt_Suc map_Suc_upt)
  finally show ?case .
qed simp

end
