(* ===== verification/Inet_Address.thy ===== *)
theory Inet_Address
  imports Server_Node "HOL-Library.Word"
begin

text \<open>
  Addresses: \<open>InetAddress\<close> of \<^verbatim>\<open>src/InetAddress.h\<close> and \<^verbatim>\<open>src/InetAddress.cc\<close>. The structure
  \<open>sockaddr_in\<close> holds the port and the address in network order, as bytes. The other theories
  use an address in its printed form, the record \<open>inet_address\<close>; the lemmas show that this loses
  nothing and that the printed form always fits its buffer.

  The parser \<open>inet_addr\<close> of the C library is a parameter, with its documented behaviour on dotted
  decimals as hypothesis; \<open>inet_ntop\<close> prints four decimals.
\<close>

section \<open>The class\<close>

record sockaddr_in =
  sin_family :: nat
  sin_port :: bytes
  s_addr :: bytes

definition AF_INET :: nat where "AF_INET = 2"
definition INET_ADDRSTRLEN :: nat where "INET_ADDRSTRLEN = 16"

definition htons :: "nat \<Rightarrow> bytes" where
  "htons p = [char_of (p div 256), char_of (p mod 256)]"

definition ntohs :: "bytes \<Rightarrow> nat" where
  "ntohs b = of_char (b ! 0) * 256 + of_char (b ! 1)"

definition inet_ntop :: "bytes \<Rightarrow> bytes" where
  "inet_ntop a = to_string (of_char (a ! 0)) @ ''.'' @ to_string (of_char (a ! 1)) @ ''.''
     @ to_string (of_char (a ! 2)) @ ''.'' @ to_string (of_char (a ! 3))"

definition inetaddress_new :: "(bytes \<Rightarrow> bytes) \<Rightarrow> nat \<Rightarrow> bytes \<Rightarrow> sockaddr_in" where
  "inetaddress_new inet_addr port ip = \<lparr>sin_family = AF_INET, sin_port = htons port, s_addr = inet_addr ip\<rparr>"

definition toIp :: "sockaddr_in \<Rightarrow> bytes" where
  "toIp x = inet_ntop (s_addr x)"

text \<open>\<open>snprintf\<close> writes what fits behind the address in the buffer, and a zero.\<close>

definition toIpPort_buf :: "sockaddr_in \<Rightarrow> bytes" where
  "toIpPort_buf x =
     (let buf = inet_ntop (s_addr x);
          buf_end = length buf;
          port = ntohs (sin_port x)
      in buf @ take (INET_ADDRSTRLEN + 8 - buf_end - 1) ('':'' @ to_string port))"

definition toPort :: "sockaddr_in \<Rightarrow> nat" where
  "toPort x = ntohs (sin_port x)"

section \<open>The printed form\<close>

definition printed :: "sockaddr_in \<Rightarrow> inet_address" where
  "printed x = \<lparr>addr_ip = toIp x, addr_port = toPort x\<rparr>"

text \<open>The documented behaviour of \<open>inet_addr\<close>.\<close>

definition reads_dotted :: "(bytes \<Rightarrow> bytes) \<Rightarrow> bool" where
  "reads_dotted inet_addr \<longleftrightarrow> (\<forall>a. length a = 4 \<longrightarrow> inet_addr (inet_ntop a) = a)"

lemma ntohs_htons: "p < 2 ^ 16 \<Longrightarrow> ntohs (htons p) = p"
  by (simp add: ntohs_def htons_def mod_less)

lemma octet_length: "length (to_string (of_char c)) \<le> 3"
proof (rule length_to_string)
  show "of_char c < (10 ^ 3 :: nat)" using nat_of_char_less_256 [of c] by (rule less_trans) simp
qed simp

lemma inet_ntop_length: "length (inet_ntop a) \<le> 15"
  using octet_length [of "a ! 0"] octet_length [of "a ! 1"] octet_length [of "a ! 2"] octet_length [of "a ! 3"]
  by (simp add: inet_ntop_def)

text \<open>
  An address made from a dotted decimal and a port prints as these two, with a colon, in at most 21
  bytes: the text is never cut, and the record of the other theories is the whole of it.
\<close>

lemma address_printed:
  assumes "reads_dotted inet_addr" and "length a = 4" and "port < 2 ^ 16"
  shows "printed (inetaddress_new inet_addr port (inet_ntop a)) = \<lparr>addr_ip = inet_ntop a, addr_port = port\<rparr>
    \<and> toIpPort_buf (inetaddress_new inet_addr port (inet_ntop a))
        = toIpPort (printed (inetaddress_new inet_addr port (inet_ntop a)))
    \<and> length (toIpPort_buf (inetaddress_new inet_addr port (inet_ntop a))) \<le> 21"
proof -
  let ?x = "inetaddress_new inet_addr port (inet_ntop a)"
  have s: "s_addr ?x = a" "ntohs (sin_port ?x) = port"
    using assms ntohs_htons by (simp_all add: inetaddress_new_def reads_dotted_def)
  have "port < 10 ^ 5" using assms(3) by simp
  then have p: "length (to_string port) \<le> 5" by (rule length_to_string) simp
  with inet_ntop_length [of a] s show ?thesis
    by (simp add: printed_def toIp_def toPort_def toIpPort_buf_def toIpPort_def INET_ADDRSTRLEN_def Let_def)
qed

end
