(* ===== verification/Sockets.thy ===== *)
theory Sockets
  imports Inet_Address Event_Poller
begin

text \<open>
  The wrapper of sockets (\<^verbatim>\<open>src/socket.h\<close>, \<^verbatim>\<open>src/socket.cc\<close>) and the listening socket in the hands of the
  \<open>Acceptor\<close> (\<^verbatim>\<open>src/Acceptor.cc\<close>: constructor, \<open>listen\<close>, destructor; \<open>handleRead\<close> is in \<open>Tcp_Server\<close>), on the
  poller of \<open>Event_Poller\<close>.

  The system calls are recorded in order; their results are arguments. \<open>None\<close> is the end of
  the process, by \<open>LOG_FATAL\<close>.
\<close>

section \<open>Sockets\<close>

datatype sock_option = TCP_NODELAY | SO_REUSEADDR | SO_REUSEPORT | SO_KEEPALIVE

datatype sock_call =
    Sys_Socket
  | Sys_Setsockopt int sock_option bool
  | Sys_Bind int sockaddr_in
  | Sys_Listen int nat
  | Sys_Accept4 int
  | Sys_Connect int sockaddr_in
  | Sys_Shutdown_Write int
  | Sys_Getsockopt_Error int
  | Sys_Close int

record net =
  net_poller :: poller
  sock_calls :: "sock_call list"

definition sys_call :: "sock_call \<Rightarrow> net \<Rightarrow> net" where
  "sys_call c w = w\<lparr>sock_calls := sock_calls w @ [c]\<rparr>"

definition bindAddress :: "int \<Rightarrow> sockaddr_in \<Rightarrow> int \<Rightarrow> net \<Rightarrow> net option" where
  "bindAddress sockfd localaddr res w =
     (let w1 = sys_call (Sys_Bind sockfd localaddr) w in if 0 \<noteq> res then None else Some w1)"

definition socket_listen :: "int \<Rightarrow> int \<Rightarrow> net \<Rightarrow> net option" where
  "socket_listen sockfd res w =
     (let w1 = sys_call (Sys_Listen sockfd 1024) w in if 0 \<noteq> res then None else Some w1)"






definition setReusePort :: "int \<Rightarrow> bool \<Rightarrow> net \<Rightarrow> net" where
  "setReusePort sockfd on w = sys_call (Sys_Setsockopt sockfd SO_REUSEPORT on) w"






text \<open>Every operation makes one call; only a failing \<open>bind\<close> or \<open>listen\<close> ends the process.\<close>

lemma bind_fatal: "bindAddress fd a res w = None \<longleftrightarrow> res \<noteq> 0"
  and listen_fatal: "socket_listen fd res w = None \<longleftrightarrow> res \<noteq> 0"
  by (simp_all add: bindAddress_def socket_listen_def Let_def)

section \<open>The acceptor\<close>

text \<open>\<open>acc_chan\<close>: the number of \<open>acceptChannel_\<close> in the poller.\<close>

record acceptor =
  acc_fd :: int
  acc_chan :: nat
  listenning :: bool

definition createNonblocking :: "int \<Rightarrow> net \<Rightarrow> (int \<times> net) option" where
  "createNonblocking res w =
     (let w1 = sys_call Sys_Socket w in if res < 0 then None else Some (res, w1))"

definition acceptor_new ::
  "int \<Rightarrow> int \<Rightarrow> sockaddr_in \<Rightarrow> bool \<Rightarrow> nat \<Rightarrow> net \<Rightarrow> (acceptor \<times> net) option" where
  "acceptor_new socket_res bind_res ListenAddr reuseport c w =
     (case createNonblocking socket_res w of
        None \<Rightarrow> None
      | Some (fd, w1) \<Rightarrow>
          (let w2 = w1\<lparr>net_poller := (net_poller w1)\<lparr>chans := (chans (net_poller w1))(c := channel_new fd)\<rparr>\<rparr>;
               w3 = setReusePort fd True (setReusePort fd True w2)
           in map_option (\<lambda>w4. (\<lparr>acc_fd = fd, acc_chan = c, listenning = False\<rparr>, w4))
                (bindAddress fd ListenAddr bind_res w3)))"




section \<open>The life of an acceptor\<close>










text \<open>
  The constructor sets \<open>SO_REUSEPORT\<close> twice, whatever its argument \<open>reuseport\<close>, and never \<open>SO_REUSEADDR\<close>: two
  servers can be bound to one address, and a server that is restarted can fail to bind.
\<close>

lemma reuseport_ignored:
  "acceptor_new fd bind_res addr reuseport c w = acceptor_new fd bind_res addr (\<not> reuseport) c w"
  by (simp add: acceptor_new_def)





end
