(* ===== verification/Threads.thy ===== *)
theory Threads
  imports Prelude
begin

text \<open>
  Threads: \<open>CurrentThread\<close> (\<^verbatim>\<open>utils/CurrentThread.cc\<close>), the life of a \<open>Thread\<close> object
  (\<^verbatim>\<open>utils/thread.h\<close>, \<^verbatim>\<open>utils/thread.cc\<close>) against the thread it starts, and the pointer by which a thread
  knows its \<open>EventLoop\<close> (\<^verbatim>\<open>src/EventLoop.cc\<close>).

  A step of the owner or of the started thread is an event; a step that must wait is \<open>Blocks\<close>.
  \<open>Terminates\<close> is a call of \<open>std::terminate\<close>, \<open>Throws\<close> an exception, \<open>Undefined\<close> undefined behaviour.
\<close>

section \<open>The identity of a thread\<close>

text \<open>\<open>gettid\<close>: what the system call gives; the cached value starts at 0.\<close>

definition cacheTid :: "nat \<Rightarrow> nat \<Rightarrow> nat" where
  "cacheTid gettid t_cachedTid = (if t_cachedTid = 0 then gettid else t_cachedTid)"

definition current_tid :: "nat \<Rightarrow> nat \<Rightarrow> nat \<times> nat" where
  "current_tid gettid t_cachedTid =
     (let c = (if t_cachedTid = 0 then cacheTid gettid t_cachedTid else t_cachedTid) in (c, c))"

lemma current_tid_cached:
  "t_cachedTid = 0 \<or> t_cachedTid = gettid \<Longrightarrow> current_tid gettid t_cachedTid = (gettid, gettid)"
  by (auto simp: current_tid_def cacheTid_def)

section \<open>Thread objects\<close>

text \<open>The member \<open>thread_\<close>: null, or a \<open>std::thread\<close> that is joinable or not.\<close>

datatype handle = Null | Joinable | Not_Joinable

text \<open>Where the started thread is: before \<open>sem_post\<close>, before \<open>func_()\<close>, in it, or at its end.\<close>

datatype child = C_None | C_Begin | C_Posted | C_Func | C_Ended

record thread_obj =
  th_started :: bool
  th_joined :: bool
  th_handle :: handle
  th_tid :: nat
  th_name :: bytes
  th_alive :: bool
  th_waiting :: bool
  th_child :: child
  th_runs :: nat

definition setDefaultName :: "bytes \<Rightarrow> nat \<Rightarrow> bytes \<times> nat" where
  "setDefaultName nm numCreated =
     (let num = numCreated + 1 in (if nm = [] then ''Thread-'' @ to_string num else nm, num))"

definition thread_new :: "bytes \<Rightarrow> nat \<Rightarrow> thread_obj \<times> nat" where
  "thread_new nm numCreated =
     (case setDefaultName nm numCreated of (nm1, num) \<Rightarrow>
       (\<lparr>th_started = False, th_joined = False, th_handle = Null, th_tid = 0, th_name = nm1, th_alive = True,
         th_waiting = False, th_child = C_None, th_runs = 0\<rparr>, num))"

datatype 'a outcome = Continues 'a | Blocks | Throws | Terminates | Undefined

text \<open>\<open>start\<close> up to \<open>sem_wait\<close>: assigning \<open>thread_\<close> destroys the \<open>std::thread\<close> it held.\<close>

definition thread_start :: "thread_obj \<Rightarrow> thread_obj outcome" where
  "thread_start s =
     (if th_handle s = Joinable then Terminates
      else Continues (s\<lparr>th_started := True, th_handle := Joinable, th_child := C_Begin, th_waiting := True\<rparr>))"

definition thread_sem_wait :: "thread_obj \<Rightarrow> thread_obj outcome" where
  "thread_sem_wait s = (if th_child s = C_Begin then Blocks else Continues (s\<lparr>th_waiting := False\<rparr>))"

definition thread_join :: "thread_obj \<Rightarrow> thread_obj outcome" where
  "thread_join s =
     (case th_handle s of
        Null \<Rightarrow> Undefined
      | Not_Joinable \<Rightarrow> Throws
      | Joinable \<Rightarrow>
          if th_child s \<noteq> C_Ended then Blocks
          else Continues (s\<lparr>th_joined := True, th_handle := Not_Joinable\<rparr>))"

text \<open>The destructor, and then that of the member \<open>thread_\<close>.\<close>

definition thread_destroy :: "thread_obj \<Rightarrow> thread_obj outcome" where
  "thread_destroy s =
     (let s1 = (if th_started s \<and> \<not> th_joined s then s\<lparr>th_handle := Not_Joinable\<rparr> else s)
      in if th_handle s1 = Joinable then Terminates else Continues (s1\<lparr>th_alive := False\<rparr>))"

text \<open>The lambda: it uses the members \<open>tid_\<close> and \<open>func_\<close>.\<close>

definition thread_child :: "nat \<Rightarrow> thread_obj \<Rightarrow> thread_obj outcome" where
  "thread_child tid s =
     (case th_child s of
        C_Begin \<Rightarrow> if th_alive s then Continues (s\<lparr>th_tid := tid, th_child := C_Posted\<rparr>) else Undefined
      | C_Posted \<Rightarrow> if th_alive s then Continues (s\<lparr>th_child := C_Func, th_runs := th_runs s + 1\<rparr>) else Undefined
      | C_Func \<Rightarrow> Continues (s\<lparr>th_child := C_Ended\<rparr>)
      | _ \<Rightarrow> Blocks)"

datatype thread_event = Th_Start | Th_Sem_Wait | Th_Join | Th_Destroy | Th_Child nat

text \<open>While the owner waits for the semaphore it does nothing else, and it uses only a live object.\<close>

fun thread_step :: "thread_event \<Rightarrow> thread_obj \<Rightarrow> thread_obj outcome" where
  "thread_step Th_Start s = (if \<not> th_alive s then Undefined else if th_waiting s then Blocks else thread_start s)"
| "thread_step Th_Sem_Wait s = (if th_waiting s then thread_sem_wait s else Blocks)"
| "thread_step Th_Join s = (if \<not> th_alive s then Undefined else if th_waiting s then Blocks else thread_join s)"
| "thread_step Th_Destroy s = (if \<not> th_alive s then Undefined else if th_waiting s then Blocks else thread_destroy s)"
| "thread_step (Th_Child tid) s = thread_child tid s"

fun thread_run :: "thread_event list \<Rightarrow> thread_obj \<Rightarrow> thread_obj outcome" where
  "thread_run [] s = Continues s"
| "thread_run (e # es) s = (case thread_step e s of Continues s1 \<Rightarrow> thread_run es s1 | Blocks \<Rightarrow> Blocks
     | Throws \<Rightarrow> Throws | Terminates \<Rightarrow> Terminates | Undefined \<Rightarrow> Undefined)"

lemmas thread_defs = thread_start_def thread_sem_wait_def thread_join_def thread_destroy_def
  thread_child_def thread_new_def setDefaultName_def

section \<open>Using a thread object\<close>

definition owner_events :: "thread_event list \<Rightarrow> thread_event list" where
  "owner_events es = filter (\<lambda>e. \<forall>tid. e \<noteq> Th_Child tid) es"

text \<open>The states of an object that is started, joined and destroyed, by what the owner has still to do.\<close>

definition life_inv :: "thread_event list \<Rightarrow> thread_obj \<Rightarrow> bool" where
  "life_inv todo s \<longleftrightarrow>
     (todo = [Th_Start, Th_Sem_Wait, Th_Join, Th_Destroy] \<and> th_alive s \<and> \<not> th_waiting s \<and> th_handle s = Null
        \<and> \<not> th_started s \<and> th_child s = C_None \<and> th_runs s = 0
      \<or> todo = [Th_Sem_Wait, Th_Join, Th_Destroy] \<and> th_alive s \<and> th_waiting s \<and> th_handle s = Joinable \<and> th_child s \<noteq> C_None
        \<and> th_runs s = (if th_child s \<in> {C_Func, C_Ended} then 1 else 0)
      \<or> todo = [Th_Join, Th_Destroy] \<and> th_alive s \<and> \<not> th_waiting s \<and> th_handle s = Joinable
        \<and> th_child s \<in> {C_Posted, C_Func, C_Ended} \<and> th_runs s = (if th_child s \<in> {C_Func, C_Ended} then 1 else 0)
      \<or> todo = [Th_Destroy] \<and> th_alive s \<and> \<not> th_waiting s \<and> th_handle s = Not_Joinable \<and> th_joined s \<and> th_child s = C_Ended
        \<and> th_runs s = 1
      \<or> todo = [] \<and> \<not> th_alive s \<and> th_child s = C_Ended \<and> th_runs s = 1)"

definition goes_on :: "thread_event list \<Rightarrow> thread_obj outcome \<Rightarrow> bool" where
  "goes_on todo r \<longleftrightarrow> (case r of Continues s \<Rightarrow> life_inv todo s | Blocks \<Rightarrow> True | _ \<Rightarrow> False)"

lemma life_owner_step: "life_inv (e # todo) s \<Longrightarrow> goes_on todo (thread_step e s)"
  by (cases "th_child s") (auto simp: goes_on_def life_inv_def thread_defs Let_def)

lemma life_child_step: "life_inv todo s \<Longrightarrow> goes_on todo (thread_step (Th_Child tid) s)"
  by (cases "th_child s") (auto simp: goes_on_def life_inv_def thread_child_def)

lemma life_run: "life_inv (owner_events es @ todo) s \<Longrightarrow> goes_on todo (thread_run es s)"
proof (induction es arbitrary: s)
  case (Cons e es)
  have "goes_on (owner_events es @ todo) (thread_step e s)"
  proof (cases "\<exists>tid. e = Th_Child tid")
    case True
    then obtain tid where e: "e = Th_Child tid" by blast
    with Cons.prems have "life_inv (owner_events es @ todo) s" by (simp add: owner_events_def)
    then show ?thesis unfolding e by (rule life_child_step)
  next
    case False
    with Cons.prems life_owner_step [of e "owner_events es @ todo" s] show ?thesis by (auto simp: owner_events_def)
  qed
  with Cons.IH show ?case by (cases "thread_step e s") (simp_all add: goes_on_def)
qed (simp add: owner_events_def goes_on_def)

text \<open>
  An object that is started, joined and destroyed is safe however the two threads interleave: no step is
  undefined, throws or terminates the program, and its function has run once before the object is destroyed.
\<close>

theorem joined_thread_safe:
  assumes "owner_events es = [Th_Start, Th_Sem_Wait, Th_Join, Th_Destroy]"
  shows "thread_run es (fst (thread_new nm n)) = Blocks
    \<or> (\<exists>s. thread_run es (fst (thread_new nm n)) = Continues s \<and> th_runs s = 1 \<and> th_child s = C_Ended)"
proof -
  have "life_inv (owner_events es @ []) (fst (thread_new nm n))"
    using assms by (simp add: life_inv_def thread_new_def split: prod.split)
  from life_run [OF this] show ?thesis
    by (cases "thread_run es (fst (thread_new nm n))") (simp_all add: goes_on_def life_inv_def)
qed

theorem joined_thread_safe_witness:
  "\<exists>s. thread_run [Th_Start, Th_Child 7, Th_Child 7, Th_Sem_Wait, Th_Child 7, Th_Join, Th_Destroy]
      (fst (thread_new ''io'' 0)) = Continues s \<and> th_runs s = 1 \<and> th_child s = C_Ended"
proof -
  let ?es = "[Th_Start, Th_Child 7, Th_Child 7, Th_Sem_Wait, Th_Child 7, Th_Join, Th_Destroy]"
  have "owner_events ?es = [Th_Start, Th_Sem_Wait, Th_Join, Th_Destroy]" by (simp add: owner_events_def)
  from joined_thread_safe [OF this, of "''io''" 0]
  show ?thesis by (simp add: thread_defs)
qed

text \<open>
  Without \<open>join\<close> it is not: the destructor detaches the thread, which then calls \<open>func_\<close> of an
  object that is gone, although \<open>start\<close> has returned.
\<close>

lemma detached_thread_undefined:
  "thread_run [Th_Start, Th_Child tid, Th_Sem_Wait, Th_Destroy, Th_Child tid] (fst (thread_new nm n)) = Undefined"
  by (simp add: thread_defs)

text \<open>The other sequences that do not work.\<close>

lemma thread_misuse:
  "thread_run [Th_Join] (fst (thread_new nm n)) = Undefined"
  "thread_run [Th_Start, Th_Child t, Th_Sem_Wait, Th_Start] (fst (thread_new nm n)) = Terminates"
  "thread_run [Th_Start, Th_Child t, Th_Child t, Th_Sem_Wait, Th_Child t, Th_Join, Th_Join]
     (fst (thread_new nm n)) = Throws"
  "thread_run [Th_Start, Th_Child t, Th_Child t, Th_Sem_Wait, Th_Child t, Th_Join, Th_Start, Th_Child t, Th_Sem_Wait,
     Th_Destroy] (fst (thread_new nm n)) = Terminates"
  by (simp_all add: thread_defs)

lemma thread_names: "nm \<noteq> [] \<Longrightarrow> th_name (fst (thread_new nm n)) = nm"
  "th_name (fst (thread_new [] n)) = ''Thread-'' @ to_string (n + 1)"
  by (simp_all add: thread_defs)

section \<open>One loop per thread\<close>

text \<open>
  \<open>t_loopInThisThread\<close> of every thread: the constructor of a second loop ends the process; the destructor
  clears the pointer of the thread in which it runs.
\<close>

type_synonym thread_loops = "nat \<Rightarrow> nat option"

definition loop_register :: "nat \<Rightarrow> nat \<Rightarrow> thread_loops \<Rightarrow> thread_loops option" where
  "loop_register t this m = (case m t of Some l \<Rightarrow> None | None \<Rightarrow> Some (m(t \<mapsto> this)))"

definition loop_unregister :: "nat \<Rightarrow> thread_loops \<Rightarrow> thread_loops" where
  "loop_unregister t m = m(t := None)"

datatype loop_life = Loop_New nat nat | Loop_Delete nat nat

fun loops_run :: "loop_life list \<Rightarrow> thread_loops \<Rightarrow> thread_loops option" where
  "loops_run [] m = Some m"
| "loops_run (Loop_New t l # es) m = (case loop_register t l m of None \<Rightarrow> None | Some m1 \<Rightarrow> loops_run es m1)"
| "loops_run (Loop_Delete t l # es) m = loops_run es (loop_unregister t m)"

text \<open>The loops that exist, each with the thread that made it.\<close>

fun live_loops :: "loop_life list \<Rightarrow> (nat \<times> nat) set \<Rightarrow> (nat \<times> nat) set" where
  "live_loops [] L = L"
| "live_loops (Loop_New t l # es) L = live_loops es (insert (t, l) L)"
| "live_loops (Loop_Delete t l # es) L = live_loops es {x \<in> L. snd x \<noteq> l}"

text \<open>Loops are new objects, and are destroyed in their own thread.\<close>

fun own_thread :: "loop_life list \<Rightarrow> (nat \<times> nat) set \<Rightarrow> bool" where
  "own_thread [] L \<longleftrightarrow> True"
| "own_thread (Loop_New t l # es) L \<longleftrightarrow> (\<forall>u. (u, l) \<notin> L) \<and> own_thread es (insert (t, l) L)"
| "own_thread (Loop_Delete t l # es) L \<longleftrightarrow> (t, l) \<in> L \<and> own_thread es {x \<in> L. snd x \<noteq> l}"

lemma one_loop_per_thread:
  "loops_run es m = Some m' \<Longrightarrow> own_thread es L \<Longrightarrow> (\<forall>t l. m t = Some l \<longleftrightarrow> (t, l) \<in> L) \<Longrightarrow>
     inj_on snd L \<Longrightarrow>
   (\<forall>t l. m' t = Some l \<longleftrightarrow> (t, l) \<in> live_loops es L)"
proof (induction es arbitrary: m L)
  case (Cons e es)
  show ?case
  proof (cases e)
    case (Loop_New t l)
    from Cons.prems(1) Loop_New have t: "m t = None" "loops_run es (m(t \<mapsto> l)) = Some m'"
      by (auto simp: loop_register_def split: option.splits)
    have n: "(t, k) \<notin> L" for k using Cons.prems(3) t(1) by (metis option.distinct(1))
    have "\<forall>u k. (m(t \<mapsto> l)) u = Some k \<longleftrightarrow> (u, k) \<in> insert (t, l) L"
      using Cons.prems(3) n by auto
    moreover have "inj_on snd (insert (t, l) L)"
      using Cons.prems(2,4) Loop_New unfolding inj_on_def by (auto split: prod.splits)
    ultimately show ?thesis using Cons.IH [OF t(2)] Cons.prems(2) Loop_New by simp
  next
    case (Loop_Delete t l)
    then have d: "(t, l) \<in> L" "own_thread es {x \<in> L. snd x \<noteq> l}" "loops_run es (m(t := None)) = Some m'"
      using Cons.prems(1,2) by (simp_all add: loop_unregister_def)
    have "(u, k) \<in> L \<Longrightarrow> u = t \<longleftrightarrow> k = l" for u k
    proof -
      assume k: "(u, k) \<in> L"
      have "k = l" if "u = t" using Cons.prems(3) k d(1) that by (metis option.inject)
      moreover have "u = t" if "k = l" using inj_onD [OF Cons.prems(4), of "(u, k)" "(t, l)"] k d(1) that by simp
      ultimately show ?thesis by blast
    qed
    then have "\<forall>u k. (m(t := None)) u = Some k \<longleftrightarrow> (u, k) \<in> {x \<in> L. snd x \<noteq> l}"
      using Cons.prems(3) by auto
    moreover have "inj_on snd {x \<in> L. snd x \<noteq> l}" using Cons.prems(4) by (rule inj_on_subset) auto
    ultimately show ?thesis using Cons.IH [OF d(3,2)] Loop_Delete by simp
  qed
qed simp

text \<open>A loop destroyed in another thread leaves its thread without the right to a new one.\<close>

lemma loop_deleted_elsewhere:
  "t \<noteq> u \<Longrightarrow> loops_run [Loop_New t l, Loop_Delete u l, Loop_New t k] Map.empty = None"
  by (simp add: loop_register_def loop_unregister_def)

end
