(* ===== verification/Logging.thy ===== *)
theory Logging
  imports Prelude
begin

text \<open>
  The log (\<^verbatim>\<open>utils/logger.h\<close>, \<^verbatim>\<open>utils/logger.cc\<close>) and its time stamps (\<^verbatim>\<open>utils/Timestamp.cc\<close>). All
  threads share one \<open>Logger\<close>, whose level they set before each message, and the stream
  \<open>std::cout\<close>, to which each \<^verbatim>\<open><<\<close> writes a piece. A thread is the list of what it has still to do, and a
  schedule the list of the threads that take the next step.

  The text of a message is what \<open>snprintf\<close> makes of the format; the calendar is the parameter
  \<open>localtime\<close>.
\<close>

section \<open>Time stamps\<close>

text \<open>\<open>clock_gettime(CLOCK_MONOTONIC)\<close> gives seconds and nanoseconds; the value is an \<open>int64_t\<close>.\<close>

definition timestamp_now :: "int \<Rightarrow> int \<Rightarrow> int" where
  "timestamp_now tv_sec tv_nsec = tv_sec * 1000000 + tv_nsec div 1000"

definition timestamp_less :: "int \<Rightarrow> int \<Rightarrow> bool" where
  "timestamp_less a b \<longleftrightarrow> a < b"

record tm =
  tm_year :: int
  tm_mon :: int
  tm_mday :: int
  tm_hour :: int
  tm_min :: int
  tm_sec :: int

text \<open>The conversion \<open>%0wd\<close>, and division as in C.\<close>

definition zero_padded :: "nat \<Rightarrow> int \<Rightarrow> bytes" where
  "zero_padded w x =
     (let d = to_string (nat \<bar>x\<bar>)
      in if x < 0 then ''-'' @ replicate (w - 1 - length d) CHR ''0'' @ d
         else replicate (w - length d) CHR ''0'' @ d)"

definition c_div :: "int \<Rightarrow> int \<Rightarrow> int" where
  "c_div x y = (if x < 0 then - (- x div y) else x div y)"

definition timestamp_toString :: "(int \<Rightarrow> tm) \<Rightarrow> int \<Rightarrow> bytes" where
  "timestamp_toString localtime microseconds =
     (let tm_info = localtime (c_div microseconds 1000000)
      in take 127 (zero_padded 4 (tm_year tm_info + 1900) @ ''-'' @ zero_padded 2 (tm_mon tm_info + 1) @ ''-''
        @ zero_padded 2 (tm_mday tm_info) @ '' '' @ zero_padded 2 (tm_hour tm_info) @ '':''
        @ zero_padded 2 (tm_min tm_info) @ '':'' @ zero_padded 2 (tm_sec tm_info)))"

lemma timestamp_fits:
  assumes "0 \<le> tv_sec" "tv_sec < 2 ^ 43" "0 \<le> tv_nsec" "tv_nsec < 10 ^ 9"
  shows "0 \<le> timestamp_now tv_sec tv_nsec \<and> timestamp_now tv_sec tv_nsec < 2 ^ 63"
  using assms by (auto simp: timestamp_now_def)

text \<open>Readings in order give stamps in order, and readings a microsecond apart give different stamps.\<close>

lemma timestamp_order:
  assumes "s1 * 10 ^ 9 + n1 \<le> s2 * 10 ^ 9 + n2" "0 \<le> n1" "n1 < 10 ^ 9" "0 \<le> n2" "n2 < 10 ^ 9"
  shows "\<not> timestamp_less (timestamp_now s2 n2) (timestamp_now s1 n1)"
    and "s1 * 10 ^ 9 + n1 + 1000 \<le> s2 * 10 ^ 9 + n2 \<Longrightarrow>
      timestamp_less (timestamp_now s1 n1) (timestamp_now s2 n2)"
  using assms by (simp_all add: timestamp_less_def timestamp_now_def)

lemma length_zero_padded: "0 \<le> x \<Longrightarrow> x < 10 ^ w \<Longrightarrow> 0 < w \<Longrightarrow> length (zero_padded w x) = w"
proof -
  assume a: "0 \<le> x" "x < 10 ^ w" "0 < w"
  then have "nat x < 10 ^ w" by (simp add: nat_less_iff)
  from length_to_string [OF this a(3)] a(1) show ?thesis by (simp add: zero_padded_def Let_def)
qed

text \<open>A time stamp of the years 0 to 9999 takes 19 characters: the buffer does not cut it.\<close>

definition calendar :: "tm \<Rightarrow> bool" where
  "calendar t \<longleftrightarrow> 0 \<le> tm_year t + 1900 \<and> tm_year t + 1900 < 10000 \<and> 0 \<le> tm_mon t \<and> tm_mon t < 12
     \<and> 1 \<le> tm_mday t \<and> tm_mday t \<le> 31 \<and> 0 \<le> tm_hour t \<and> tm_hour t < 24 \<and> 0 \<le> tm_min t \<and> tm_min t < 60
     \<and> 0 \<le> tm_sec t \<and> tm_sec t \<le> 60"

lemma length_timestamp_toString:
  assumes "calendar (localtime (c_div t 1000000))"
  shows "length (timestamp_toString localtime t) = 19"
proof -
  let ?t = "localtime (c_div t 1000000)"
  have "length (zero_padded 4 (tm_year ?t + 1900)) = 4" "length (zero_padded 2 (tm_mon ?t + 1)) = 2"
    "length (zero_padded 2 (tm_mday ?t)) = 2" "length (zero_padded 2 (tm_hour ?t)) = 2"
    "length (zero_padded 2 (tm_min ?t)) = 2" "length (zero_padded 2 (tm_sec ?t)) = 2"
    by (rule length_zero_padded; use assms in \<open>simp add: calendar_def\<close>)+
  then show ?thesis by (simp add: timestamp_toString_def Let_def)
qed

section \<open>The logger\<close>

datatype log_severity = DEBUG | INFO | WARN | ERROR | FATAL

fun severity_num :: "log_severity \<Rightarrow> int" where
  "severity_num DEBUG = 0"
| "severity_num INFO = 1"
| "severity_num WARN = 2"
| "severity_num ERROR = 3"
| "severity_num FATAL = 4"

text \<open>What the branches of \<open>switch(log_level)\<close> print first.\<close>

definition level_label :: "int \<Rightarrow> bytes" where
  "level_label n =
     (if n = 0 then ''[DEBUG]: '' else if n = 1 then ''[INFO]: '' else if n = 4 then ''[FATAL]: ''
      else if n = 3 then ''[ERROR]: '' else if n = 2 then ''[WARN]: '' else ''[UNKNOWN LEVEL]: '')"

definition newline :: bytes where "newline = [CHR 0x0A]"

text \<open>The pieces that \<open>log\<close> writes when it finds the level \<open>n\<close>; \<open>stamp\<close> is the time of the second line.\<close>

definition log_pieces :: "int \<Rightarrow> bytes \<Rightarrow> bytes \<Rightarrow> bytes list" where
  "log_pieces n stamp msg = [level_label n, msg, newline, stamp, '':'', msg, newline]"

datatype log_action = Set_Level int | Call_Log bytes bytes | Put bytes | Exit_Process

text \<open>The macros: \<open>LOG_FATAL\<close> ends the process, \<open>LOG_DEBUG\<close> is empty unless \<open>MUDEBUG\<close> is defined.\<close>

definition log_macro :: "bool \<Rightarrow> log_severity \<Rightarrow> bytes \<Rightarrow> bytes \<Rightarrow> log_action list" where
  "log_macro mudebug sev stamp msg =
     (if sev = DEBUG \<and> \<not> mudebug then []
      else [Set_Level (severity_num sev), Call_Log stamp (take 1023 msg)]
        @ (if sev = FATAL then [Exit_Process] else []))"

record logger =
  log_level :: int
  log_out :: "(nat \<times> bytes) list"
  log_threads :: "nat \<Rightarrow> log_action list"
  log_exited :: bool

text \<open>The member \<open>log_level\<close> is not initialised.\<close>

definition logger_new :: "int \<Rightarrow> (nat \<Rightarrow> log_action list) \<Rightarrow> logger" where
  "logger_new junk threads = \<lparr>log_level = junk, log_out = [], log_threads = threads, log_exited = False\<rparr>"

definition log_step :: "nat \<Rightarrow> logger \<Rightarrow> logger" where
  "log_step i s =
     (if log_exited s then s
      else case log_threads s i of
        [] \<Rightarrow> s
      | Set_Level n # as \<Rightarrow> s\<lparr>log_level := n, log_threads := (log_threads s)(i := as)\<rparr>
      | Call_Log stamp msg # as \<Rightarrow>
          s\<lparr>log_threads := (log_threads s)(i := map Put (log_pieces (log_level s) stamp msg) @ as)\<rparr>
      | Put p # as \<Rightarrow> s\<lparr>log_out := log_out s @ [(i, p)], log_threads := (log_threads s)(i := as)\<rparr>
      | Exit_Process # as \<Rightarrow> s\<lparr>log_exited := True\<rparr>)"

definition log_run :: "nat list \<Rightarrow> logger \<Rightarrow> logger" where
  "log_run is s = fold log_step is s"

lemma log_run_simps [simp]:
  "log_run [] s = s" "log_run (i # is) s = log_run is (log_step i s)"
  "log_run (is @ js) s = log_run js (log_run is s)"
  by (simp_all add: log_run_def)

definition log_text :: "logger \<Rightarrow> bytes" where
  "log_text s = concat (map snd (log_out s))"

section \<open>One thread\<close>

lemma puts_run:
  "log_threads s i = map Put ps @ as \<Longrightarrow> \<not> log_exited s \<Longrightarrow>
     log_run (replicate (length ps) i) s
       = s\<lparr>log_out := log_out s @ map (Pair i) ps, log_threads := (log_threads s)(i := as)\<rparr>"
proof (induction ps arbitrary: s)
  case (Cons p ps)
  let ?s = "s\<lparr>log_out := log_out s @ [(i, p)], log_threads := (log_threads s)(i := map Put ps @ as)\<rparr>"
  have "log_step i s = ?s" using Cons.prems by (simp add: log_step_def)
  moreover have "log_run (replicate (length ps) i) ?s
      = ?s\<lparr>log_out := log_out ?s @ map (Pair i) ps, log_threads := (log_threads ?s)(i := as)\<rparr>"
    using Cons.prems by (intro Cons.IH) simp_all
  ultimately show ?case by (simp add: fun_upd_def if_distrib cong: if_cong)
qed (simp add: fun_upd_idem)

lemma call_run:
  assumes "log_threads s i = Call_Log stamp msg # as" "\<not> log_exited s"
  shows "log_run (replicate 8 i) s = s\<lparr>log_out := log_out s @ map (Pair i) (log_pieces (log_level s) stamp msg),
    log_threads := (log_threads s)(i := as)\<rparr>"
proof -
  let ?ps = "log_pieces (log_level s) stamp msg"
  let ?s = "s\<lparr>log_threads := (log_threads s)(i := map Put ?ps @ as)\<rparr>"
  have "log_step i s = ?s" using assms by (simp add: log_step_def)
  moreover have "replicate 8 i = i # replicate (length ?ps) i" by (simp add: log_pieces_def numeral_eq_Suc)
  ultimately show ?thesis using puts_run [of ?s i ?ps as] assms(2) by simp
qed

text \<open>
  A thread that is not disturbed prints its message twice: after the name of its level, and after the
  time. A message is cut after 1023 bytes, and \<open>LOG_FATAL\<close> ends the process after it.
\<close>

lemma log_alone:
  assumes "log_threads s i = log_macro mudebug sev stamp msg @ as" and "sev \<noteq> DEBUG \<or> mudebug"
    and "\<not> log_exited s"
  shows "log_text (log_run (replicate 9 i) s)
      = log_text s @ level_label (severity_num sev) @ take 1023 msg @ newline @ stamp @ '':'' @ take 1023 msg @ newline"
    and "sev = FATAL \<Longrightarrow> log_exited (log_run (replicate 10 i) s)"
    and "sev \<noteq> FATAL \<Longrightarrow> log_threads (log_run (replicate 9 i) s) i = as"
proof -
  let ?fin = "(if sev = FATAL then [Exit_Process] else []) @ as"
  let ?s = "s\<lparr>log_level := severity_num sev,
    log_threads := (log_threads s)(i := Call_Log stamp (take 1023 msg) # ?fin)\<rparr>"
  have "log_step i s = ?s" using assms by (auto simp: log_step_def log_macro_def)
  then have r: "log_run (replicate 9 i) s = ?s\<lparr>log_out := log_out ?s
      @ map (Pair i) (log_pieces (log_level ?s) stamp (take 1023 msg)), log_threads := (log_threads ?s)(i := ?fin)\<rparr>"
    using call_run [of ?s i stamp "take 1023 msg" ?fin] assms(3)
    by (simp add: numeral_eq_Suc)
  have ten: "replicate 10 i = replicate 9 i @ [i]" by (simp add: replicate_append_same flip: replicate_Suc)
  show "log_text (log_run (replicate 9 i) s)
      = log_text s @ level_label (severity_num sev) @ take 1023 msg @ newline @ stamp @ '':'' @ take 1023 msg @ newline"
    by (simp add: r log_text_def log_pieces_def)
  show "sev \<noteq> FATAL \<Longrightarrow> log_threads (log_run (replicate 9 i) s) i = as" by (simp add: r)
  show "sev = FATAL \<Longrightarrow> log_exited (log_run (replicate 10 i) s)"
    unfolding ten using assms(3) by (simp add: r log_step_def)
qed

section \<open>Many threads\<close>

text \<open>
  The pieces a thread can print, whatever level it finds: \<open>says as ps\<close>.
\<close>

inductive says :: "log_action list \<Rightarrow> bytes list \<Rightarrow> bool" where
  says_nil: "says [] []"
| says_level: "says as ps \<Longrightarrow> says (Set_Level n # as) ps"
| says_put: "says as ps \<Longrightarrow> says (Put p # as) (p # ps)"
| says_call: "says as ps \<Longrightarrow> says (Call_Log stamp msg # as) (log_pieces n stamp msg @ ps)"
| says_exit: "says as ps \<Longrightarrow> says (Exit_Process # as) ps"

definition printed_by :: "nat \<Rightarrow> logger \<Rightarrow> bytes list" where
  "printed_by i s = map snd (filter (\<lambda>x. fst x = i) (log_out s))"

lemma says_puts: "says (map Put qs @ as) ps \<longleftrightarrow> (\<exists>rs. ps = qs @ rs \<and> says as rs)"
proof (induction qs arbitrary: ps)
  case (Cons q qs)
  have "says (Put q # map Put qs @ as) ps \<longleftrightarrow> (\<exists>rs. ps = q # rs \<and> says (map Put qs @ as) rs)"
    by (auto elim: says.cases intro: says_put)
  with Cons.IH show ?case by auto
qed simp

lemma says_step:
  assumes "says (log_threads (log_step j s) i) ps"
  shows "\<exists>new. printed_by i (log_step j s) = printed_by i s @ new \<and> says (log_threads s i) (new @ ps)"
proof (cases "log_exited s \<or> log_threads s j = []")
  case True
  with assms show ?thesis by (auto simp: log_step_def)
next
  case False
  then obtain a as where a: "log_threads s j = a # as" by (cases "log_threads s j") auto
  show ?thesis
  proof (cases "j = i")
    case True
    with assms a False show ?thesis
      by (cases a) (auto simp: log_step_def printed_by_def says_puts intro: says.intros)
  next
    case False
    with assms a \<open>\<not> (log_exited s \<or> log_threads s j = [])\<close> show ?thesis
      by (cases a) (auto simp: log_step_def printed_by_def)
  qed
qed

text \<open>
  However the threads interleave, each prints all it has to print, in order and unaltered; only the name of
  the level can be wrong.
\<close>

lemma log_run_says:
  "says (log_threads (log_run is s) i) ps \<Longrightarrow>
     \<exists>new. printed_by i (log_run is s) = printed_by i s @ new \<and> says (log_threads s i) (new @ ps)"
proof (induction "is" arbitrary: s)
  case (Cons j js)
  from Cons.IH [of "log_step j s"] Cons.prems obtain new
    where n: "printed_by i (log_run js (log_step j s)) = printed_by i (log_step j s) @ new"
      "says (log_threads (log_step j s) i) (new @ ps)" by auto
  from says_step [OF n(2)] n(1) show ?case by auto
qed simp

lemma log_complete:
  assumes "log_threads (log_run is (logger_new junk threads)) i = []"
  shows "says (threads i) (printed_by i (log_run is (logger_new junk threads)))"
  using log_run_says [of "is" "logger_new junk threads" i "[]"] assms says_nil
  by (auto simp: logger_new_def printed_by_def)

text \<open>
  It is wrong when another thread sets its own level between the two calls: an information is
  printed as an error.
\<close>

lemma label_of_another_thread:
  assumes "i \<noteq> j" and "threads i = log_macro False INFO stamp msg @ as" and "threads j = log_macro False ERROR stamp' msg' @ as'"
  shows "hd (printed_by i (log_run ([i, j] @ replicate 8 i) (logger_new junk threads))) = ''[ERROR]: ''"
proof -
  let ?s = "log_run [i, j] (logger_new junk threads)"
  have "log_threads ?s i = Call_Log stamp (take 1023 msg) # as" "log_level ?s = 3" "\<not> log_exited ?s" "log_out ?s = []"
    using assms by (simp_all add: log_step_def logger_new_def log_macro_def)
  from call_run [OF this(1,3)] this(2,4) show ?thesis
    by (simp add: printed_by_def log_pieces_def level_label_def del: log_run_simps(2))
      (simp add: level_label_def)
qed

end
