(* ===== verification/Echo_Server.thy ===== *)
theory Echo_Server
  imports Service
begin

text \<open>
  The echo server of \<^verbatim>\<open>echo_example/testserver.cc\<close>: what arrives is sent back, and a timer every ten seconds
  shuts a connection down on which nothing has arrived for more than ten seconds. The timer runs in
  the base loop, the connection in a thread of its own.
\<close>

section \<open>The server\<close>

text \<open>\<open>retrieveAllAsString\<close> and \<open>send\<close>.\<close>

definition echo_onMessage :: "unit message_callback" where
  "echo_onMessage st b = (let msg = readable b; b1 = retrieveAll b in ([Answer msg], st, b1))"

definition idle :: "int \<Rightarrow> tcp_connection \<Rightarrow> bool" where
  "idle now conn \<longleftrightarrow> 10 * 1000 * 1000 < now - lastReceiveTime conn"

definition kickIdleConnection :: "int \<Rightarrow> tcp_connection \<Rightarrow> tcp_connection" where
  "kickIdleConnection now conn = (if idle now conn then shutdown False conn else conn)"

definition echo_run :: "int \<Rightarrow> service_event list \<Rightarrow> tcp_connection" where
  "echo_run now es = sv_conn (service_run echo_onMessage idle es (service_new now ()))"

definition echo_history :: "int \<Rightarrow> service_event list \<Rightarrow> bool" where
  "echo_history now es \<longleftrightarrow> service_history echo_onMessage idle es (service_new now ())"

lemma elapses_kicks:
  "sv_conn (service_step echo_onMessage idle (Elapses now) h) = kickIdleConnection now (sv_conn h)"
  by (simp add: kickIdleConnection_def)

section \<open>It reads a stream\<close>

interpretation echo: stream_service echo_onMessage "\<lambda>st s. ((s, False), st, [])"
  by unfold_locales (auto simp: echo_onMessage_def Let_def inv_intro content_simp then_out_def)

section \<open>Idle connections\<close>

text \<open>What the server must echo, and whether it gives the client up: \<open>since\<close> is the time of the last bytes.\<close>

fun echo_spec :: "int \<Rightarrow> service_event list \<Rightarrow> bytes \<times> bool" where
  "echo_spec since [] = ([], False)"
| "echo_spec since (Arrives now s rs # es) = (case echo_spec now es of (out, kicked) \<Rightarrow> (s @ out, kicked))"
| "echo_spec since (Elapses now # es) = (if 10000000 < now - since then ([], True) else echo_spec since es)"
| "echo_spec since (_ # es) = echo_spec since es"

lemma time_frame [simp]:
  "lastReceiveTime (sendInLoop d r k) = lastReceiveTime k" "lastReceiveTime (send in_loop d r k) = lastReceiveTime k"
  "lastReceiveTime (shutdown in_loop k) = lastReceiveTime k" "lastReceiveTime (handleWrite r k) = lastReceiveTime k"
  "lastReceiveTime (run_task r k) = lastReceiveTime k"
  by (simp_all add: sendInLoop_def send_def shutdown_def shutdownInLoop_def handleWrite_def run_task_def
      forceCloseInLoop_def handleClose_def conn_fields Let_def
      split: write_result.split list.split conn_task.split)

lemma perform_time [simp]: "lastReceiveTime (perform rs as k) = lastReceiveTime k"
  by (induction rs as k rule: perform.induct) simp_all

lemma heard_spec: "heard echo_onMessage idle es h = echo_spec (lastReceiveTime (sv_conn h)) es"
proof (induction es arbitrary: h)
  case (Cons e es)
  then show ?case
    by (cases e) (simp_all add: service_message_def arrive_def idle_def split: prod.split)
qed simp

section \<open>Properties\<close>

text \<open>C12. The echo server sends back every byte that arrives until it gives the client up, in order and
  once, however the bytes are cut and whatever the kernel takes of each write; the connection stays open
  until the timer finds that more than ten seconds have passed since the last bytes (or since the start),
  and is then shut down: FIN follows the last echoed byte.\<close>

theorem echoes:
  assumes "echo_history now es" and "k = echo_run now es" and "echo_spec now es = (out, kicked)"
  shows "wire k @ readable (outputBuffer k) = out
    \<and> state k = (if kicked then kDisconnecting else kConnected)
    \<and> (tasks k = [] \<longrightarrow> (fin_sent k \<longleftrightarrow> kicked \<and> wire k = out))
    \<and> readable (inputBuffer k) = []"
proof -
  have "heard echo_onMessage idle es (service_new now ()) = (out, kicked)"
    using assms(3)
    by (simp add: heard_spec service_new_def connectEstablished_def notify_def enable_reading_def tcp_connection_new_def)
  note r = echo.service_decodes [OF assms(1) [unfolded echo_history_def] this refl assms(2) [unfolded echo_run_def]]
  from r(1) r(2) [OF refl] show ?thesis by (auto simp: serving_def stream_def)
qed

text \<open>A client that is silent for eleven seconds after five bytes.\<close>

definition sample_echo :: "service_event list" where
  "sample_echo = [Arrives 1000000 ''he'' [Wrote 1], Elapses 10000000, Arrives 10500000 ''llo'' [],
     Elapses 20000000, Writes (Wrote 1), Elapses 21500001, Runs (Wrote 0), Writes (Wrote 3), Arrives 22000000 ''x'' []]"

lemmas echo_eval = echo_history_def echo_run_def sample_echo_def service_honest_def calls_of_def
  service_message_def service_new_def arrive_def echo_onMessage_def idle_def took_def readable_def conn_eval

theorem echoes_witness:
  "\<exists>k. k = echo_run 0 sample_echo \<and> wire k @ readable (outputBuffer k) = ''hello'' \<and> state k = kDisconnecting
    \<and> fin_sent k"
proof -
  let ?k = "echo_run 0 sample_echo"
  have h: "echo_history 0 sample_echo"
    by (simp add: echo_eval)
  moreover have "echo_spec 0 sample_echo = (''hello'', True)" by (simp add: sample_echo_def)
  moreover have "wire ?k = ''hello'' \<and> tasks ?k = []" by (simp add: echo_eval)
  ultimately show ?thesis using echoes [OF h refl] by auto
qed

end
