(* ===== verification/Echo_Client.thy ===== *)
theory Echo_Client
  imports Tcp_Client Echo_Server
begin

text \<open>
  The client of \<^verbatim>\<open>echo_example/Client.cc\<close>, a user of \<open>Tcp_Client\<close>: when the connection is up it sends
  \<open>hello\<close>, prints what comes back, and disconnects when it has received \<open>hello\<close>.
\<close>

section \<open>The client\<close>

record echo_client = tcp_client +
  ec_printed :: "bytes list"

definition echo_client_new :: "inet_address \<Rightarrow> bytes \<Rightarrow> echo_client" where
  "echo_client_new serverAddr nm = tcp_client.extend (tcp_client_new serverAddr nm) \<lparr>ec_printed = []\<rparr>"

definition echo_connect :: "int \<Rightarrow> int \<Rightarrow> echo_client \<Rightarrow> echo_client" where
  "echo_connect sockfd err s = client_connect sockfd err s"

definition echo_disconnect :: "echo_client \<Rightarrow> echo_client option" where
  "echo_disconnect s = client_disconnect s"

text \<open>\<open>onConnection\<close>: when the connection goes down it only logs.\<close>

definition client_onConnection :: "write_result \<Rightarrow> nat \<Rightarrow> echo_client \<Rightarrow> echo_client" where
  "client_onConnection r c s =
     (if connected (tl_conns s c) then upd_conn c (send True ''hello'' r) s else s)"

definition client_onMessage :: "nat \<Rightarrow> echo_client \<Rightarrow> echo_client option" where
  "client_onMessage c s =
     (let msg = readable (inputBuffer (tl_conns s c));
          s1 = upd_conn c (\<lambda>k. k\<lparr>inputBuffer := retrieveAll (inputBuffer k)\<rparr>) s;
          s2 = s1\<lparr>ec_printed := ec_printed s1 @ [msg]\<rparr>
      in if msg = ''hello'' then client_disconnect s2 else Some s2)"

interpretation ec: client_user "client_onConnection r" "client_onConnection r" for r
  by unfold_locales (simp_all add: client_frame_def client_onConnection_def upd_conn_def)

datatype ec_event = Ec_Connector con_event write_result | Ec_Arrives int bytes | Ec_Writes write_result
  | Ec_Runs write_result | Ec_Closes write_result

definition ec_conn :: "(nat \<Rightarrow> echo_client \<Rightarrow> echo_client option) \<Rightarrow> echo_client \<Rightarrow> echo_client option" where
  "ec_conn f s = (case tl_conn s of None \<Rightarrow> Some s | Some c \<Rightarrow> f c s)"

fun ec_step :: "ec_event \<Rightarrow> echo_client \<Rightarrow> echo_client option" where
  "ec_step (Ec_Connector e r) s = client_connector_event (client_onConnection r) (\<lambda>_ s. s) 0 e s"
| "ec_step (Ec_Arrives now d) s = ec_conn (\<lambda>c s. client_onMessage c (upd_conn c (arrive now d) s)) s"
| "ec_step (Ec_Writes r) s = ec_conn (\<lambda>c s. Some (upd_conn c (Tcp_Connection.handleWrite r) s)) s"
| "ec_step (Ec_Runs r) s = ec_conn (\<lambda>c s. Some (upd_conn c (run_task r) s)) s"
| "ec_step (Ec_Closes r) s = ec_conn (\<lambda>c s. Some (client_handleClose (client_onConnection r) c s)) s"

fun ec_run :: "ec_event list \<Rightarrow> echo_client \<Rightarrow> echo_client option" where
  "ec_run [] s = Some s"
| "ec_run (e # es) s = (case ec_step e s of None \<Rightarrow> None | Some s1 \<Rightarrow> ec_run es s1)"

section \<open>A session\<close>

text \<open>The connection \<open>c\<close> is up; \<open>gone\<close>: the client has disconnected.\<close>

definition in_session :: "bytes \<Rightarrow> bool \<Rightarrow> nat \<Rightarrow> echo_client \<Rightarrow> bool" where
  "in_session out gone c s \<longleftrightarrow> tl_conn s = Some c \<and> fin_inv (tl_conns s c)
     \<and> state (tl_conns s c) = (if gone then kDisconnecting else kConnected) \<and> stream (tl_conns s c) = out
     \<and> buf_inv (inputBuffer (tl_conns s c)) \<and> readable (inputBuffer (tl_conns s c)) = []"

text \<open>Nothing closes the connection, and writes take no more than they are given.\<close>

definition ec_honest :: "ec_event \<Rightarrow> echo_client \<Rightarrow> bool" where
  "ec_honest e s = (case e of
       Ec_Arrives now d \<Rightarrow> True
     | Ec_Writes r \<Rightarrow> (\<forall>c. tl_conn s = Some c \<longrightarrow> honest (Writable r) (tl_conns s c))
     | Ec_Runs r \<Rightarrow> (\<forall>c. tl_conn s = Some c \<longrightarrow> honest (Tcp_Connection.Run_Task r) (tl_conns s c))
     | _ \<Rightarrow> False)"

fun ec_history :: "ec_event list \<Rightarrow> echo_client \<Rightarrow> bool" where
  "ec_history [] s \<longleftrightarrow> True"
| "ec_history (e # es) s \<longleftrightarrow> ec_honest e s \<and>
     (case ec_step e s of None \<Rightarrow> True | Some s1 \<Rightarrow> ec_history es s1)"

fun ec_arrivals :: "ec_event list \<Rightarrow> bytes list" where
  "ec_arrivals [] = []"
| "ec_arrivals (Ec_Arrives now d # es) = d # ec_arrivals es"
| "ec_arrivals (e # es) = ec_arrivals es"

lemma conn_frame:
  "fin_inv (k\<lparr>inputBuffer := b\<rparr>) = fin_inv k" "stream (k\<lparr>inputBuffer := b\<rparr>) = stream k"
  "fin_inv (k\<lparr>lastReceiveTime := now\<rparr>) = fin_inv k" "stream (k\<lparr>lastReceiveTime := now\<rparr>) = stream k"
  by (simp_all add: fin_inv_def conn_inv_def out_inv_def stream_def write_enabled_def)

lemma shutdown_session:
  assumes "fin_inv k"
  shows "fin_inv (shutdown True k)" "stream (shutdown True k) = stream k"
    "inputBuffer (shutdown True k) = inputBuffer k"
    "state (shutdown True k) = (if state k = kConnected then kDisconnecting else state k)"
  using fin_step_inv [OF assms, of "Shutdown True"] conn_step_inv [of k "Shutdown True"] assms
  by (simp_all add: honest_def on_loop_thread_def offered_def fin_inv_def)
    (simp_all add: shutdown_def shutdownInLoop_def Let_def)

lemma message_step:
  assumes "in_session out gone c s"
  shows "\<exists>s1. ec_step (Ec_Arrives now d) s = Some s1 \<and> in_session out (gone \<or> d = ''hello'') c s1
    \<and> ec_printed s1 = ec_printed s @ [d]"
proof -
  let ?k = "tl_conns s c" and ?b = "append_data d (inputBuffer (tl_conns s c))"
  let ?k1 = "(arrive now d ?k)\<lparr>inputBuffer := retrieveAll ?b\<rparr>"
  from assms have s: "tl_conn s = Some c" "fin_inv ?k" "stream ?k = out" "buf_inv (inputBuffer ?k)"
    "readable (inputBuffer ?k) = []" "state ?k = (if gone then kDisconnecting else kConnected)"
    by (simp_all add: in_session_def)
  then have b: "readable ?b = d" "buf_inv (retrieveAll ?b)" "readable (retrieveAll ?b) = []"
    by (simp_all add: inv_intro content_simp)
  have k1: "fin_inv ?k1" "stream ?k1 = out" "state ?k1 = state ?k" using s by (simp_all add: conn_frame arrive_def)
  show ?thesis
    using s b k1 shutdown_session [OF k1(1)]
    by (auto simp: ec_conn_def client_onMessage_def client_disconnect_def upd_conn_def arrive_def in_session_def Let_def)
qed

lemma loop_step:
  assumes i: "in_session out gone c s" and e: "e = Ec_Writes r \<or> e = Ec_Runs r" and h: "ec_honest e s"
  shows "\<exists>s1. ec_step e s = Some s1 \<and> in_session out gone c s1 \<and> ec_printed s1 = ec_printed s"
proof -
  let ?k = "tl_conns s c" and ?ev = "if e = Ec_Writes r then Writable r else Tcp_Connection.Run_Task r"
  from i have s: "tl_conn s = Some c" "fin_inv ?k" by (simp_all add: in_session_def)
  then have s3: "conn_inv ?k" by (simp add: fin_inv_def)
  have h': "honest ?ev ?k" using h e s(1) by (auto simp: ec_honest_def)
  have o: "offered ?ev ?k = []"
    using s(2) by (auto simp: offered_def fin_inv_def split: list.splits conn_task.splits)
  have "stream (conn_step ?ev ?k) = stream ?k" using conn_step_inv [OF s3 h'] o by simp
  moreover have "fin_inv (conn_step ?ev ?k)" using fin_step_inv [OF s(2) h'] by (simp add: on_loop_thread_def)
  moreover have "state (conn_step ?ev ?k) = state ?k" "inputBuffer (conn_step ?ev ?k) = inputBuffer ?k"
    using run_task_keeps [OF s(2)] by simp_all
  moreover have "ec_step e s = Some (upd_conn c (conn_step ?ev) s)" using e s(1) by (auto simp: ec_conn_def upd_conn_def)
  ultimately show ?thesis using i by (simp add: in_session_def upd_conn_def)
qed

lemma session_run:
  "in_session out gone c s \<Longrightarrow> ec_history es s \<Longrightarrow>
     \<exists>s1. ec_run es s = Some s1 \<and> in_session out (gone \<or> ''hello'' \<in> set (ec_arrivals es)) c s1
       \<and> ec_printed s1 = ec_printed s @ ec_arrivals es"
proof (induction es arbitrary: s gone)
  case (Cons e es)
  from Cons.prems(2) have h: "ec_honest e s" by simp
  show ?case
  proof (cases "\<exists>now d. e = Ec_Arrives now d")
    case True
    then obtain now d where e: "e = Ec_Arrives now d" by blast
    from message_step [OF Cons.prems(1), of now d] obtain s1
      where s1: "ec_step e s = Some s1" "in_session out (gone \<or> d = ''hello'') c s1" "ec_printed s1 = ec_printed s @ [d]"
      unfolding e by blast
    with Cons.prems(2) have "ec_history es s1" by simp
    from Cons.IH [OF s1(2) this] s1(1,3) e show ?thesis by (auto simp: disj_ac eq_commute [of "''hello''"] simp del: ec_step.simps)
  next
    case False
    with h obtain r where e: "e = Ec_Writes r \<or> e = Ec_Runs r" by (cases e) (auto simp: ec_honest_def)
    from loop_step [OF Cons.prems(1) e h] obtain s1
      where s1: "ec_step e s = Some s1" "in_session out gone c s1" "ec_printed s1 = ec_printed s" by blast
    with Cons.prems(2) have "ec_history es s1" by simp
    moreover have "ec_arrivals (e # es) = ec_arrivals es" using e by auto
    ultimately show ?thesis using Cons.IH [OF s1(2)] s1(1,3) by simp
  qed
qed simp

section \<open>Its start\<close>

text \<open>The connector's socket becomes writable: the client is connected and has sent \<open>hello\<close>.\<close>

definition connected_client :: "inet_address \<Rightarrow> bytes \<Rightarrow> int \<Rightarrow> write_result \<Rightarrow> echo_client option" where
  "connected_client serverAddr nm fd r =
     ec_step (Ec_Connector (Channel_Writable 0) r) (echo_connect fd EINPROGRESS (echo_client_new serverAddr nm))"

text \<open>\<open>main\<close>.\<close>

definition echo_main :: "int \<Rightarrow> write_result \<Rightarrow> echo_client option" where
  "echo_main fd r = connected_client \<lparr>addr_ip = ''127.0.0.1'', addr_port = 8000\<rparr> ''client_1'' fd r"

lemma client_starts:
  assumes "took r 5"
  shows "\<exists>s. connected_client serverAddr nm fd r = Some s \<and> in_session ''hello'' False 0 s \<and> ec_printed s = []"
proof -
  let ?s0 = "echo_connect fd EINPROGRESS (echo_client_new serverAddr nm)"
  let ?k = "connectEstablished ((tcp_connection_new 0)\<lparr>has_write_complete := False\<rparr>)"
  have k: "live [] ?k" by (rule live_new)
  have b: "buf_inv (inputBuffer ?k)" "readable (inputBuffer ?k) = []"
    by (simp_all add: connectEstablished_def notify_def enable_reading_def tcp_connection_new_def inv_intro content_simp)
  from live_send [OF k, of r "''hello''"] assms
  have s: "live ''hello'' (send True ''hello'' r ?k)" "inputBuffer (send True ''hello'' r ?k) = inputBuffer ?k"
    by (simp_all add: eval_nat_numeral)
  note d = echo_connect_def echo_client_new_def client_connect_def tcp_client_new_def tcp_client.defs
    setNewConnectionCallback_def connector_new_def connector_defs errno_defs
  have "tl_connector ?s0 = Connector.start True fd EINPROGRESS (setNewConnectionCallback connector_new)"
    "tl_conns ?s0 = (\<lambda>_. tcp_connection_new 0)" "tl_count ?s0 = 0" "tl_write_complete ?s0 = False" "ec_printed ?s0 = []"
    by (simp_all add: echo_connect_def echo_client_new_def client_connect_def tcp_client_new_def tcp_client.defs)
  then show ?thesis using s b k
    by (simp add: connected_client_def client_connector_event_def client_newConnection_def d upd_conn_def
        client_onConnection_def in_session_def live_def connected_def Let_def)
qed

section \<open>When it stops\<close>

lemma single_segment: "concat ds = s \<Longrightarrow> [] \<notin> set ds \<Longrightarrow> s \<in> set ds \<longleftrightarrow> ds = [s]" if "s \<noteq> []"
proof -
  assume c: "concat ds = s" "[] \<notin> set ds"
  have "ds = [s]" if "s \<in> set ds"
  proof -
    from that obtain xs ys where ds: "ds = xs @ s # ys" by (meson split_list)
    with c(1) have "concat xs @ s @ concat ys = s" by simp
    then have "length (concat xs) + length (concat ys) = 0"
      by (metis (no_types, lifting) add.assoc add.commute add_cancel_right_right length_append)
    then have "concat xs = []" "concat ys = []" by simp_all
    moreover have "zs = []" if "concat zs = []" "set zs \<subseteq> set ds" for zs
      using that c(2) by (cases zs) auto
    ultimately have "xs = []" "ys = []" using ds by auto
    with ds show ?thesis by simp
  qed
  then show ?thesis by auto
qed

lemma client_session:
  assumes "took r 5" and "connected_client serverAddr nm fd r = Some s0" and "ec_history es s0"
  shows "\<exists>s. ec_run es s0 = Some s \<and> ec_printed s = ec_arrivals es
    \<and> in_session ''hello'' (''hello'' \<in> set (ec_arrivals es)) 0 s"
  using client_starts [OF assms(1), of serverAddr nm fd] session_run [of "''hello''" False 0 s0 es] assms(2,3)
  by auto

text \<open>
  When the echo of its own message arrives in two pieces, the client does not disconnect: it does not
  collect them.
\<close>

lemma echo_in_pieces:
  assumes "took r 5" and "connected_client serverAddr nm fd r = Some s0" and "ec_history es s0"
    and "concat (ec_arrivals es) = ''hello''" and "[] \<notin> set (ec_arrivals es)"
  shows "\<exists>s. ec_run es s0 = Some s
    \<and> state (tl_conns s 0) = (if ec_arrivals es = [''hello''] then kDisconnecting else kConnected)"
  using client_session [OF assms(1-3)] single_segment [OF _ assms(4,5)] by (auto simp: in_session_def)

section \<open>Properties\<close>

text \<open>
  C24. A session of the echo client, from its constructor on: whatever the kernel takes of each write, it sends
  \<open>hello\<close> once and nothing else, prints every segment that arrives, in order, and disconnects exactly when
  some segment is \<open>hello\<close>; no step is undefined. (So whether it stops depends on how the server's
  answer is cut: when the echo arrives in two pieces the client waits for ever.)
\<close>

theorem echo_client_session:
  assumes "took r 5" and "connected_client serverAddr nm fd r = Some s0" and "ec_history es s0"
  shows "\<exists>s. ec_run es s0 = Some s \<and> ec_printed s = ec_arrivals es
    \<and> wire (tl_conns s 0) @ readable (outputBuffer (tl_conns s 0)) = ''hello''
    \<and> state (tl_conns s 0) = (if ''hello'' \<in> set (ec_arrivals es) then kDisconnecting else kConnected)"
  using client_session [OF assms] by (auto simp: in_session_def stream_def)

text \<open>Once in one piece, once in two.\<close>

theorem echo_client_session_witness:
  "(\<exists>s0 s. echo_main 5 (Wrote 3) = Some s0
      \<and> ec_run [Ec_Writes (Wrote 0), Ec_Arrives 1 ''hello''] s0 = Some s \<and> state (tl_conns s 0) = kDisconnecting)
   \<and> (\<exists>s0 s. echo_main 5 (Wrote 5) = Some s0
      \<and> ec_run [Ec_Arrives 1 ''hel'', Ec_Arrives 1 ''lo''] s0 = Some s \<and> state (tl_conns s 0) = kConnected)"
proof (intro conjI)
  have t: "took (Wrote 3) 5" "took (Wrote 5) 5" by (simp_all add: took_def)
  from client_starts [OF t(1)] obtain s0
    where s: "echo_main 5 (Wrote 3) = Some s0" "in_session ''hello'' False 0 s0" unfolding echo_main_def by blast
  have "ec_history [Ec_Writes (Wrote 0), Ec_Arrives 1 ''hello''] s0"
    using s(2) by (simp add: ec_honest_def honest_def split: option.split)
  from echo_client_session [OF t(1) s(1) [unfolded echo_main_def] this] s(1)
  show "\<exists>s0 s. echo_main 5 (Wrote 3) = Some s0
      \<and> ec_run [Ec_Writes (Wrote 0), Ec_Arrives 1 ''hello''] s0 = Some s \<and> state (tl_conns s 0) = kDisconnecting"
    by (auto simp del: ec_run.simps)
  from client_starts [OF t(2)] obtain s0
    where s: "echo_main 5 (Wrote 5) = Some s0" unfolding echo_main_def by blast
  have "ec_history [Ec_Arrives 1 ''hel'', Ec_Arrives 1 ''lo''] s0"
    by (simp add: ec_honest_def split: option.split)
  from echo_client_session [OF t(2) s [unfolded echo_main_def] this] s
  show "\<exists>s0 s. echo_main 5 (Wrote 5) = Some s0
      \<and> ec_run [Ec_Arrives 1 ''hel'', Ec_Arrives 1 ''lo''] s0 = Some s \<and> state (tl_conns s 0) = kConnected"
    by (auto simp del: ec_run.simps)
qed

end
