(* ===== verification/L7_Backend.thy ===== *)
theory L7_Backend
  imports L7_Pool Tcp_Client
begin

text \<open>
  The backend connection of the HTTP gateway in full: \<open>RemoteClient\<close>
  (\<^verbatim>\<open>Proxy/src/L7/RemoteClient.cc\<close>) as the user of a \<open>TcpClient\<close>, with its connector, its
  \<open>TcpConnection\<close> and their buffers. \<open>L7_Pool\<close> describes it by the state of the connection and the bytes it
  has been given; here every operation of the full model is shown to act on that description as the
  operation of \<open>L7_Pool\<close> does.
\<close>

section \<open>RemoteClient on its TcpClient\<close>

record l7_backend = tcp_client +
  lb_pending :: buffer

definition l7_backend_new :: "inet_address \<Rightarrow> bytes \<Rightarrow> l7_backend" where
  "l7_backend_new serverAddr targetNode =
     tcp_client.extend (tcp_client_new serverAddr targetNode) \<lparr>lb_pending = buffer_new 0\<rparr>"

text \<open>\<open>connect\<close>: no retries, and no error callback.\<close>

definition remote_connect :: "int \<Rightarrow> int \<Rightarrow> l7_backend \<Rightarrow> l7_backend" where
  "remote_connect sockfd err s = client_connect sockfd err s"

text \<open>\<open>onConnection\<close> when the connection is up; \<open>bound\<close> tells whether the client is still there. When it goes
  down only the client and the pool are concerned.\<close>

definition backend_on_up :: "bool \<Rightarrow> write_result \<Rightarrow> nat \<Rightarrow> l7_backend \<Rightarrow> l7_backend" where
  "backend_on_up bound r c s =
     (if bound then
        (if 0 < readableBytes (lb_pending s)
         then (upd_conn c (send True (readable (lb_pending s)) r) s)\<lparr>lb_pending := retrieveAll (lb_pending s)\<rparr>
         else s)
      else s)"

definition backend_sendToBackend :: "bytes \<Rightarrow> write_result \<Rightarrow> l7_backend \<Rightarrow> l7_backend" where
  "backend_sendToBackend d r s =
     (case Tcp_Client.client_send d r s of (ok, s1) \<Rightarrow>
        if \<not> ok then s1\<lparr>lb_pending := append_data d (lb_pending s1)\<rparr> else s1)"

definition backend_clearPending :: "l7_backend \<Rightarrow> l7_backend" where
  "backend_clearPending s = s\<lparr>lb_pending := retrieveAll (lb_pending s)\<rparr>"

interpretation l7: client_user "backend_on_up bound r" "\<lambda>_ s. s" for bound r
  by unfold_locales (simp_all add: client_frame_def backend_on_up_def upd_conn_def)

text \<open>
  What happens to it. \<open>Consumed\<close>: \<open>onMessage\<close> leaves the buffer \<open>b\<close>; \<open>Give_Up\<close>: it calls \<open>disconnect\<close>.
\<close>

datatype backend_event = Forward bytes write_result | Connects int con_event bool write_result
  | Receives bytes | Consumed buffer | Flushes write_result | Functor write_result
  | Backend_Closes | Give_Up | Clears | Destroys

definition on_conn :: "(tcp_connection \<Rightarrow> tcp_connection) \<Rightarrow> l7_backend \<Rightarrow> l7_backend" where
  "on_conn f s = (case tl_conn s of None \<Rightarrow> s | Some c \<Rightarrow> upd_conn c f s)"

fun backend_step :: "backend_event \<Rightarrow> l7_backend \<Rightarrow> l7_backend option" where
  "backend_step (Forward d r) s = Some (backend_sendToBackend d r s)"
| "backend_step (Connects now e bound r) s =
     client_connector_event (backend_on_up bound r) (\<lambda>_ s. s) now e s"
| "backend_step (Receives d) s = Some (on_conn (\<lambda>k. k\<lparr>inputBuffer := append_data d (inputBuffer k)\<rparr>) s)"
| "backend_step (Consumed b) s = Some (on_conn (\<lambda>k. k\<lparr>inputBuffer := b\<rparr>) s)"
| "backend_step (Flushes r) s = Some (on_conn (Tcp_Connection.handleWrite r) s)"
| "backend_step (Functor r) s = Some (on_conn (run_task r) s)"
| "backend_step Backend_Closes s =
     Some (case tl_conn s of None \<Rightarrow> s | Some c \<Rightarrow> client_handleClose (\<lambda>_ s. s) c s)"
| "backend_step Give_Up s = client_disconnect s"
| "backend_step Clears s = Some (backend_clearPending s)"
| "backend_step Destroys s = Some (client_destroy_next (\<lambda>_ s. s) s)"

fun backend_run :: "backend_event list \<Rightarrow> l7_backend \<Rightarrow> l7_backend option" where
  "backend_run [] s = Some s"
| "backend_run (e # es) s = (case backend_step e s of None \<Rightarrow> None | Some s1 \<Rightarrow> backend_run es s1)"

definition backend_honest :: "backend_event \<Rightarrow> l7_backend \<Rightarrow> bool" where
  "backend_honest e s = (case e of
       Forward d r \<Rightarrow> took r (length d)
     | Connects now ce bound r \<Rightarrow> loop_event ce \<and> took r (length (readable (lb_pending s)))
     | Flushes r \<Rightarrow> honest (Writable r) (tl_conns s 0)
     | Functor r \<Rightarrow> honest (Tcp_Connection.Run_Task r) (tl_conns s 0)
     | _ \<Rightarrow> True)"

fun backend_history :: "backend_event list \<Rightarrow> l7_backend \<Rightarrow> bool" where
  "backend_history [] s \<longleftrightarrow> True"
| "backend_history (e # es) s \<longleftrightarrow> backend_honest e s \<and>
     (case backend_step e s of None \<Rightarrow> True | Some s1 \<Rightarrow> backend_history es s1)"

section \<open>The description in the pool\<close>

text \<open>The operations of \<open>L7_Pool\<close> on one remote client.\<close>

datatype remote_op = R_Send bytes | R_Up bool | R_Data bytes | R_Input buffer | R_Down | R_Disconnect | R_Clear

fun remote_step :: "remote_op \<Rightarrow> remote_client \<Rightarrow> remote_client option" where
  "remote_step (R_Send d) rc = Some (sendToBackend d rc)"
| "remote_step (R_Up bound) rc =
     Some ((if bound \<and> 0 < readableBytes (pendingBuffer rc)
            then rc\<lparr>rc_sent := rc_sent rc @ readable (pendingBuffer rc),
                    pendingBuffer := retrieveAll (pendingBuffer rc)\<rparr>
            else rc)\<lparr>rc_conn := Some kConnected\<rparr>)"
| "remote_step (R_Data d) rc = Some (rc\<lparr>rc_input := append_data d (rc_input rc)\<rparr>)"
| "remote_step (R_Input b) rc = Some (rc\<lparr>rc_input := b\<rparr>)"
| "remote_step R_Down rc = Some (rc\<lparr>rc_conn := None\<rparr>)"
| "remote_step R_Disconnect rc = tc_disconnect rc"
| "remote_step R_Clear rc = Some (clearPendingBuffer rc)"

fun remote_run :: "remote_op list \<Rightarrow> remote_client \<Rightarrow> remote_client option" where
  "remote_run [] rc = Some rc"
| "remote_run (p # ps) rc = (case remote_step p rc of None \<Rightarrow> None | Some rc1 \<Rightarrow> remote_run ps rc1)"

lemma pool_ops:
  "remotes (backend_up r w) r = the (remote_step (R_Up (bound_client r w \<noteq> None)) (remotes w r))"
  "remotes (backend_down r w) r = the (remote_step R_Down (remotes w r))"
  by (auto simp: backend_up_def backend_down_def upd_remote_def upd_client_def Let_def split: option.split)

definition describe :: "remote_client \<Rightarrow> l7_backend \<Rightarrow> remote_client" where
  "describe rc s =
     rc\<lparr>rc_conn := map_option (\<lambda>c. state (tl_conns s c)) (tl_conn s), pendingBuffer := lb_pending s,
        rc_input := inputBuffer (tl_conns s 0),
        rc_sent := (if tl_count s = 0 then [] else stream (tl_conns s 0))\<rparr>"

text \<open>What an event is in the pool: nothing, for the work of the loop that the pool does not see.\<close>

definition label :: "backend_event \<Rightarrow> l7_backend \<Rightarrow> remote_op list" where
  "label e s = (case e of
       Forward d r \<Rightarrow> [R_Send d]
     | Connects now ce bound r \<Rightarrow>
         (case backend_step e s of
            None \<Rightarrow> []
          | Some s1 \<Rightarrow> if tl_count s < tl_count s1 then [R_Up bound] else [])
     | Receives d \<Rightarrow> (if tl_conn s = None then [] else [R_Data d])
     | Consumed b \<Rightarrow> (if tl_conn s = None then [] else [R_Input b])
     | Backend_Closes \<Rightarrow> (if tl_conn s = None then [] else [R_Down])
     | Give_Up \<Rightarrow> [R_Disconnect]
     | Clears \<Rightarrow> [R_Clear]
     | _ \<Rightarrow> [])"

fun labels :: "backend_event list \<Rightarrow> l7_backend \<Rightarrow> remote_op list" where
  "labels [] s = []"
| "labels (e # es) s = label e s @ (case backend_step e s of None \<Rightarrow> [] | Some s1 \<Rightarrow> labels es s1)"

section \<open>The invariant\<close>

definition backend_inv :: "l7_backend \<Rightarrow> bool" where
  "backend_inv s \<longleftrightarrow> one_attempt (tl_connector s) \<and> tl_count s = length (handed (tl_connector s))
     \<and> \<not> tl_retry s \<and> (tl_count s = 0 \<or> tl_count s = 1)
     \<and> (tl_count s = 0 \<longrightarrow>
          tl_conn s = None \<and> inputBuffer (tl_conns s 0) = buffer_new 0 \<and> tl_destroys s = [])
     \<and> (tl_count s = 1 \<longrightarrow> resting (tl_connector s) \<and> fin_inv (tl_conns s 0))
     \<and> (tl_count s = 1 \<and> tl_conn s = None \<longrightarrow>
          state (tl_conns s 0) = kDisconnected \<and> set (tl_destroys s) \<subseteq> {0})
     \<and> (tl_conn s \<noteq> None \<longrightarrow>
          tl_conn s = Some 0 \<and> state (tl_conns s 0) \<in> {kConnected, kDisconnecting} \<and> tl_destroys s = [])"

lemma upd_conn_fields [simp]:
  "tl_connector (upd_conn c f s) = tl_connector s" "tl_count (upd_conn c f s) = tl_count s"
  "tl_conn (upd_conn c f s) = tl_conn s" "tl_retry (upd_conn c f s) = tl_retry s"
  "tl_destroys (upd_conn c f s) = tl_destroys s" "tl_conns (upd_conn c f s) = (tl_conns s)(c := f (tl_conns s c))"
  "lb_pending (upd_conn c f (t :: l7_backend)) = lb_pending t"
  by (simp_all add: upd_conn_def)

text \<open>The connection is there, and an operation on it keeps it.\<close>

lemma backend_invD:
  assumes "backend_inv s"
  shows "tl_count s = 0 \<or> tl_count s = 1"
    and "tl_count s = 0 \<Longrightarrow> tl_conn s = None \<and> inputBuffer (tl_conns s 0) = buffer_new 0 \<and> tl_destroys s = []"
    and "tl_count s = 1 \<Longrightarrow> resting (tl_connector s) \<and> fin_inv (tl_conns s 0)"
    and "tl_count s = 1 \<Longrightarrow> tl_conn s = None \<Longrightarrow>
      state (tl_conns s 0) = kDisconnected \<and> set (tl_destroys s) \<subseteq> {0}"
    and "tl_conn s \<noteq> None \<Longrightarrow>
      tl_conn s = Some 0 \<and> state (tl_conns s 0) \<in> {kConnected, kDisconnecting} \<and> tl_destroys s = []"
    and "one_attempt (tl_connector s)" and "tl_count s = length (handed (tl_connector s))" and "\<not> tl_retry s"
  using assms unfolding backend_inv_def by blast+

lemma backend_inv_some:
  assumes i: "backend_inv s" and c: "tl_conn s = Some c"
  shows "c = 0" "tl_count s = 1" "fin_inv (tl_conns s 0)" "conn_inv (tl_conns s 0)"
    "state (tl_conns s 0) \<in> {kConnected, kDisconnecting}" "resting (tl_connector s)" "tl_destroys s = []"
proof -
  from backend_invD(5) [OF i] c show "c = 0" "state (tl_conns s 0) \<in> {kConnected, kDisconnecting}"
    "tl_destroys s = []" by auto
  from backend_invD(1,2) [OF i] c show n: "tl_count s = 1" by auto
  from backend_invD(3) [OF i n] show "fin_inv (tl_conns s 0)" "conn_inv (tl_conns s 0)" "resting (tl_connector s)"
    by (simp_all add: fin_inv_def)
qed

lemma backend_inv_none:
  "backend_inv s \<Longrightarrow> tl_conn s = None \<Longrightarrow> tl_count s = 0 \<or> tl_count s = 1 \<and> state (tl_conns s 0) = kDisconnected"
  using backend_invD(1,4) by blast

lemma backend_inv_conn:
  assumes i: "backend_inv s" and c: "tl_conn s = Some c" and f: "fin_inv (f (tl_conns s 0))"
    "state (f (tl_conns s 0)) \<in> {kConnected, kDisconnecting}"
  shows "backend_inv (upd_conn c f s)"
proof -
  note b = backend_inv_some [OF i c]
  have "tl_conns (upd_conn c f s) 0 = f (tl_conns s 0)" by (simp add: b(1))
  with b(1,2,6,7) c f backend_invD(6-8) [OF i] show ?thesis unfolding backend_inv_def upd_conn_fields by auto
qed

lemma backend_inv_connect: "backend_inv (s\<lparr>tl_connect := x\<rparr>) = backend_inv s"
  by (simp add: backend_inv_def)

lemma backend_inv_pending [simp]: "backend_inv (s\<lparr>lb_pending := b\<rparr>) = backend_inv s"
  by (simp add: backend_inv_def)

text \<open>Each event keeps the invariant and is described by its label.\<close>

definition described :: "remote_client \<Rightarrow> remote_op list \<Rightarrow> l7_backend \<Rightarrow> l7_backend option \<Rightarrow> bool" where
  "described rc ps s res \<longleftrightarrow> map_option (describe rc) res = remote_run ps (describe rc s)
     \<and> (\<forall>s1. res = Some s1 \<longrightarrow> backend_inv s1)"

lemma described_conn:
  assumes i: "backend_inv s" and c: "tl_conn s = Some c"
    and f: "fin_inv (f (tl_conns s 0))" "state (f (tl_conns s 0)) = state (tl_conns s 0)"
      "inputBuffer (f (tl_conns s 0)) = inputBuffer (tl_conns s 0)" "stream (f (tl_conns s 0)) = stream (tl_conns s 0)"
  shows "described rc [] s (Some (upd_conn c f s))"
  using backend_inv_conn [OF i c, of f] backend_inv_some [OF i c] f c
  by (simp add: described_def describe_def)

lemma described_forward:
  assumes i: "backend_inv s" and r: "took r (length d)"
  shows "described rc (label (Forward d r) s) s (backend_step (Forward d r) s)"
proof (cases "tl_conn s")
  case None
  then show ?thesis using i
    by (simp add: described_def label_def backend_sendToBackend_def Tcp_Client.client_send_def describe_def
        sendToBackend_def tc_send_def)
next
  case (Some c)
  note f = backend_inv_some [OF i Some]
  have h: "honest (Send True d r) (tl_conns s 0)" using r by (simp add: honest_def took_def)
  have st: "stream (send True d r (tl_conns s 0))
      = (if state (tl_conns s 0) = kConnected then stream (tl_conns s 0) @ d else stream (tl_conns s 0))"
    using conn_step_inv [OF f(4) h] by (simp add: offered_def)
  have k: "state (send True d r (tl_conns s 0)) = state (tl_conns s 0)"
    "inputBuffer (send True d r (tl_conns s 0)) = inputBuffer (tl_conns s 0)" by (simp_all add: send_def)
  have "fin_inv (send True d r (tl_conns s 0))"
    using fin_step_inv [OF f(3) h] by (simp add: on_loop_thread_def)
  with backend_inv_conn [OF i Some, of "send True d r"] f(5) k(1)
  have "backend_inv (upd_conn c (send True d r) s)" by simp
  then show ?thesis using Some f(1,2) st k
    by (simp add: described_def label_def backend_sendToBackend_def Tcp_Client.client_send_def describe_def
        sendToBackend_def tc_send_def)
qed

lemma described_input:
  assumes i: "backend_inv s" and c: "tl_conn s = Some c"
  shows "map_option (describe rc) (Some (upd_conn c (\<lambda>k. k\<lparr>inputBuffer := g (inputBuffer k)\<rparr>) s))
      = Some (describe rc s\<lparr>rc_input := g (inputBuffer (tl_conns s 0))\<rparr>)
    \<and> backend_inv (upd_conn c (\<lambda>k. k\<lparr>inputBuffer := g (inputBuffer k)\<rparr>) s)"
proof -
  note b = backend_inv_some [OF i c]
  let ?f = "\<lambda>k. k\<lparr>inputBuffer := g (inputBuffer k)\<rparr>"
  have "fin_inv (?f (tl_conns s 0))" "state (?f (tl_conns s 0)) \<in> {kConnected, kDisconnecting}"
    "stream (?f (tl_conns s 0)) = stream (tl_conns s 0)"
    using b(3,5) by (simp_all add: fin_inv_def conn_inv_def out_inv_def stream_def write_enabled_def)
  with backend_inv_conn [OF i c, of ?f] b c show ?thesis by (simp add: describe_def)
qed

lemma described_receives:
  assumes i: "backend_inv s"
  shows "described rc (label (Receives d) s) s (backend_step (Receives d) s)"
    and "described rc (label (Consumed b) s) s (backend_step (Consumed b) s)"
proof -
  show "described rc (label (Receives d) s) s (backend_step (Receives d) s)"
  proof (cases "tl_conn s")
    case (Some c)
    with described_input [OF i Some, of rc "append_data d"] show ?thesis
      by (simp add: described_def label_def on_conn_def describe_def)
  qed (use i in \<open>simp add: described_def label_def on_conn_def\<close>)
  show "described rc (label (Consumed b) s) s (backend_step (Consumed b) s)"
  proof (cases "tl_conn s")
    case (Some c)
    with described_input [OF i Some, of rc "\<lambda>_. b"] show ?thesis
      by (simp add: described_def label_def on_conn_def describe_def)
  qed (use i in \<open>simp add: described_def label_def on_conn_def\<close>)
qed

text \<open>What the loop does to the output: the pool does not see it.\<close>

lemma described_loop:
  assumes i: "backend_inv s" and e: "e = Flushes r \<or> e = Functor r" and h: "backend_honest e s"
  shows "described rc (label e s) s (backend_step e s)"
proof (cases "tl_conn s")
  case None
  with i e show ?thesis by (auto simp: described_def label_def on_conn_def)
next
  case (Some c)
  note b = backend_inv_some [OF i Some]
  let ?k = "tl_conns s 0" and ?ev = "if e = Flushes r then Writable r else Tcp_Connection.Run_Task r"
  have h': "honest ?ev ?k" using h e by (auto simp: backend_honest_def)
  have o: "offered ?ev ?k = []" using b(3) by (auto simp: offered_def fin_inv_def split: list.splits conn_task.splits)
  have "stream (conn_step ?ev ?k) = stream ?k" using conn_step_inv [OF b(4) h'] o by simp
  moreover have "fin_inv (conn_step ?ev ?k)" using fin_step_inv [OF b(3) h'] by (simp add: on_loop_thread_def)
  moreover have "state (conn_step ?ev ?k) = state ?k" "inputBuffer (conn_step ?ev ?k) = inputBuffer ?k"
    using run_task_keeps [OF b(3)] by simp_all
  ultimately have "described rc [] s (Some (upd_conn c (conn_step ?ev) s))" using described_conn [OF i Some] by blast
  moreover have "upd_conn c (conn_step ?ev) s = the (backend_step e s)" "backend_step e s \<noteq> None"
    using e Some by (auto simp: on_conn_def upd_conn_def)
  ultimately show ?thesis using e by (auto simp: label_def)
qed

lemma described_closes:
  assumes i: "backend_inv s"
  shows "described rc (label Backend_Closes s) s (backend_step Backend_Closes s)"
proof (cases "tl_conn s")
  case None
  with i show ?thesis by (simp add: described_def label_def)
next
  case (Some c)
  note b = backend_inv_some [OF i Some]
  let ?k = "handleClose (tl_conns s 0)"
  have h: "honest Peer_Closed (tl_conns s 0)" by (simp add: honest_def)
  have st: "stream ?k = stream (tl_conns s 0)" using handleClose_inv [OF b(4)] by simp
  have k: "inputBuffer ?k = inputBuffer (tl_conns s 0)" "state ?k = kDisconnected"
    by (simp_all add: handleClose_def notify_def disable_all_def)
  have f: "fin_inv ?k" using fin_step_inv [OF b(3) h] by (simp add: on_loop_thread_def)
  let ?s = "client_handleClose (\<lambda>_ s. s) c s"
  have s: "tl_conn ?s = None" "tl_count ?s = tl_count s" "tl_conns ?s 0 = ?k" "tl_destroys ?s = [0]"
    "tl_connector ?s = tl_connector s" "tl_retry ?s = tl_retry s" "lb_pending ?s = lb_pending s"
    using b(1,7) backend_invD(8) [OF i]
    by (simp_all add: client_handleClose_def client_removeConnection_def Let_def)
  have "backend_inv ?s" unfolding backend_inv_def s using backend_invD(6-8) [OF i] b(2,6) f k(2) by auto
  with s b(2) st k Some show ?thesis by (simp add: described_def label_def describe_def)
qed

lemma described_gives_up:
  assumes i: "backend_inv s"
  shows "described rc (label Give_Up s) s (backend_step Give_Up s)"
proof (cases "tl_conn s")
  case None
  with i show ?thesis by (simp add: described_def label_def client_disconnect_def tc_disconnect_def describe_def)
next
  case (Some c)
  note b = backend_inv_some [OF i Some]
  let ?k = "shutdown True (tl_conns s 0)"
  have h: "honest (Shutdown True) (tl_conns s 0)" by (simp add: honest_def)
  have st: "stream ?k = stream (tl_conns s 0)" using conn_step_inv [OF b(4) h] by (simp add: offered_def)
  have k: "inputBuffer ?k = inputBuffer (tl_conns s 0)"
    "state ?k = (if state (tl_conns s 0) = kConnected then kDisconnecting else state (tl_conns s 0))"
    by (simp_all add: shutdown_def shutdownInLoop_def Let_def)
  have "fin_inv ?k" using fin_step_inv [OF b(3) h] by (simp add: on_loop_thread_def)
  with backend_inv_conn [OF i Some, of "shutdown True"] b(5) k(2) have inv: "backend_inv (upd_conn c (shutdown True) s)"
    by auto
  let ?s = "upd_conn c (shutdown True) (s\<lparr>tl_connect := False\<rparr>)"
  have e: "backend_step Give_Up s = Some ?s" using Some by (simp add: client_disconnect_def)
  have s: "tl_conn ?s = Some 0" "tl_count ?s = 1" "tl_conns ?s 0 = ?k" "lb_pending ?s = lb_pending s"
    using b(1,2) Some by simp_all
  have "?s = (upd_conn c (shutdown True) s)\<lparr>tl_connect := False\<rparr>" by (simp add: upd_conn_def)
  then have "backend_inv ?s" using inv backend_inv_connect by metis
  then show ?thesis unfolding e
    using s b(1,2,5) st k Some by (auto simp: described_def label_def describe_def tc_disconnect_def)
qed

lemma described_destroys:
  assumes i: "backend_inv s"
  shows "described rc (label Destroys s) s (backend_step Destroys s)"
proof (cases "tl_destroys s")
  case Nil
  with i show ?thesis by (simp add: described_def label_def client_destroy_next_def)
next
  case (Cons c cs)
  with backend_invD(1,2) [OF i] have "tl_count s = 1" by auto
  moreover have "tl_conn s = None" using backend_invD(5) [OF i] Cons by (cases "tl_conn s") simp_all
  ultimately have n: "tl_count s = 1" "tl_conn s = None" by simp_all
  with backend_invD(4) [OF i] Cons have c: "c = 0" "state (tl_conns s 0) = kDisconnected" "set cs \<subseteq> {0}" by auto
  let ?s = "upd_conn 0 connectDestroyed (s\<lparr>tl_destroys := cs\<rparr>)"
  have e: "backend_step Destroys s = Some ?s"
    using Cons c by (simp add: client_destroy_next_def connected_def Let_def)
  have k: "connectDestroyed (tl_conns s 0) = (tl_conns s 0)\<lparr>channel_removed := True\<rparr>"
    using c(2) by (simp add: connectDestroyed_def)
  have f: "fin_inv ((tl_conns s 0)\<lparr>channel_removed := True\<rparr>)" using backend_invD(3) [OF i n(1)] by (simp add: fin_inv_def)
  have "backend_inv ?s" unfolding backend_inv_def upd_conn_fields
    using backend_invD(3,6-8) [OF i] n c k f by auto
  then show ?thesis unfolding e using n k by (simp add: described_def label_def describe_def)
qed

text \<open>The connector: it hands over one descriptor, with which the connection goes up.\<close>

lemma backend_inv_connector:
  assumes i: "backend_inv s" and k: "one_attempt k" "handed k = handed (tl_connector s)"
    "tl_count s = 1 \<longrightarrow> resting k"
  shows "backend_inv (s\<lparr>tl_connector := k\<rparr>)"
  using i k unfolding backend_inv_def by auto

definition fresh_conn :: "int \<Rightarrow> bool \<Rightarrow> tcp_connection" where
  "fresh_conn now w = connectEstablished ((tcp_connection_new now)\<lparr>has_write_complete := w\<rparr>)"

lemma fresh_conn:
  "fin_inv (fresh_conn now w)" "stream (fresh_conn now w) = []" "state (fresh_conn now w) = kConnected"
  "inputBuffer (fresh_conn now w) = buffer_new 0" "live [] (fresh_conn now w)"
  using live_new [of w now] unfolding fresh_conn_def
  by (simp_all add: live_def connected_def)
    (simp_all add: connectEstablished_def notify_def enable_reading_def tcp_connection_new_def)

lemma described_up:
  assumes i: "backend_inv s" and k: "one_attempt k" "resting k" "length (handed k) = 1" and n: "tl_count s = 0"
    and r: "took r (length (readable (lb_pending s)))"
  shows "described rc [R_Up bound] s (Some (client_newConnection (backend_on_up bound r) now (s\<lparr>tl_connector := k\<rparr>)))"
proof -
  let ?flush = "bound \<and> 0 < readableBytes (lb_pending s)"
  let ?c = "fresh_conn now (tl_write_complete s)"
  let ?k = "if ?flush then send True (readable (lb_pending s)) r ?c else ?c"
  let ?s = "client_newConnection (backend_on_up bound r) now (s\<lparr>tl_connector := k\<rparr>)"
  from backend_invD(2) [OF i n] have z: "tl_conn s = None" "inputBuffer (tl_conns s 0) = buffer_new 0"
    "tl_destroys s = []" by simp_all
  have s: "tl_conn ?s = Some 0" "tl_count ?s = 1" "tl_conns ?s 0 = ?k" "tl_destroys ?s = []" "tl_connector ?s = k"
    "tl_retry ?s = tl_retry s"
    "lb_pending ?s = (if ?flush then retrieveAll (lb_pending s) else lb_pending s)"
    using n z(3)
    by (simp_all add: client_newConnection_def backend_on_up_def upd_conn_def Let_def fresh_conn_def)
  have l: "live (if ?flush then readable (lb_pending s) else []) ?k"
    using fresh_conn(5) live_send(1) [OF fresh_conn(5) r] by simp
  have b: "inputBuffer ?k = buffer_new 0" using fresh_conn(4) by (simp add: send_def)
  have f: "fin_inv ?k" "state ?k = kConnected" "stream ?k = (if ?flush then readable (lb_pending s) else [])"
    using l by (simp_all add: live_def connected_def split: if_splits)
  have "backend_inv ?s" unfolding backend_inv_def s using backend_invD(8) [OF i] k f(1,2) by simp
  moreover have "describe rc ?s = (describe rc s)\<lparr>rc_conn := Some kConnected, pendingBuffer := lb_pending ?s,
      rc_input := buffer_new 0, rc_sent := stream ?k\<rparr>"
    using s f(2) b by (simp add: describe_def)
  ultimately show ?thesis using z n f(3) s(7)
    by (auto simp: described_def describe_def)
qed

lemma described_connects:
  assumes i: "backend_inv s" and h: "backend_honest (Connects now e bound r) s"
  shows "described rc (label (Connects now e bound r) s) s (backend_step (Connects now e bound r) s)"
proof -
  let ?q = "tl_connector s"
  from h have e: "loop_event e" and r: "took r (length (readable (lb_pending s)))" by (simp_all add: backend_honest_def)
  note a = backend_invD(6) [OF i]
  from loop_event_step [OF a e] obtain k where k: "con_step e ?q = Some k" "one_attempt k" "errors k = errors ?q"
    and hd: "handed k = handed ?q \<or> (\<exists>fd. handed k = handed ?q @ [fd] \<and> resting k \<and> \<not> resting ?q)" by blast
  from hd show ?thesis
  proof
    assume same: "handed k = handed ?q"
    have "tl_count s = 1 \<longrightarrow> resting k" using resting_step [OF a _ e k(1)] backend_invD(3) [OF i] by blast
    from backend_inv_connector [OF i k(2) same this] k same show ?thesis
      by (simp add: described_def label_def client_connector_event_def Let_def describe_def)
  next
    assume "\<exists>fd. handed k = handed ?q @ [fd] \<and> resting k \<and> \<not> resting ?q"
    then obtain fd where fd: "handed k = handed ?q @ [fd]" "resting k" "\<not> resting ?q" by blast
    then have n: "tl_count s = 0" using backend_invD(1,3) [OF i] by blast
    with backend_invD(7) [OF i] have l: "length (handed k) = 1" by (simp add: fd(1))
    have st: "backend_step (Connects now e bound r) s
        = Some (client_newConnection (backend_on_up bound r) now (s\<lparr>tl_connector := k\<rparr>))"
      using k fd(1) by (simp add: client_connector_event_def Let_def)
    then have "label (Connects now e bound r) s = [R_Up bound]" by (simp add: label_def)
    with described_up [OF i k(2) fd(2) l n r] st show ?thesis by simp
  qed
qed

lemma described_step:
  assumes i: "backend_inv s" and h: "backend_honest e s"
  shows "described rc (label e s) s (backend_step e s)"
proof (cases e)
  case (Forward d r)
  with described_forward [OF i] h show ?thesis by (simp add: backend_honest_def)
next
  case (Connects now ce bound r)
  with described_connects [OF i] h show ?thesis by simp
next
  case (Flushes r)
  with described_loop [OF i _ h] show ?thesis by blast
next
  case (Functor r)
  with described_loop [OF i _ h] show ?thesis by blast
next
  case Clears
  with i show ?thesis by (simp add: described_def label_def backend_clearPending_def describe_def clearPendingBuffer_def)
qed (use described_receives [OF i] described_closes [OF i] described_gives_up [OF i] described_destroys [OF i] in simp_all)

lemma backend_run_described:
  "backend_inv s \<Longrightarrow> backend_history es s \<Longrightarrow>
     map_option (describe rc) (backend_run es s) = remote_run (labels es s) (describe rc s)
     \<and> (\<forall>s1. backend_run es s = Some s1 \<longrightarrow> backend_inv s1)"
proof (induction es arbitrary: s)
  case (Cons e es)
  from Cons.prems have h: "backend_honest e s" by simp
  have split: "remote_run (ps @ qs) x = (case remote_run ps x of None \<Rightarrow> None | Some y \<Rightarrow> remote_run qs y)" for ps qs x
    by (induction ps arbitrary: x) (simp_all split: option.split)
  note d = described_step [OF Cons.prems(1) h, of rc, unfolded described_def]
  show ?case
  proof (cases "backend_step e s")
    case None
    with d show ?thesis by (simp add: split)
  next
    case (Some s1)
    with d have "remote_run (label e s) (describe rc s) = Some (describe rc s1)" "backend_inv s1" by simp_all
    with Cons.IH [of s1] Cons.prems(2) Some show ?thesis by (simp add: split)
  qed
qed simp

lemma connected_backend_inv:
  "backend_inv (remote_connect fd err (l7_backend_new addr targetNode))"
  "describe (remote_new targetNode) (remote_connect fd err (l7_backend_new addr targetNode)) = remote_new targetNode"
proof -
  let ?q = "setNewConnectionCallback connector_new"
  have q: "one_attempt ?q" "resting ?q" "handed ?q = []"
    by (simp_all add: one_attempt_def resting_def con_inv_def held_def setNewConnectionCallback_def connector_new_def)
  let ?s = "remote_connect fd err (l7_backend_new addr targetNode)"
  have s: "tl_connector ?s = Connector.start True fd err ?q" "tl_count ?s = 0" "tl_conn ?s = None"
    "tl_conns ?s 0 = tcp_connection_new 0" "tl_destroys ?s = []" "\<not> tl_retry ?s" "lb_pending ?s = buffer_new 0"
    by (simp_all add: remote_connect_def client_connect_def l7_backend_new_def tcp_client_new_def
        tcp_client.extend_def Let_def)
  show "backend_inv ?s" unfolding backend_inv_def s
    using start_one_attempt [OF q(1,2), of fd err] q(3) s(6) by (simp add: tcp_connection_new_def)
  show "describe (remote_new targetNode) ?s = remote_new targetNode"
    using s by (simp add: describe_def remote_new_def tcp_connection_new_def)
qed

section \<open>Properties\<close>

text \<open>C7. The connection that the pool works with is the real one. A \<open>RemoteClient\<close> that is connected to its
  backend runs on a \<open>TcpClient\<close>, with any outcome of the connection attempt, any partial writes and any order of
  the loop's events. Seen through its state, its input buffer, what waits for the connection and what the
  connection has been given, it does in each event what the operation of the pool's model does, including
  the null pointer of \<open>disconnect\<close>; and the bytes that model counts as sent are those on the wire
  followed by those in the output buffer.\<close>

theorem backend_refines:
  assumes "s0 = remote_connect fd err (l7_backend_new addr targetNode)" and "backend_history es s0"
  shows "map_option (describe (remote_new targetNode)) (backend_run es s0)
      = remote_run (labels es s0) (remote_new targetNode)
    \<and> (\<forall>s. backend_run es s0 = Some s \<longrightarrow> tl_conn s \<noteq> None \<longrightarrow>
        wire (tl_conns s 0) @ readable (outputBuffer (tl_conns s 0))
          = rc_sent (describe (remote_new targetNode) s))"
proof -
  have i: "backend_inv s0" "describe (remote_new targetNode) s0 = remote_new targetNode"
    using connected_backend_inv assms(1) by simp_all
  note r = backend_run_described [OF i(1) assms(2), of "remote_new targetNode", unfolded i(2)]
  moreover have "wire (tl_conns s 0) @ readable (outputBuffer (tl_conns s 0)) = rc_sent (describe (remote_new targetNode) s)"
    if "backend_run es s0 = Some s" "tl_conn s \<noteq> None" for s
  proof -
    from r that(1) have "backend_inv s" by blast
    with that(2) have "tl_count s = 1" using backend_inv_some(2) by blast
    then show ?thesis by (simp add: describe_def stream_def)
  qed
  ultimately show ?thesis by blast
qed

text \<open>
  A backend that refuses the connection: there is no retry and no error callback, so that the loop has
  nothing left to do for it, and what the client asked waits in \<open>pendingBuffer_\<close> for ever.
\<close>

definition quiet :: "connector \<Rightarrow> bool" where
  "quiet q \<longleftrightarrow> con_channel q = None \<and> retry_timers q = [] \<and> (\<forall>t \<in> set (con_tasks q). \<exists>x. t = Release_Task x)"

lemma refused_backend_silent:
  assumes "s0 = remote_connect fd ECONNREFUSED (l7_backend_new addr targetNode)"
    and "\<forall>e \<in> set es. (\<exists>d r. e = Forward d r) \<or> (\<exists>now x bound r. e = Connects now x bound r \<and> loop_event x)"
  shows "\<exists>s. backend_run es s0 = Some s \<and> tl_conn s = None
    \<and> readable (lb_pending s) = concat (map (\<lambda>e. case e of Forward d r \<Rightarrow> d | _ \<Rightarrow> []) es)"
proof -
  have step: "\<exists>q'. con_step x q = Some q' \<and> quiet q' \<and> handed q' = handed q \<and> errors q' = errors q"
    if "quiet q" "loop_event x" for x q
    using that by (cases x) (auto simp: quiet_def loop_event_def split: list.splits con_task.splits)
  have run: "\<exists>s1. backend_run es s = Some s1 \<and> tl_conn s1 = None
      \<and> readable (lb_pending s1) = readable (lb_pending s) @ concat (map (\<lambda>e. case e of Forward d r \<Rightarrow> d | _ \<Rightarrow> []) es)"
    if "quiet (tl_connector s)" "tl_conn s = None" "buf_inv (lb_pending s)" for s
    using that assms(2)
  proof (induction es arbitrary: s)
    case (Cons e es)
    from Cons.prems(4) consider d r where "e = Forward d r"
      | now x bound r where "e = Connects now x bound r" "loop_event x" by auto
    then show ?case
    proof cases
      case 1
      with Cons.IH [of "s\<lparr>lb_pending := append_data d (lb_pending s)\<rparr>"] Cons.prems show ?thesis
        by (simp add: backend_sendToBackend_def Tcp_Client.client_send_def append_data_props)
    next
      case 2
      from step [OF Cons.prems(1) 2(2)] obtain q where "con_step x (tl_connector s) = Some q" "quiet q"
        "handed q = handed (tl_connector s)" "errors q = errors (tl_connector s)" by blast
      with Cons.IH [of "s\<lparr>tl_connector := q\<rparr>"] Cons.prems 2 show ?thesis
        by (simp add: client_connector_event_def Let_def)
    qed
  qed simp
  have "quiet (tl_connector s0)" "tl_conn s0 = None" "lb_pending s0 = buffer_new 0"
    by (simp_all add: assms(1) quiet_def remote_connect_def client_connect_def l7_backend_new_def tcp_client_new_def
        tcp_client.extend_def setNewConnectionCallback_def connector_new_def connector_defs errno_defs)
  with run [of s0] show ?thesis by (simp add: buf_inv_new readable_new)
qed

text \<open>
  Two pieces of a request that come before and after the connection is up, of which the kernel takes a part; the
  response arrives and the backend closes.
\<close>

definition sample_backend :: "backend_event list" where
  "sample_backend = [Forward ''GET '' (Wrote 0), Connects 1 (Channel_Writable 0) True (Wrote 3),
     Forward ''/'' (Wrote 0), Receives ''HTTP'', Backend_Closes, Clears, Destroys]"

definition sample_start :: l7_backend where
  "sample_start = remote_connect 5 EINPROGRESS (l7_backend_new \<lparr>addr_ip = ''10.0.0.1'', addr_port = 80\<rparr> ''10.0.0.1:80'')"

lemmas backend_eval = sample_backend_def sample_start_def backend_honest_def remote_connect_def client_connect_def
  l7_backend_new_def tcp_client_new_def tcp_client.extend_def setNewConnectionCallback_def connector_new_def
  connector_defs errno_defs backend_sendToBackend_def Tcp_Client.client_send_def client_connector_event_def
  client_newConnection_def backend_on_up_def on_conn_def took_def loop_event_def client_handleClose_def
  client_removeConnection_def readable_def handleClose_def disable_all_def label_def

theorem backend_refines_witness:
  "\<exists>s ps. backend_run sample_backend sample_start = Some s \<and> ps = labels sample_backend sample_start \<and> ps \<noteq> []
    \<and> Some (describe (remote_new ''10.0.0.1:80'') s) = remote_run ps (remote_new ''10.0.0.1:80'')"
proof -
  have h: "backend_history sample_backend sample_start"
    by (simp add: backend_eval conn_eval)
  moreover have "backend_run sample_backend sample_start \<noteq> None"
    by (simp add: backend_eval conn_eval backend_clearPending_def client_destroy_next_def)
  moreover have "labels sample_backend sample_start \<noteq> []" by (simp add: sample_backend_def label_def)
  ultimately show ?thesis using backend_refines [OF sample_start_def h] by auto
qed

end
