(* ===== verification/Spec2Isabelle.thy ===== *)
theory Spec2Isabelle
  imports Byte_Buffer Token_Bucket_Threads Api_Key_Auth Pico_Chunked Pico_Sse Http_Exchange Selector
    Event_Loop Timer_Queue Connector L7_Gateway Tlv_Codec Loop_Thread Tcp_Server
    L4_Proxy Health_Checker Sockets Threads Logging Echo_Client L7_Backend
begin

text \<open>
  Vortex-Net: a C++ network library (event loops over epoll, TCP servers and clients), an HTTP module
  on top of it, and two load balancers, one for TCP and one for HTTP with large language models
  behind it. This development models the library and both balancers and proves what makes
  them correct, and where the code departs from that, what it does instead.

  \<^bold>\<open>Parts and theories.\<close> Paths are relative to the repository.

  \<^item> \<open>Prelude\<close>: bytes and strings as lists of \<open>char\<close>, the machine integers \<open>u32\<close> and \<open>u64\<close>, printing and
    reading numbers, the collections \<open>inv_intro\<close> (an operation keeps an invariant) and \<open>content_simp\<close>
    (what it does to the contents), lemmas on lists and words.
  \<^item> \<open>Byte_Buffer\<close> (\<^verbatim>\<open>utils/Buffer\<close>): the application buffer, storage and two indices; locale
    \<open>byte_queue\<close>, interpreted on it as \<open>buf\<close>. Input and output of every connection.
  \<^item> \<open>Event_Poller\<close> (\<^verbatim>\<open>src/Channel\<close>, \<^verbatim>\<open>src/Poller\<close>, \<^verbatim>\<open>src/EPollPoller\<close>): event masks, dispatch to handlers, and
    the states of a channel against the kernel's interest list.
  \<^item> \<open>Event_Loop\<close> (\<^verbatim>\<open>src/EventLoop\<close>): the queue of functors, \<open>runInLoop\<close>, the wakeup descriptor,
    \<open>quit\<close> and the loop, as steps of the loop thread and of other threads; the push and the wakeup of \<open>queueInLoop\<close>
    are two steps.
  \<^item> \<open>Timer_Queue\<close> (\<^verbatim>\<open>src/Timer\<close>, \<^verbatim>\<open>src/TimerQueue\<close>, \<open>runAt\<close>, \<open>runAfter\<close>, \<open>runEvery\<close>): timers in a heap, the ordered
    set of expirations and the timer descriptor.
  \<^item> \<open>Loop_Thread\<close> (\<^verbatim>\<open>src/EventLoopThread\<close>, \<^verbatim>\<open>utils/thread.cc\<close>): starting a loop in a new thread, as interleaved
    synchronisation steps, with the end of that thread when the loop is quit.
  \<^item> \<open>Tcp_Connection\<close> (\<^verbatim>\<open>src/TcpConnection\<close>): one connection; \<open>wire\<close> is what the kernel took.
  \<^item> \<open>Tcp_Server\<close> (\<^verbatim>\<open>src/TcpServer\<close>, \<^verbatim>\<open>src/Acceptor\<close>, \<^verbatim>\<open>src/EventLoopThreadPool\<close>): the map of connections, their loops
    and the functors between the loops; the connections themselves are those of \<open>Tcp_Connection\<close>.
  \<^item> \<open>Connector\<close> (\<^verbatim>\<open>src/Connector\<close>): connecting with retries. \<open>Tcp_Client\<close> (\<^verbatim>\<open>src/TcpClient\<close>) joins it to
    \<open>Tcp_Connection\<close>; its user is the extension of the client's record and its callbacks are
    parameters. Locale \<open>client_user\<close> states what a callback leaves alone.
  \<^item> \<open>Service\<close>: a server program on its connection, a message callback with timers; locale
    \<open>stream_service\<close> is the contract of callbacks that do not depend on segmentation, interpreted on
    \<open>Echo_Server\<close> (\<^verbatim>\<open>echo_example\<close>). \<open>Tlv_Codec\<close> (\<^verbatim>\<open>Codec\<close>): reading framed messages from a buffer.
  \<^item> \<open>Echo_Client\<close> (\<^verbatim>\<open>echo_example/Client.cc\<close>): a user of \<open>Tcp_Client\<close> (interpretation \<open>ec\<close>).
  \<^item> \<open>Inet_Address\<close> (\<^verbatim>\<open>src/InetAddress\<close>): addresses. \<open>Sockets\<close> (\<^verbatim>\<open>src/socket\<close>, \<^verbatim>\<open>src/Acceptor\<close>): the system calls of a
    socket and the life of the listening socket on \<open>Event_Poller\<close>.
  \<^item> \<open>Threads\<close> (\<^verbatim>\<open>utils/thread\<close>, \<^verbatim>\<open>utils/CurrentThread\<close>): thread objects against the threads they start, and one
    loop per thread. \<open>Logging\<close> (\<^verbatim>\<open>utils/logger\<close>, \<^verbatim>\<open>utils/Timestamp\<close>): the log under many threads, time stamps.
  \<^item> \<open>Pico_Lexer\<close>, \<open>Pico_Http\<close>, \<open>Pico_Chunked\<close>, \<open>Pico_Sse\<close> (\<^verbatim>\<open>Http/picohttpparser.c\<close>): scanners, request and
    response heads, the chunked decoder, and the scanners of the SSE4.2 build, equal to the others.
    \<open>Http_Parser\<close> and \<open>Http_Server\<close> (\<^verbatim>\<open>Http\<close>): the message state machine (locale \<open>streaming_parser\<close>, interpreted on both parsers and on header blocks) and the server;
    \<open>Http_Exchange\<close> runs a service on them over \<open>Service\<close>, with a client that parses the answers.
  \<^item> \<open>Cow_Cell\<close>: the copy-on-write idiom used by the selector and the key store; locale
    \<open>snapshot_store\<close>. \<open>Server_Node\<close> and \<open>Selector\<close> (\<^verbatim>\<open>Proxy/src/Common\<close>): health of a node, smooth weighted
    round robin, consistent hashing.
  \<^item> \<open>L4_Proxy\<close> (\<^verbatim>\<open>Proxy/src/L4\<close>): the TCP proxy, a user of \<open>Tcp_Client\<close> (interpretation \<open>l4\<close>).
    \<open>Health_Checker\<close> (\<^verbatim>\<open>Proxy/src/L4/HealthCheck\<close>): the probes that drive \<open>Server_Node\<close>.
  \<^item> \<open>Token_Bucket\<close>, \<open>Token_Bucket_Threads\<close>, \<open>Api_Key_Auth\<close> (\<^verbatim>\<open>Proxy/src/L7/Middleware\<close>): the rate limiter in
    one thread and in many, and the key check. \<open>L7_Pool\<close> and \<open>L7_Gateway\<close> (\<^verbatim>\<open>Proxy/src/L7\<close>): backend
    connections with their pool, and admission, routing and forwarding; \<open>L7_Backend\<close> refines the
    pool's connections to \<open>Tcp_Client\<close> (interpretation \<open>l7\<close>).

  \<^bold>\<open>How they are modelled.\<close> A class is a record, a method a function on it. What a method calls outside
  the class is the model of that class where there is one (the proxy runs on \<open>Tcp_Client\<close>, that on
  \<open>Connector\<close> and \<open>Tcp_Connection\<close>, that on \<open>Byte_Buffer\<close>); results of system calls, clock readings and
  \<open>std::hash\<close> are arguments; calls of user callbacks are recorded or are parameters. Undefined
  behaviour (null or freed pointers) is the result \<open>None\<close>, a fault flag in \<open>Health_Checker\<close>, the outcome \<open>Undefined\<close> in \<open>Threads\<close>; in
  \<open>Sockets\<close> the result \<open>None\<close> is the end of the process.
  Concurrency is a list of events, each one atomic step of one thread; \<open>Token_Bucket_Threads\<close> and
  \<open>Loop_Thread\<close> use inductive step relations. Machine integers keep their width in the rate limiter,
  the parsers and the event masks; the counters of nodes and connections are numbers, with the
  bounds that keep them from overflowing as lemmas or hypotheses.

  \<^bold>\<open>What the lemmas show.\<close> Each component has an invariant with one preservation lemma per operation, the
  effect of each operation on its contents, and a lemma over whole histories; the numbered
  properties instantiate these.

  \<^item> Bytes: the buffer is a queue; a connection neither loses, repeats nor reorders bytes and closes
    after the last one; the TLV reader, the HTTP server and both proxies pass messages and
    streams unchanged through any segmentation; an HTTP service answers every request once and in order.
    A client of the TCP proxy that closes before its backend is up loses what it sent.
  \<^item> Parsing: the HTTP head parsers accept exactly a grammar given as separate definitions, do not
    change their verdict when more input arrives, stay within the input and the array of headers, and
    invert a printer; chunked decoding is the inverse of chunking and independent of
    fragmentation.
  \<^item> Loops: functors run once and in order; a sleeping loop has no work but what functors queued or
    what a thread is about to wake it for; timers run on time and in order; the poller makes only legal calls; a
    started loop is returned unless it is quit first; connections live in the loop they were given, close once and are
    destroyed once; a listening socket is out of the poller before it is closed.
  \<^item> Policy: the rate limit over any interleaving; the key set; fairness of round robin; the effect of
    a new node on consistent hashing; death and revival of nodes, decided by probes that each
    report once; the gateway's admission; exclusive use of pooled connections.
  \<^item> Failures: retries back off and end with the first success; descriptors are accounted for; and
    the properties of kind error are defects of the code: the body of a rejected request, a cancelled timer
    that has run. Other defects are lemmas: a null pointer without a backend, a stream split over two
    backends, a detached thread that outlives its object, a log line under another thread's level.

  \<^bold>\<open>Fuel and bounds.\<close> Loops are structural recursions or functions with a measure. The only fuel is in
  \<open>call_functors\<close> (the number of functors swapped out) and \<open>digits_of\<close> (one more than the number
  printed); both are enough by construction. The retry loop of \<open>tryAcquire\<close> ends when its
  compare-and-swap succeeds: in one thread that is the first time, and in \<open>Token_Bucket_Threads\<close> the safety
  statements hold for every number of rounds. Theorems show that a run has a result, except where the
  events themselves can be impossible (a loop without a functor to run): those assume a run.

  \<^bold>\<open>Not modelled.\<close> \<open>ThreadPool\<close> (not built, and does not compile), the example programs that only construct
  the library, and the copy of picohttpparser under \<^verbatim>\<open>Proxy/src/L7\<close> (identical and not built). \<open>TLVCodec::send\<close>
  passes a buffer to an overload that does not exist: what it frames is modelled, a sending of it is not. Results
  of the head parsers are numbers; the code casts them to \<^verbatim>\<open>int\<close>, which differs for heads of 2 GiB or more. The
  methods of a connection are single steps, although the code tests and sets the state of a connection separately. The
  proxies are modelled in one loop: with I/O threads the backend clients of the TCP proxy run in the base loop while the
  client connections do not, and their members are used without synchronisation. User callbacks do not
  reenter the library except where a theory says so (\<open>Tcp_Client\<close>, \<open>Health_Checker\<close>).
\<close>

end
